(* ===== verification/Prelude.thy ===== *)
theory Prelude
  imports Main "HOL-Library.Word"
begin

text \<open>
  Shared vocabulary of the development: machine integer names, the errors a run of the
  C++ code can stop with, reachability of a transition system with its invariant rule,
  and the generic facts on words and lists that several components use.
\<close>

unbundle bit_operations_syntax

subsection \<open>Types\<close>

type_synonym u64 = "64 word"
type_synonym i64 = "64 word"
type_synonym i32 = "32 word"

text \<open>
  What can stop a run: a failed \<open>assert\<close>, a dereference of a null pointer, an index
  outside a vector, and (in models of loops with fuel) a loop that did not end.
\<close>

datatype err = Assert_failed | Null_deref | Out_of_range | Out_of_fuel

type_synonym 'a res = "err + 'a"

text \<open>Sequencing of operations that can fail, and the dereference of a pointer.\<close>

definition and_then :: "'a res \<Rightarrow> ('a \<Rightarrow> 'b res) \<Rightarrow> 'b res" where
  "and_then x f = (case x of Inl e \<Rightarrow> Inl e | Inr y \<Rightarrow> f y)"

definition deref :: "'a option \<Rightarrow> 'a res" where
  "deref p = (case p of None \<Rightarrow> Inl Null_deref | Some a \<Rightarrow> Inr a)"

definition assert_that :: "bool \<Rightarrow> 'a \<Rightarrow> 'a res" where
  "assert_that b x = (if b then Inr x else Inl Assert_failed)"

lemma and_then_simps [simp]: "and_then (Inl e) f = Inl e" "and_then (Inr x) f = f x"
  by (simp_all add: and_then_def)

lemma and_then_Inr [simp]: "and_then x f = Inr z \<longleftrightarrow> (\<exists>y. x = Inr y \<and> f y = Inr z)"
  by (cases x) simp_all

lemma and_then_cong [fundef_cong]:
  "x = x' \<Longrightarrow> (\<And>y. x' = Inr y \<Longrightarrow> f y = f' y) \<Longrightarrow> and_then x f = and_then x' f'"
  by (cases x') (simp_all add: and_then_def)

lemma deref_simps [simp]: "deref None = Inl Null_deref" "deref (Some a) = Inr a"
  "deref p = Inr a \<longleftrightarrow> p = Some a"
  by (auto simp: deref_def split: option.splits)

lemma assert_that_simps [simp]: "assert_that True x = Inr x" "assert_that b x = Inr y \<longleftrightarrow> b \<and> x = y"
  "assert_that False x = Inl Assert_failed"
  by (auto simp: assert_that_def)

named_theorems word_halves "facts on the upper and lower half of a 64 bit word"

subsection \<open>The two halves of a 64 bit word\<close>

definition hi_half :: "u64 \<Rightarrow> nat" where
  "hi_half w = unat w div 2 ^ 32"

definition lo_half :: "u64 \<Rightarrow> nat" where
  "lo_half w = unat w mod 2 ^ 32"

lemma mask32: "(0xffffffff :: u64) = mask 32"
  by (simp add: mask_eq_exp_minus_1)

lemma mask32_hi: "(0xffffffff00000000 :: u64) = push_bit 32 (mask 32)"
  by (simp add: mask_eq_exp_minus_1 push_bit_eq_mult)

lemma unat_and_lo [word_halves]: "unat (0xffffffff AND w :: u64) = lo_half w"
proof -
  have "0xffffffff AND w = take_bit 32 w"
    by (simp add: mask32 take_bit_eq_mask and.commute)
  then show ?thesis
    by (simp add: lo_half_def unat_mod take_bit_eq_mod)
qed

lemma and_hi_eq: "(0xffffffff00000000 AND w :: u64) = push_bit 32 (drop_bit 32 w)"
proof (rule bit_word_eqI)
  fix n assume "n < LENGTH(64)"
  then show "bit (0xffffffff00000000 AND w) n = bit (push_bit 32 (drop_bit 32 w)) n"
    by (auto simp: mask32_hi bit_simps)
qed

lemma hi_half_less [word_halves]: "hi_half w < 2 ^ 32"
  using unsigned_less [of w, where ?'a = nat] by (simp add: hi_half_def less_mult_imp_div_less)

lemma lo_half_less [word_halves]: "lo_half w < 2 ^ 32"
  by (simp add: lo_half_def)

lemma halves_less [simp]: "hi_half w < 4294967296" "lo_half w < 4294967296"
  using hi_half_less [of w] lo_half_less [of w] by simp_all

lemma halves_join: "unat w = hi_half w * 2 ^ 32 + lo_half w"
  by (simp add: hi_half_def lo_half_def)

lemma unat_and_hi [word_halves]:
  "unat (0xffffffff00000000 AND w :: u64) = hi_half w * 2 ^ 32"
proof -
  have "unat (push_bit 32 (drop_bit 32 w) :: u64)
      = (unat (drop_bit 32 w) * 2 ^ 32) mod 2 ^ 64"
    by (simp add: push_bit_eq_mult unat_word_ariths)
  also have "unat (drop_bit 32 w) = hi_half w"
    by (simp add: hi_half_def unat_div drop_bit_eq_div)
  also have "(hi_half w * 2 ^ 32) mod 2 ^ 64 = hi_half w * 2 ^ 32"
    using hi_half_less [of w] by simp
  finally show ?thesis by (simp add: and_hi_eq)
qed

lemma word_eq_halves: "w = w' \<longleftrightarrow> hi_half w = hi_half w' \<and> lo_half w = lo_half w'"
  by (metis halves_join word_unat_eq_iff)

lemma halves_of_masks [word_halves]:
  "lo_half (0xffffffff00000000 AND w) = 0" "hi_half (0xffffffff00000000 AND w) = hi_half w"
  "lo_half (0xffffffff AND w) = lo_half w" "hi_half (0xffffffff AND w) = 0"
proof -
  show "lo_half (0xffffffff00000000 AND w) = 0"
    "hi_half (0xffffffff00000000 AND w) = hi_half w"
    "lo_half (0xffffffff AND w) = lo_half w" "hi_half (0xffffffff AND w) = 0"
    by (simp_all only: hi_half_def [of "_ AND _"] lo_half_def [of "_ AND _"] unat_and_hi unat_and_lo)
       simp_all
qed

lemma unat_join:
  assumes "lo_half a = 0" and "unat b < 2 ^ 32"
  shows "unat (a OR b) = unat a + unat (b :: u64)"
proof -
  have "take_bit 32 a = 0"
    using assms(1) by (simp add: lo_half_def take_bit_eq_mod word_unat_eq_iff unat_mod)
  then have a: "\<not> bit a n" if "n < 32" for n
    using that by (metis bit_0_eq bit_take_bit_iff bot_apply bot_bool_def)
  have "take_bit 32 b = b"
    using assms(2) by (simp add: take_bit_eq_mod word_unat_eq_iff unat_mod)
  then have b: "\<not> bit b n" if "32 \<le> n" for n
    using that by (metis bit_take_bit_iff linorder_not_le)
  have "a + b = a OR b"
    using a b by (intro disjunctive_add) (meson linorder_not_le)
  moreover have "unat a + unat b < 2 ^ 64"
  proof -
    have "unat a = hi_half a * 2 ^ 32" using halves_join [of a] assms(1) by simp
    moreover have "hi_half a \<le> 2 ^ 32 - 1" using halves_less(1) [of a] by (simp del: halves_less)
    ultimately show ?thesis using assms(2) by simp
  qed
  ultimately show ?thesis
    using unat_add_lem [of a b] by simp
qed

lemma hi_half_add_high:
  assumes "hi_half w < 2 ^ 32 - 1"
  shows "hi_half (w + 0x100000000) = hi_half w + 1" "lo_half (w + 0x100000000) = lo_half w"
proof -
  have "unat w = hi_half w * 2 ^ 32 + lo_half w" by (rule halves_join)
  with assms halves_less(2) [of w] have "unat w + 2 ^ 32 < 2 ^ 64"
    by (simp del: halves_less)
  then have "unat (w + 0x100000000) = unat w + 2 ^ 32"
    by (simp add: unat_word_ariths)
  then show "hi_half (w + 0x100000000) = hi_half w + 1"
    "lo_half (w + 0x100000000) = lo_half w"
    by (simp_all add: hi_half_def lo_half_def)
qed

lemma hi_half_of_small [word_halves]: "n < 2 ^ 32 \<Longrightarrow> hi_half (word_of_nat n) = 0"
  by (simp add: hi_half_def unat_of_nat)

lemma lo_half_of_small [word_halves]: "n < 2 ^ 32 \<Longrightarrow> lo_half (word_of_nat n) = n"
  by (simp add: lo_half_def unat_of_nat)

lemma mask_add_high_zero:
  "(0xffffffff00000000 AND w) + 0x100000000 = (0 :: u64) \<longleftrightarrow> hi_half w = 2 ^ 32 - 1"
proof -
  have le: "hi_half w * 2 ^ 32 + 2 ^ 32 \<le> 2 ^ 64"
    using halves_less(1) [of w] by (simp del: halves_less)
  have "unat ((0xffffffff00000000 AND w) + 0x100000000)
      = (hi_half w * 2 ^ 32 + 2 ^ 32) mod 2 ^ 64"
    by (simp add: unat_word_ariths unat_and_hi)
  also have "\<dots> = 0 \<longleftrightarrow> hi_half w * 2 ^ 32 + 2 ^ 32 = 2 ^ 64"
    using le by (cases "hi_half w * 2 ^ 32 + 2 ^ 32 = 2 ^ 64") simp_all
  also have "\<dots> \<longleftrightarrow> hi_half w = 2 ^ 32 - 1" by auto
  finally show ?thesis by (simp add: unat_eq_zero)
qed

subsection \<open>Lists\<close>

lemma nth_upd: "h[a := x] ! b = (if b = a \<and> a < length h then x else h ! b)"
  by (cases "a < length h") (simp_all add: nth_list_update list_update_beyond)

subsection \<open>Reachability and invariants of transition systems\<close>

text \<open>
  A machine of the development is a predicate for its start states and a relation for its
  steps. The locale is the interface every machine's invariant proof goes through: its two
  laws are the base case and the step case, its lemma the conclusion for all reachable
  states.
\<close>

inductive reach :: "('s \<Rightarrow> bool) \<Rightarrow> ('s \<Rightarrow> 's \<Rightarrow> bool) \<Rightarrow> 's \<Rightarrow> bool"
  for init :: "'s \<Rightarrow> bool" and step :: "'s \<Rightarrow> 's \<Rightarrow> bool" where
  reach_start: "init s \<Longrightarrow> reach init step s"
| reach_next: "reach init step s \<Longrightarrow> step s t \<Longrightarrow> reach init step t"

locale machine_invariant =
  fixes init :: "'s \<Rightarrow> bool" and step :: "'s \<Rightarrow> 's \<Rightarrow> bool" and inv :: "'s \<Rightarrow> bool"
  assumes holds_at_start: "init s \<Longrightarrow> inv s"
    and kept_by_step: "inv s \<Longrightarrow> step s t \<Longrightarrow> inv t"
begin

lemma always: "reach init step s \<Longrightarrow> inv s"
  by (induction rule: reach.induct) (auto intro: holds_at_start kept_by_step)

lemma kept_by_steps: "step\<^sup>*\<^sup>* s t \<Longrightarrow> inv s \<Longrightarrow> inv t"
  by (induction rule: rtranclp_induct) (auto intro: kept_by_step)

end

end
