(* ===== verification/Register.thy ===== *)
theory Register
  imports Prelude
begin

text \<open>
  The atomic register of \<^verbatim>\<open>project2/include/AtomicRegister.hpp\<close>: a 64 bit word with a
  timestamp in its upper half and a 32 bit value in its lower half, so that both are read
  and written in one access. Shown here: a write is read back, its assertion fails exactly
  on a timestamp overflow, and a register that was written compares different from what it
  was before (no ABA), which is what the double collect of \<open>scan()\<close> rests on.
\<close>

section \<open>The register\<close>

record atomic_register =
  timestamp_with_value :: u64

definition TIMESTAMP_INC :: u64 where
  "TIMESTAMP_INC = 0x0000000100000000"

definition TIMESTAMP_MASK :: "u64 \<Rightarrow> u64" where
  "TIMESTAMP_MASK w = 0xffffffff00000000 AND w"

definition VALUE_MASK :: "u64 \<Rightarrow> u64" where
  "VALUE_MASK w = 0x00000000ffffffff AND w"

text \<open>Read only the value: the cast of the masked word to \<open>int\<close> keeps its lower 32 bits.\<close>

definition reg_read :: "atomic_register \<Rightarrow> i32" where
  "reg_read r = ucast (VALUE_MASK (timestamp_with_value r))"

text \<open>
  Write: the cast of the \<open>int\<close> to 64 bits extends its sign, which the mask removes.
\<close>

definition reg_write :: "atomic_register \<Rightarrow> i32 \<Rightarrow> atomic_register res" where
  "reg_write r value =
     (let new_timestamp_mask = TIMESTAMP_MASK (timestamp_with_value r) + TIMESTAMP_INC in
      if new_timestamp_mask = 0 then Inl Assert_failed
      else let new_value_mask = VALUE_MASK (scast value) in
        Inr (r\<lparr>timestamp_with_value := new_timestamp_mask OR new_value_mask\<rparr>))"

definition reg_default :: atomic_register where
  "reg_default = \<lparr>timestamp_with_value = 0\<rparr>"

definition reg_of_value :: "i32 \<Rightarrow> atomic_register res" where
  "reg_of_value value = reg_write reg_default value"

definition reg_copy :: "atomic_register \<Rightarrow> atomic_register" where
  "reg_copy r = \<lparr>timestamp_with_value = timestamp_with_value r\<rparr>"

text \<open>The move constructor gives the new register and what is left of the old one.\<close>

definition reg_move :: "atomic_register \<Rightarrow> atomic_register \<times> atomic_register" where
  "reg_move r = (\<lparr>timestamp_with_value = timestamp_with_value r\<rparr>, r\<lparr>timestamp_with_value := 0\<rparr>)"

definition reg_eq :: "atomic_register \<Rightarrow> atomic_register \<Rightarrow> bool" where
  "reg_eq a b \<longleftrightarrow> timestamp_with_value a = timestamp_with_value b"

definition reg_neq :: "atomic_register \<Rightarrow> atomic_register \<Rightarrow> bool" where
  "reg_neq a b \<longleftrightarrow> timestamp_with_value a \<noteq> timestamp_with_value b"

definition reg_assign :: "atomic_register \<Rightarrow> atomic_register \<Rightarrow> atomic_register" where
  "reg_assign a b = a\<lparr>timestamp_with_value := timestamp_with_value b\<rparr>"

text \<open>A run of writes by the register's single writer.\<close>

fun reg_writes :: "atomic_register \<Rightarrow> i32 list \<Rightarrow> atomic_register res" where
  "reg_writes r [] = Inr r"
| "reg_writes r (v # vs) = (case reg_write r v of Inl e \<Rightarrow> Inl e | Inr r' \<Rightarrow> reg_writes r' vs)"

section \<open>Its abstraction: a timestamp and a value\<close>

definition stamp :: "atomic_register \<Rightarrow> nat" where
  "stamp r = hi_half (timestamp_with_value r)"

lemma reg_eqI: "timestamp_with_value a = timestamp_with_value b \<Longrightarrow> a = (b :: atomic_register)"
  by simp

lemma reg_eq_iff [simp]: "reg_eq a b \<longleftrightarrow> a = b" "reg_neq a b \<longleftrightarrow> a \<noteq> b"
  by (auto simp: reg_eq_def reg_neq_def intro: reg_eqI)

lemma reg_assign_eq [simp]: "reg_assign a b = b"
  by (simp add: reg_assign_def)

lemma reg_copy_eq [simp]: "reg_copy r = r"
  by (simp add: reg_copy_def)

lemma stamp_default [simp]: "stamp reg_default = 0"
  by (simp add: stamp_def reg_default_def hi_half_def)

lemma unat_VALUE_MASK_int: "unat (VALUE_MASK (scast (v :: i32))) = unat v"
proof -
  have "VALUE_MASK (scast v) = ucast v"
  proof (rule bit_word_eqI)
    fix n assume n: "n < LENGTH(64)"
    consider "n < 31" | "n = 31" | "31 < n" by linarith
    then show "bit (VALUE_MASK (scast v)) n = bit (ucast v :: u64) n"
      using n by cases (auto simp: VALUE_MASK_def mask32 bit_simps min_def dest: bit_imp_le_length)
  qed
  moreover have "unat v < 2 ^ 64" using unsigned_less [of v, where ?'a = nat] by simp
  ultimately show ?thesis by (simp add: unsigned_ucast_eq take_bit_nat_eq_self)
qed

lemma reg_read_eq: "reg_read r = word_of_nat (lo_half (timestamp_with_value r))"
  by (metis VALUE_MASK_def of_nat_unat reg_read_def unat_and_lo)

lemma reg_write_fails_iff: "reg_write r v = Inl e \<longleftrightarrow> e = Assert_failed \<and> stamp r = 2 ^ 32 - 1"
  by (auto simp: reg_write_def Let_def TIMESTAMP_MASK_def TIMESTAMP_INC_def mask_add_high_zero stamp_def)

lemma reg_write_word:
  assumes "reg_write r v = Inr r'"
  shows "hi_half (timestamp_with_value r') = stamp r + 1"
    and "lo_half (timestamp_with_value r') = unat v"
proof -
  let ?m = "TIMESTAMP_MASK (timestamp_with_value r)"
  have "stamp r \<noteq> 2 ^ 32 - 1" using assms reg_write_fails_iff by (metis Inl_Inr_False)
  moreover have "stamp r < 2 ^ 32" by (simp add: stamp_def)
  ultimately have lt: "stamp r < 2 ^ 32 - 1" by simp
  have m: "hi_half ?m = stamp r" "lo_half ?m = 0"
    by (simp_all add: TIMESTAMP_MASK_def stamp_def word_halves)
  then have inc: "hi_half (?m + TIMESTAMP_INC) = stamp r + 1" "lo_half (?m + TIMESTAMP_INC) = 0"
    using hi_half_add_high [of ?m] lt by (simp_all add: TIMESTAMP_INC_def)
  have v: "unat (VALUE_MASK (scast v)) < 2 ^ 32"
    using unsigned_less [of v, where ?'a = nat] by (simp add: unat_VALUE_MASK_int)
  have r': "timestamp_with_value r' = (?m + TIMESTAMP_INC) OR VALUE_MASK (scast v)"
    using assms by (auto simp: reg_write_def Let_def split: if_splits)
  have w: "unat (timestamp_with_value r') = unat v + (stamp r + 1) * 2 ^ 32"
    using unat_join [OF inc(2) v] halves_join [of "?m + TIMESTAMP_INC"] inc
    by (simp add: r' unat_VALUE_MASK_int)
  have "unat v < 2 ^ 32" using v by (simp add: unat_VALUE_MASK_int)
  then show "hi_half (timestamp_with_value r') = stamp r + 1"
    "lo_half (timestamp_with_value r') = unat v"
    unfolding hi_half_def [of "timestamp_with_value r'"] lo_half_def [of "timestamp_with_value r'"] w
    by (simp_all only: div_mult_self1 mod_mult_self1) simp_all
qed

lemma stamp_write: "reg_write r v = Inr r' \<Longrightarrow> stamp r' = stamp r + 1"
  by (simp add: stamp_def reg_write_word(1))

lemma read_write: "reg_write r v = Inr r' \<Longrightarrow> reg_read r' = v"
  by (simp add: reg_read_eq reg_write_word(2))

section \<open>The contract its clients rely on\<close>

text \<open>
  A stamped cell: a write is read back and raises the stamp by one. The double collect of
  \<open>scan()\<close> relies on nothing else. The client lemmas are about runs of writes given by
  their relation.
\<close>

locale stamped_cell =
  fixes rd :: "'c \<Rightarrow> 'v" and wr :: "'c \<Rightarrow> 'v \<Rightarrow> 'e + 'c" and st :: "'c \<Rightarrow> nat"
  assumes rd_wr: "wr c v = Inr c' \<Longrightarrow> rd c' = v"
    and st_wr: "wr c v = Inr c' \<Longrightarrow> st c' = st c + 1"
begin

lemma written_differs: "wr c v = Inr c' \<Longrightarrow> c' \<noteq> c"
  using st_wr by fastforce

lemma steps_raise_stamp: "(\<lambda>a b. \<exists>v. wr a v = Inr b)\<^sup>*\<^sup>* c d \<Longrightarrow> st c \<le> st d"
  by (induction rule: rtranclp_induct) (auto dest: st_wr)

lemma same_stamp_unwritten:
  assumes "(\<lambda>a b. \<exists>v. wr a v = Inr b)\<^sup>*\<^sup>* c d" and "st c = st d"
  shows "c = d"
  using assms(1)
proof (cases rule: converse_rtranclpE)
  case (step y)
  then have "st c + 1 \<le> st d" using steps_raise_stamp st_wr by fastforce
  then show ?thesis using assms(2) by simp
qed simp

end

interpretation reg: stamped_cell reg_read reg_write stamp
  by unfold_locales (fact read_write, fact stamp_write)

lemma reg_writes_steps:
  "reg_writes r vs = Inr r' \<Longrightarrow> (\<lambda>a b. \<exists>v. reg_write a v = Inr b)\<^sup>*\<^sup>* r r'"
  by (induction vs arbitrary: r)
     (auto split: sum.splits intro: converse_rtranclp_into_rtranclp)

lemma stamp_writes: "reg_writes r vs = Inr r' \<Longrightarrow> stamp r' = stamp r + length vs"
  by (induction vs arbitrary: r) (auto split: sum.splits dest: reg.st_wr)

lemma reg_writes_enough:
  "stamp r + length vs < 2 ^ 32 \<Longrightarrow> \<exists>r'. reg_writes r vs = Inr r'"
proof (induction vs arbitrary: r)
  case (Cons v vs)
  then have "reg_write r v \<noteq> Inl e" for e by (auto simp: reg_write_fails_iff)
  then obtain r1 where r1: "reg_write r v = Inr r1" by (metis obj_sumE)
  then show ?case using Cons by (simp add: stamp_write)
qed simp

section \<open>Properties\<close>

text \<open>
  C38: a write whose assertion holds is read back, bit for bit, for every 32 bit value
  (negative ones included); it raises the timestamp by one; and the assertion fails exactly
  when the timestamp is at its maximum.
\<close>

theorem register_write_contract:
  "case reg_write r v of
     Inl e \<Rightarrow> e = Assert_failed \<and> stamp r = 2 ^ 32 - 1
   | Inr r' \<Rightarrow> stamp r < 2 ^ 32 - 1 \<and> reg_read r' = v \<and> stamp r' = stamp r + 1"
proof (cases "reg_write r v")
  case (Inl e)
  then have "e = Assert_failed \<and> stamp r = 2 ^ 32 - 1" by (simp only: reg_write_fails_iff)
  then show ?thesis using Inl by simp
next
  case (Inr r')
  then have s: "stamp r' = stamp r + 1" by (rule stamp_write)
  moreover have "stamp r' < 2 ^ 32" by (simp add: stamp_def)
  ultimately have "stamp r < 2 ^ 32 - 1" by simp
  with s Inr show ?thesis by (simp add: reg.rd_wr)
qed

text \<open>
  C37: no ABA. After at least one write that returned, the register compares different from
  its old copy, whatever the values written; and up to the timestamp bound every run of
  writes returns.
\<close>

theorem register_no_aba:
  assumes "vs \<noteq> []" and "stamp r + length vs < 2 ^ 32"
  shows "\<exists>r'. reg_writes r vs = Inr r' \<and> reg_neq r' (reg_copy r) \<and> reg_read r' = last vs"
proof -
  obtain r' where r': "reg_writes r vs = Inr r'" using reg_writes_enough assms(2) by blast
  then have "stamp r' \<noteq> stamp r" using stamp_writes assms(1) by fastforce
  moreover have "reg_read r' = last vs" using r' assms(1)
  proof (induction vs arbitrary: r)
    case (Cons v vs)
    then show ?case by (cases vs) (auto split: sum.splits dest: reg.rd_wr)
  qed simp
  ultimately show ?thesis using r' by auto
qed

theorem register_no_aba_witness:
  "\<exists>r'. reg_writes reg_default [5, 0, 5] = Inr r' \<and> reg_neq r' (reg_copy reg_default) \<and> reg_read r' = 5"
  using register_no_aba [of "[5, 0, 5]" reg_default] by simp

end
