(* ===== verification/SharedSnapshot.thy ===== *)
theory SharedSnapshot
  imports Register
begin

text \<open>
  \<open>Snapshot\<close> and \<open>shared_snapshot\<close> of \<^verbatim>\<open>project2/src/WaitfreeAtomicSnapshot.cpp\<close>: the
  versions of a writer's snapshot and the split reference count that decides when a version
  may be overwritten. Each operation is given as its atomic accesses (a fetch_add, an
  exchange, a flag store) and composed from them as in the code; the interleaved machine of
  \<open>ScanMachine\<close> runs the same accesses one at a time. \<open>ss_inv\<close> says what the counters
  mean, and one lemma per access shows what it keeps.
\<close>

section \<open>Snapshot\<close>

record snapshot =
  inner_cnt :: i32
  registers :: "atomic_register list"
  recycle_flag :: bool

definition Snapshot_sized :: "nat \<Rightarrow> snapshot" where
  "Snapshot_sized thread_count =
     \<lparr>inner_cnt = 0, registers = replicate thread_count reg_default, recycle_flag = False\<rparr>"

definition Snapshot_of :: "atomic_register list \<Rightarrow> snapshot" where
  "Snapshot_of regs = \<lparr>inner_cnt = 0, registers = map reg_copy regs, recycle_flag = False\<rparr>"

text \<open>The copy and the move constructor take over the registers only.\<close>

definition Snapshot_copy :: "snapshot \<Rightarrow> snapshot" where
  "Snapshot_copy s = \<lparr>inner_cnt = 0, registers = registers s, recycle_flag = False\<rparr>"

definition Snapshot_index :: "snapshot \<Rightarrow> nat \<Rightarrow> atomic_register res" where
  "Snapshot_index s i = (if i < length (registers s) then Inr (registers s ! i) else Inl Out_of_range)"

definition Snapshot_assign :: "snapshot \<Rightarrow> snapshot \<Rightarrow> snapshot" where
  "Snapshot_assign d s = d\<lparr>registers := registers s, inner_cnt := 0, recycle_flag := False\<rparr>"

definition get_recycle_flag :: "snapshot \<Rightarrow> bool" where
  "get_recycle_flag s = recycle_flag s"

definition inner_fetch_add :: "snapshot \<Rightarrow> i32 \<Rightarrow> snapshot \<times> i32" where
  "inner_fetch_add s k = (s\<lparr>inner_cnt := inner_cnt s + k\<rparr>, inner_cnt s)"

definition inner_fetch_sub :: "snapshot \<Rightarrow> i32 \<Rightarrow> snapshot \<times> i32" where
  "inner_fetch_sub s k = (s\<lparr>inner_cnt := inner_cnt s - k\<rparr>, inner_cnt s)"

definition set_recycle_flag :: "snapshot \<Rightarrow> snapshot" where
  "set_recycle_flag s = s\<lparr>recycle_flag := True\<rparr>"

definition release :: "snapshot \<Rightarrow> snapshot" where
  "release s =
     (let (s', old) = inner_fetch_add s 1; remain_cnt = old + 1
      in if remain_cnt = 0 then set_recycle_flag s' else s')"

definition reset :: "snapshot \<Rightarrow> i32 \<Rightarrow> snapshot" where
  "reset s reset_cnt =
     (let (s', old) = inner_fetch_sub s reset_cnt; remain_cnt = old - reset_cnt
      in if remain_cnt = 0 then set_recycle_flag s' else s')"

section \<open>shared_snapshot\<close>

record shared_snapshot =
  outer_cnt_with_index :: u64
  snapshot_ptr_vector :: "snapshot option list"
  version_count :: nat

definition REFERENCE_CNT_INC :: u64 where
  "REFERENCE_CNT_INC = 0x0000000100000000"

definition REFERENCE_CNT_MASK :: "u64 \<Rightarrow> u64" where
  "REFERENCE_CNT_MASK w = 0xffffffff00000000 AND w"

definition EXTRACT_REFERENCE_CNT :: "u64 \<Rightarrow> i32" where
  "EXTRACT_REFERENCE_CNT w = ucast (drop_bit 32 (REFERENCE_CNT_MASK w))"

definition INDEX_MASK :: "u64 \<Rightarrow> u64" where
  "INDEX_MASK w = 0x00000000ffffffff AND w"

definition shared_snapshot_new :: "nat \<Rightarrow> shared_snapshot" where
  "shared_snapshot_new n =
     \<lparr>outer_cnt_with_index = 0, snapshot_ptr_vector = replicate n None, version_count = n\<rparr>"

text \<open>
  The destructor looks at \<open>version_count\<close> entries and deletes the versions there: their
  indices, or the error of an entry the vector does not have.
\<close>

definition shared_snapshot_destroy :: "shared_snapshot \<Rightarrow> nat list res" where
  "shared_snapshot_destroy ss =
     (if version_count ss \<le> length (snapshot_ptr_vector ss)
      then Inr (filter (\<lambda>i. snapshot_ptr_vector ss ! i \<noteq> None) [0..<version_count ss])
      else Inl Out_of_range)"

text \<open>
  The move constructor: the new object, and what is left of the old one. The count of the
  old one stays, so its destructor leaves the vector that was emptied.
\<close>

definition shared_snapshot_move :: "shared_snapshot \<Rightarrow> shared_snapshot \<times> shared_snapshot" where
  "shared_snapshot_move ss = (ss, ss\<lparr>snapshot_ptr_vector := []\<rparr>)"

lemma moved_from_destructor_fails:
  "0 < version_count ss \<Longrightarrow> shared_snapshot_destroy (snd (shared_snapshot_move ss)) = Inl Out_of_range"
  by (simp add: shared_snapshot_destroy_def shared_snapshot_move_def)

text \<open>Dereference of \<open>snapshot_ptr_vector[i]\<close>, and the store back through the pointer.\<close>

definition get_slot :: "shared_snapshot \<Rightarrow> nat \<Rightarrow> snapshot res" where
  "get_slot ss i =
     (if i < length (snapshot_ptr_vector ss)
      then (case snapshot_ptr_vector ss ! i of None \<Rightarrow> Inl Null_deref | Some s \<Rightarrow> Inr s)
      else Inl Out_of_range)"

definition put_slot :: "shared_snapshot \<Rightarrow> nat \<Rightarrow> snapshot \<Rightarrow> shared_snapshot" where
  "put_slot ss i s = ss\<lparr>snapshot_ptr_vector := (snapshot_ptr_vector ss)[i := Some s]\<rparr>"

definition slot_free :: "snapshot option \<Rightarrow> bool" where
  "slot_free p = (case p of None \<Rightarrow> True | Some s \<Rightarrow> get_recycle_flag s)"

text \<open>The search loop of \<open>exchange()\<close>, from index \<open>i\<close>.\<close>

function find_index :: "snapshot option list \<Rightarrow> nat \<Rightarrow> nat \<Rightarrow> nat" where
  "find_index ptrs n i =
     (if i < n then (if slot_free (ptrs ! i) then i else find_index ptrs n (Suc i)) else i)"
  by pat_completeness auto
termination by (relation "measure (\<lambda>(ptrs, n, i). n - i)") auto

declare find_index.simps [simp del]

definition ss_install :: "shared_snapshot \<Rightarrow> nat \<Rightarrow> snapshot \<Rightarrow> shared_snapshot" where
  "ss_install ss i snap =
     put_slot ss i (case snapshot_ptr_vector ss ! i of
         None \<Rightarrow> Snapshot_copy snap
       | Some s \<Rightarrow> Snapshot_assign s snap)"

definition ss_swap :: "shared_snapshot \<Rightarrow> nat \<Rightarrow> shared_snapshot \<times> u64" where
  "ss_swap ss i = (ss\<lparr>outer_cnt_with_index := word_of_nat i\<rparr>, outer_cnt_with_index ss)"

definition exchange :: "shared_snapshot \<Rightarrow> snapshot \<Rightarrow> shared_snapshot res" where
  "exchange ss snap =
     (let i = find_index (snapshot_ptr_vector ss) (version_count ss) 0 in
      if i = version_count ss then Inl Assert_failed
      else let (ss', old) = ss_swap (ss_install ss i snap) i;
               old_ref_cnt = EXTRACT_REFERENCE_CNT old in
        if \<not> 0 \<le>s old_ref_cnt then Inl Assert_failed
        else let old_index = INDEX_MASK old in
          if old_index \<noteq> word_of_nat i
          then (case get_slot ss' (unat old_index) of
                  Inl e \<Rightarrow> Inl e
                | Inr s \<Rightarrow> Inr (put_slot ss' (unat old_index) (reset s old_ref_cnt)))
          else Inr ss')"

definition outer_fetch_add :: "shared_snapshot \<Rightarrow> shared_snapshot \<times> u64" where
  "outer_fetch_add ss =
     (ss\<lparr>outer_cnt_with_index := outer_cnt_with_index ss + REFERENCE_CNT_INC\<rparr>,
      outer_cnt_with_index ss)"

text \<open>\<open>acquire()\<close> returns a reference: the index of the version it points to.\<close>

definition acquire :: "shared_snapshot \<Rightarrow> (shared_snapshot \<times> nat) res" where
  "acquire ss =
     (let (ss', old) = outer_fetch_add ss; index = unat (INDEX_MASK old) in
      case get_slot ss' index of Inl e \<Rightarrow> Inl e | Inr s \<Rightarrow> Inr (ss', index))"

text \<open>\<open>release()\<close> through a reference obtained from \<open>acquire()\<close>.\<close>

definition release_slot :: "shared_snapshot \<Rightarrow> nat \<Rightarrow> shared_snapshot res" where
  "release_slot ss i =
     (case get_slot ss i of Inl e \<Rightarrow> Inl e | Inr s \<Rightarrow> Inr (put_slot ss i (release s)))"

section \<open>What the counters mean\<close>

definition cur :: "shared_snapshot \<Rightarrow> nat" where
  "cur ss = lo_half (outer_cnt_with_index ss)"

definition refs :: "shared_snapshot \<Rightarrow> nat" where
  "refs ss = hi_half (outer_cnt_with_index ss)"

text \<open>
  Where the single writer is inside \<open>exchange()\<close>: outside or searching, between storing
  the new version and publishing it, or between publishing it and resetting the old one.
\<close>

datatype wmode = Quiet | Installed nat | Unreset nat nat

text \<open>
  \<open>h x\<close> counts the references to version \<open>x\<close> that were acquired and not yet released,
  \<open>p x\<close> the threads that have brought its inner count to zero and are about to set its
  flag. The inner count of the current version counts the releases so far; that of a
  replaced one counts, negatively, the references still out.
\<close>

definition counts_up :: "nat \<Rightarrow> nat \<Rightarrow> nat \<Rightarrow> snapshot \<Rightarrow> bool" where
  "counts_up c h p s \<longleftrightarrow>
     sint (inner_cnt s) + int h = int c \<and> h \<le> c \<and> p = 0 \<and> \<not> recycle_flag s"

definition retired :: "nat \<Rightarrow> nat \<Rightarrow> snapshot \<Rightarrow> bool" where
  "retired h p s \<longleftrightarrow>
     sint (inner_cnt s) = - int h \<and> p \<le> 1 \<and> (p = 1 \<longrightarrow> h = 0) \<and> (recycle_flag s \<longleftrightarrow> h = 0 \<and> p = 0)"

text \<open>
  The number of references a version's inner count still counts up to, or \<open>None\<close> when the
  version is retired: the current version, a stored but unpublished one, and a replaced
  one whose count was not yet subtracted.
\<close>

definition pending_refs :: "shared_snapshot \<Rightarrow> wmode \<Rightarrow> nat \<Rightarrow> nat option" where
  "pending_refs ss wm x =
     (if x = cur ss then Some (refs ss)
      else case wm of
          Quiet \<Rightarrow> None
        | Installed i \<Rightarrow> if i = x then Some 0 else None
        | Unreset y c \<Rightarrow> if y = x then Some c else None)"

definition slot_ok :: "shared_snapshot \<Rightarrow> (nat \<Rightarrow> nat) \<Rightarrow> (nat \<Rightarrow> nat) \<Rightarrow> wmode \<Rightarrow> nat \<Rightarrow> bool" where
  "slot_ok ss h p wm x =
     (case snapshot_ptr_vector ss ! x of
        None \<Rightarrow> h x = 0 \<and> p x = 0
      | Some s \<Rightarrow> (case pending_refs ss wm x of
            Some c \<Rightarrow> counts_up c (h x) (p x) s
          | None \<Rightarrow> retired (h x) (p x) s))"

definition wm_ok :: "shared_snapshot \<Rightarrow> nat \<Rightarrow> wmode \<Rightarrow> bool" where
  "wm_ok ss N wm =
     (case wm of
        Quiet \<Rightarrow> snapshot_ptr_vector ss ! cur ss = None \<longrightarrow> cur ss = 0 \<and> refs ss = 0
      | Installed i \<Rightarrow> i < version_count ss \<and> snapshot_ptr_vector ss ! i \<noteq> None
          \<and> snapshot_ptr_vector ss ! cur ss \<noteq> None \<and> (i = cur ss \<longrightarrow> refs ss = 0)
      | Unreset x c \<Rightarrow> x < version_count ss \<and> x \<noteq> cur ss \<and> snapshot_ptr_vector ss ! x \<noteq> None
          \<and> snapshot_ptr_vector ss ! cur ss \<noteq> None \<and> c \<le> N)"

definition ss_inv :: "nat \<Rightarrow> shared_snapshot \<Rightarrow> (nat \<Rightarrow> nat) \<Rightarrow> (nat \<Rightarrow> nat) \<Rightarrow> wmode \<Rightarrow> bool" where
  "ss_inv N ss h p wm \<longleftrightarrow>
     N < 2 ^ 31 \<and> version_count ss < 2 ^ 32 \<and> length (snapshot_ptr_vector ss) = version_count ss
     \<and> cur ss < version_count ss \<and> refs ss \<le> N \<and> wm_ok ss N wm
     \<and> (\<forall>x < version_count ss. slot_ok ss h p wm x)"

text \<open>At least one version was published, so that a reader's reference is not null.\<close>

definition published :: "shared_snapshot \<Rightarrow> wmode \<Rightarrow> bool" where
  "published ss wm \<longleftrightarrow> snapshot_ptr_vector ss ! cur ss \<noteq> None \<and> wm \<noteq> Installed (cur ss)"

text \<open>What a reader sees through a reference to version \<open>x\<close>.\<close>

definition slot_view :: "shared_snapshot \<Rightarrow> nat \<Rightarrow> atomic_register list option" where
  "slot_view ss x = map_option registers (snapshot_ptr_vector ss ! x)"

section \<open>Word facts\<close>

lemma sint32_add:
  "- (2 ^ 31) \<le> sint a + sint b \<Longrightarrow> sint a + sint b < 2 ^ 31 \<Longrightarrow> sint (a + b :: i32) = sint a + sint b"
  by (simp add: sint_word_ariths signed_take_bit_int_eq_self)

lemma sint32_sub:
  "- (2 ^ 31) \<le> sint a - sint b \<Longrightarrow> sint a - sint b < 2 ^ 31 \<Longrightarrow> sint (a - b :: i32) = sint a - sint b"
  by (simp add: sint_word_ariths signed_take_bit_int_eq_self)

lemma sint32_of_nat: "n < 2 ^ 31 \<Longrightarrow> sint (word_of_nat n :: i32) = int n"
  by (simp add: signed_of_nat signed_take_bit_int_eq_self)

lemma extract_refs:
  "refs ss < 2 ^ 31 \<Longrightarrow> EXTRACT_REFERENCE_CNT (outer_cnt_with_index ss) = word_of_nat (refs ss)"
proof -
  let ?w = "outer_cnt_with_index ss"
  have "unat (drop_bit 32 (REFERENCE_CNT_MASK ?w)) = refs ss"
    by (simp add: REFERENCE_CNT_MASK_def drop_bit_eq_div unat_div unat_and_hi refs_def)
  then show ?thesis
    by (metis EXTRACT_REFERENCE_CNT_def of_nat_unat)
qed

lemma unat_INDEX_MASK [simp]: "unat (INDEX_MASK (outer_cnt_with_index ss)) = cur ss"
  by (simp add: INDEX_MASK_def unat_and_lo cur_def)

lemma index_mask_neq_iff:
  "i < 2 ^ 32 \<Longrightarrow> INDEX_MASK (outer_cnt_with_index ss) \<noteq> word_of_nat i \<longleftrightarrow> cur ss \<noteq> i"
  by (simp add: word_unat_eq_iff unat_of_nat)

lemma find_index_spec:
  "i \<le> n \<Longrightarrow> i \<le> find_index ptrs n i \<and> find_index ptrs n i \<le> n
    \<and> (\<forall>k. i \<le> k \<longrightarrow> k < find_index ptrs n i \<longrightarrow> \<not> slot_free (ptrs ! k))
    \<and> (find_index ptrs n i < n \<longrightarrow> slot_free (ptrs ! find_index ptrs n i))"
proof (induction ptrs n i rule: find_index.induct)
  case (1 ptrs n i)
  show ?case
  proof (cases "i < n \<and> \<not> slot_free (ptrs ! i)")
    case True
    with 1 have "Suc i \<le> find_index ptrs n (Suc i) \<and> find_index ptrs n (Suc i) \<le> n
      \<and> (\<forall>k. Suc i \<le> k \<longrightarrow> k < find_index ptrs n (Suc i) \<longrightarrow> \<not> slot_free (ptrs ! k))
      \<and> (find_index ptrs n (Suc i) < n \<longrightarrow> slot_free (ptrs ! find_index ptrs n (Suc i)))" by simp
    with True show ?thesis
      by (simp add: find_index.simps [of ptrs n i]) (metis Suc_leI le_neq_implies_less)
  next
    case False
    with "1.prems" show ?thesis by (auto simp: find_index.simps [of ptrs n i])
  qed
qed

section \<open>Every access keeps the meaning of the counters\<close>

lemma put_slot_simps [simp]:
  "cur (put_slot ss i s) = cur ss" "refs (put_slot ss i s) = refs ss"
  "version_count (put_slot ss i s) = version_count ss"
  "length (snapshot_ptr_vector (put_slot ss i s)) = length (snapshot_ptr_vector ss)"
  "outer_cnt_with_index (put_slot ss i s) = outer_cnt_with_index ss"
  "snapshot_ptr_vector (put_slot ss i s) = (snapshot_ptr_vector ss)[i := Some s]"
  by (simp_all add: put_slot_def cur_def refs_def)

lemma ss_inv_slot: "ss_inv N ss h p wm \<Longrightarrow> x < version_count ss \<Longrightarrow> slot_ok ss h p wm x"
  by (simp add: ss_inv_def)

lemma pending_refs_le:
  "ss_inv N ss h p wm \<Longrightarrow> pending_refs ss wm x = Some c \<Longrightarrow> c < 2 ^ 31"
  by (auto simp: ss_inv_def wm_ok_def pending_refs_def split: if_splits wmode.splits)

lemma slot_ok_cong:
  "snapshot_ptr_vector ss' ! x = snapshot_ptr_vector ss ! x \<Longrightarrow>
   pending_refs ss' wm' x = pending_refs ss wm x \<Longrightarrow> h' x = h x \<Longrightarrow> p' x = p x \<Longrightarrow>
   slot_ok ss' h' p' wm' x = slot_ok ss h p wm x"
  by (simp add: slot_ok_def cong: option.case_cong)

lemma slot_SomeD:
  "slot_ok ss h p wm x \<Longrightarrow> snapshot_ptr_vector ss ! x = Some s \<Longrightarrow>
    (case pending_refs ss wm x of Some c \<Rightarrow> counts_up c (h x) (p x) s | None \<Rightarrow> retired (h x) (p x) s)"
  by (simp add: slot_ok_def)

text \<open>A change of one slot keeps the invariant if it keeps that slot and the others' counts.\<close>

lemma ss_inv_put_mode:
  assumes inv: "ss_inv N ss h p wm" and x: "x < version_count ss"
    and some: "snapshot_ptr_vector ss ! x \<noteq> None"
    and same: "\<And>y. y \<noteq> x \<Longrightarrow> h' y = h y" "\<And>y. y \<noteq> x \<Longrightarrow> p' y = p y"
    and pend: "\<And>y. y \<noteq> x \<Longrightarrow> pending_refs ss wm' y = pending_refs ss wm y"
    and ok: "case pending_refs ss wm' x of Some c \<Rightarrow> counts_up c (h' x) (p' x) s
             | None \<Rightarrow> retired (h' x) (p' x) s"
    and wm: "wm_ok ss N wm'"
  shows "ss_inv N (put_slot ss x s) h' p' wm'"
proof -
  have pend': "pending_refs (put_slot ss x s) wm' = pending_refs ss wm'"
    by (rule ext) (simp add: pending_refs_def)
  have len: "length (snapshot_ptr_vector ss) = version_count ss"
    using inv by (simp add: ss_inv_def)
  have "slot_ok (put_slot ss x s) h' p' wm' y" if "y < version_count ss" for y
  proof (cases "y = x")
    case True
    then show ?thesis using x ok by (simp add: slot_ok_def pend' len)
  next
    case False
    then have "slot_ok (put_slot ss x s) h' p' wm' y = slot_ok ss h p wm y"
      by (intro slot_ok_cong) (simp_all add: pend' pend same)
    then show ?thesis using ss_inv_slot [OF inv that] by simp
  qed
  moreover have "wm_ok (put_slot ss x s) N wm'"
    using wm some len x by (auto simp: wm_ok_def nth_list_update split: wmode.splits)
  ultimately show ?thesis using inv by (simp add: ss_inv_def)
qed

lemma ss_inv_put:
  assumes "ss_inv N ss h p wm" and "x < version_count ss"
    and "snapshot_ptr_vector ss ! x \<noteq> None"
    and "\<And>y. y \<noteq> x \<Longrightarrow> h' y = h y" "\<And>y. y \<noteq> x \<Longrightarrow> p' y = p y"
    and "case pending_refs ss wm x of Some c \<Rightarrow> counts_up c (h' x) (p' x) s
             | None \<Rightarrow> retired (h' x) (p' x) s"
  shows "ss_inv N (put_slot ss x s) h' p' wm"
  using assms by (intro ss_inv_put_mode [where wm = wm]) (auto simp: ss_inv_def)

text \<open>
  The fetch_add of \<open>release()\<close>: the reference is given back, and the thread that sees the
  count reach zero owes the flag. It can reach zero only on a retired version.
\<close>

lemma inner_fetch_add_inv:
  assumes inv: "ss_inv N ss h p wm" and x: "x < version_count ss"
    and s: "snapshot_ptr_vector ss ! x = Some s" and h: "0 < h x"
    and add: "inner_fetch_add s 1 = (s', old)"
  shows "ss_inv N (put_slot ss x s') (h(x := h x - 1)) (if old + 1 = 0 then p(x := p x + 1) else p) wm"
proof -
  have old: "old = inner_cnt s" and s': "s' = s\<lparr>inner_cnt := inner_cnt s + 1\<rparr>"
    using add by (auto simp: inner_fetch_add_def)
  have zero: "old + 1 = 0 \<longleftrightarrow> sint (inner_cnt s + 1) = 0"
    using signed_word_eqI [of "inner_cnt s + 1" 0] by (auto simp: old)
  have lo: "- (2 ^ 31) \<le> sint (inner_cnt s)" using sint_ge [of "inner_cnt s"] by simp
  note slot = slot_SomeD [OF ss_inv_slot [OF inv x] s]
  show ?thesis
  proof (cases "pending_refs ss wm x")
    case None
    with slot have r: "retired (h x) (p x) s" by simp
    then have "sint (inner_cnt s + 1) = - int (h x - 1)"
      using h lo by (subst sint32_add) (auto simp: retired_def)
    then show ?thesis using r h zero None
      by (intro ss_inv_put [OF inv x]) (auto simp: s s' retired_def)
  next
    case (Some c)
    with slot have u: "counts_up c (h x) (p x) s" by simp
    have "c < 2 ^ 31" using inv Some by (rule pending_refs_le)
    then have "sint (inner_cnt s + 1) = int c - int (h x) + 1"
      using u h by (subst sint32_add) (auto simp: counts_up_def)
    then show ?thesis using u h zero Some
      by (intro ss_inv_put [OF inv x]) (auto simp: s s' counts_up_def)
  qed
qed

text \<open>The store of the flag the thread owed.\<close>

lemma set_recycle_flag_inv:
  assumes inv: "ss_inv N ss h p wm" and x: "x < version_count ss"
    and s: "snapshot_ptr_vector ss ! x = Some s" and p: "0 < p x"
  shows "ss_inv N (put_slot ss x (set_recycle_flag s)) h (p(x := p x - 1)) wm"
proof -
  note slot = slot_SomeD [OF ss_inv_slot [OF inv x] s]
  then have "pending_refs ss wm x = None" using p by (auto simp: counts_up_def split: option.splits)
  with slot p show ?thesis
    by (intro ss_inv_put [OF inv x]) (auto simp: s retired_def set_recycle_flag_def)
qed

text \<open>Storing a new version into a free slot; the first one goes to slot 0.\<close>

lemma ss_install_inv:
  assumes inv: "ss_inv N ss h p Quiet" and i: "i < version_count ss"
    and free: "slot_free (snapshot_ptr_vector ss ! i)"
    and first: "snapshot_ptr_vector ss ! cur ss = None \<Longrightarrow> i = 0"
  shows "ss_inv N (ss_install ss i snap) h p (Installed i)"
    and "\<exists>s. snapshot_ptr_vector (ss_install ss i snap) ! i = Some s
           \<and> registers s = registers snap"
proof -
  define s where "s = (case snapshot_ptr_vector ss ! i of None \<Rightarrow> Snapshot_copy snap
    | Some s \<Rightarrow> Snapshot_assign s snap)"
  have put: "ss_install ss i snap = put_slot ss i s" by (simp add: ss_install_def s_def)
  have s: "inner_cnt s = 0" "registers s = registers snap" "\<not> recycle_flag s"
    by (auto simp: s_def Snapshot_copy_def Snapshot_assign_def split: option.splits)
  have len: "length (snapshot_ptr_vector ss) = version_count ss" using inv by (simp add: ss_inv_def)
  have hi: "h i = 0 \<and> p i = 0 \<and> (i = cur ss \<longrightarrow> refs ss = 0)"
    using ss_inv_slot [OF inv i] free inv
    by (auto simp: slot_ok_def slot_free_def get_recycle_flag_def counts_up_def retired_def
        pending_refs_def ss_inv_def wm_ok_def split: option.splits if_splits)
  have "slot_ok (put_slot ss i s) h p (Installed i) y" if "y < version_count ss" for y
    using ss_inv_slot [OF inv that] hi i len s
    by (cases "y = i") (auto simp: slot_ok_def pending_refs_def counts_up_def split: option.splits)
  moreover have "wm_ok (put_slot ss i s) N (Installed i)"
    using hi i len first inv
    by (cases "snapshot_ptr_vector ss ! cur ss") (auto simp: wm_ok_def nth_list_update ss_inv_def)
  ultimately show "ss_inv N (ss_install ss i snap) h p (Installed i)"
    using inv by (simp add: ss_inv_def put)
  show "\<exists>s. snapshot_ptr_vector (ss_install ss i snap) ! i = Some s \<and> registers s = registers snap"
    using s i len by (simp add: put)
qed

text \<open>
  Publishing the stored version with one exchange of the control block: from here on no
  new reference to the old version can appear, and its references are to be subtracted.
\<close>

lemma ss_swap_inv:
  assumes inv: "ss_inv N ss h p (Installed i)" and sw: "ss_swap ss i = (ss', old)"
  shows "ss_inv N ss' h p (if cur ss = i then Quiet else Unreset (cur ss) (refs ss))"
    and "cur ss' = i" and "refs ss' = 0"
    and "snapshot_ptr_vector ss' = snapshot_ptr_vector ss" and "version_count ss' = version_count ss"
proof -
  have i: "i < version_count ss" "version_count ss < 2 ^ 32" "cur ss < version_count ss"
    using inv by (simp_all add: ss_inv_def wm_ok_def)
  have ss': "ss' = ss\<lparr>outer_cnt_with_index := word_of_nat i\<rparr>" using sw by (simp add: ss_swap_def)
  show c: "cur ss' = i" and r: "refs ss' = 0"
    and v: "snapshot_ptr_vector ss' = snapshot_ptr_vector ss" "version_count ss' = version_count ss"
    using i by (simp_all add: ss' cur_def refs_def word_halves)
  let ?wm = "if cur ss = i then Quiet else Unreset (cur ss) (refs ss)"
  have pend: "pending_refs ss' ?wm x = pending_refs ss (Installed i) x" for x
    using inv by (auto simp: pending_refs_def c r ss_inv_def wm_ok_def)
  have "slot_ok ss' h p ?wm x" if "x < version_count ss" for x
    using ss_inv_slot [OF inv that] by (simp only: slot_ok_def pend v)
  moreover have "wm_ok ss' N ?wm" using inv by (auto simp: wm_ok_def c r v ss_inv_def)
  ultimately show "ss_inv N ss' h p ?wm" using inv i by (simp add: ss_inv_def c r v)
qed

text \<open>
  The fetch_sub of \<open>reset()\<close>: the replaced version becomes retired, and the writer owes
  the flag if nobody holds it.
\<close>

lemma inner_fetch_sub_inv:
  assumes inv: "ss_inv N ss h p (Unreset x c)"
    and s: "snapshot_ptr_vector ss ! x = Some s"
    and sub: "inner_fetch_sub s (word_of_nat c) = (s', old)"
  shows "ss_inv N (put_slot ss x s') h (if old - word_of_nat c = 0 then p(x := p x + 1) else p) Quiet"
proof -
  have x: "x < version_count ss" "x \<noteq> cur ss" "snapshot_ptr_vector ss ! cur ss \<noteq> None" "c < 2 ^ 31"
    using inv by (auto simp: ss_inv_def wm_ok_def)
  have s': "s' = s\<lparr>inner_cnt := inner_cnt s - word_of_nat c\<rparr>" and old: "old = inner_cnt s"
    using sub by (auto simp: inner_fetch_sub_def)
  have u: "counts_up c (h x) (p x) s"
    using slot_SomeD [OF ss_inv_slot [OF inv x(1)] s] x by (simp add: pending_refs_def)
  then have d: "sint (inner_cnt s - word_of_nat c) = - int (h x)"
    using x by (subst sint32_sub) (auto simp: counts_up_def sint32_of_nat)
  then have "old - word_of_nat c = 0 \<longleftrightarrow> h x = 0"
    using signed_word_eqI [of "inner_cnt s - word_of_nat c" 0] by (auto simp: old)
  then show ?thesis using d u x inv
    by (intro ss_inv_put_mode [OF inv x(1)])
       (auto simp: s s' pending_refs_def retired_def counts_up_def wm_ok_def)
qed

text \<open>The fetch_add of \<open>acquire()\<close>: one more reference to the version that is current now.\<close>

lemma outer_fetch_add_inv:
  assumes inv: "ss_inv N ss h p wm" and add: "outer_fetch_add ss = (ss', old)"
    and room: "refs ss < N" and pub: "published ss wm"
  shows "ss_inv N ss' (h(cur ss := h (cur ss) + 1)) p wm"
    and "cur ss' = cur ss" and "refs ss' = refs ss + 1"
    and "snapshot_ptr_vector ss' = snapshot_ptr_vector ss" and "version_count ss' = version_count ss"
    and "unat (INDEX_MASK old) = cur ss"
proof -
  have b: "hi_half (outer_cnt_with_index ss) < 2 ^ 32 - 1"
    using inv room by (simp add: ss_inv_def refs_def)
  have ss': "ss' = ss\<lparr>outer_cnt_with_index := outer_cnt_with_index ss + 0x100000000\<rparr>"
    and old: "old = outer_cnt_with_index ss"
    using add by (auto simp: outer_fetch_add_def REFERENCE_CNT_INC_def)
  show c: "cur ss' = cur ss" and r: "refs ss' = refs ss + 1"
    and v: "snapshot_ptr_vector ss' = snapshot_ptr_vector ss" "version_count ss' = version_count ss"
    and "unat (INDEX_MASK old) = cur ss"
    by (simp_all add: ss' old) (simp_all add: cur_def refs_def hi_half_add_high [OF b])
  have "slot_ok ss' (h(cur ss := h (cur ss) + 1)) p wm x" if "x < version_count ss" for x
  proof (cases "x = cur ss")
    case True
    then show ?thesis using ss_inv_slot [OF inv that] pub
      by (auto simp: published_def slot_ok_def pending_refs_def c r v counts_up_def)
  next
    case False
    then have "slot_ok ss' (h(cur ss := h (cur ss) + 1)) p wm x = slot_ok ss h p wm x"
      by (intro slot_ok_cong) (simp_all add: v pending_refs_def c)
    then show ?thesis using ss_inv_slot [OF inv that] by simp
  qed
  moreover have "wm_ok ss' N wm"
    using inv pub room by (auto simp: published_def wm_ok_def c r v ss_inv_def split: wmode.splits)
  ultimately show "ss_inv N ss' (h(cur ss := h (cur ss) + 1)) p wm"
    using inv room by (simp add: ss_inv_def c r v)
qed

section \<open>There is always a free version\<close>

lemma unfree_slot_counted:
  assumes inv: "ss_inv N ss h p Quiet" and x: "x < version_count ss" "x \<noteq> cur ss"
    and unfree: "\<not> slot_free (snapshot_ptr_vector ss ! x)"
  shows "1 \<le> h x + p x"
proof -
  obtain s where s: "snapshot_ptr_vector ss ! x = Some s" "\<not> recycle_flag s"
    using unfree by (auto simp: slot_free_def get_recycle_flag_def split: option.splits)
  then show ?thesis using slot_SomeD [OF ss_inv_slot [OF inv x(1)] s(1)] x(2)
    by (auto simp: pending_refs_def retired_def)
qed

text \<open>
  More versions than references (and flags still to be set) leave one free: the pigeonhole
  argument behind \<open>assert(i != version_count)\<close>.
\<close>

lemma free_slot_exists:
  assumes inv: "ss_inv N ss h p Quiet"
    and few: "(\<Sum>x < version_count ss. h x + p x) + 1 < version_count ss"
  shows "\<exists>x < version_count ss. slot_free (snapshot_ptr_vector ss ! x)"
proof (rule ccontr)
  assume none: "\<not> ?thesis"
  let ?A = "{..< version_count ss} - {cur ss}"
  have "cur ss < version_count ss" using inv by (simp add: ss_inv_def)
  then have "version_count ss - 1 = (\<Sum>x \<in> ?A. 1)" by simp
  also have "\<dots> \<le> (\<Sum>x \<in> ?A. h x + p x)"
    using none unfree_slot_counted [OF inv] by (intro sum_mono) auto
  also have "\<dots> \<le> (\<Sum>x < version_count ss. h x + p x)" by (intro sum_mono2) auto
  finally show False using few by simp
qed

lemma free_slot_unreferenced:
  assumes inv: "ss_inv N ss h p Quiet" and x: "x < version_count ss"
    and free: "slot_free (snapshot_ptr_vector ss ! x)"
  shows "h x = 0 \<and> p x = 0"
  using ss_inv_slot [OF inv x] free
  by (auto simp: slot_ok_def slot_free_def get_recycle_flag_def counts_up_def retired_def
      split: option.splits)

lemma find_index_first:
  assumes inv: "ss_inv N ss h p Quiet" and none: "snapshot_ptr_vector ss ! cur ss = None"
    and "k < version_count ss"
  shows "find_index (snapshot_ptr_vector ss) (version_count ss) 0 = 0"
proof -
  have "cur ss = 0" using inv none by (simp add: ss_inv_def wm_ok_def)
  then have "slot_free (snapshot_ptr_vector ss ! 0)" using none by (simp add: slot_free_def)
  then show ?thesis using assms(3) by (simp add: find_index.simps [of _ _ 0])
qed

lemma slot_view_put:
  "snapshot_ptr_vector ss ! x = Some s \<Longrightarrow> registers s' = registers s
    \<Longrightarrow> slot_view (put_slot ss x s') y = slot_view ss y"
  by (cases "x < length (snapshot_ptr_vector ss)")
     (auto simp: slot_view_def nth_list_update list_update_beyond)

lemma reset_split:
  assumes "inner_fetch_sub s k = (s', old)"
  shows "reset s k = (if old - k = 0 then set_recycle_flag s' else s')"
  using assms by (simp add: reset_def)

lemma release_split:
  assumes "inner_fetch_add s 1 = (s', old)"
  shows "release s = (if old + 1 = 0 then set_recycle_flag s' else s')"
  using assms by (simp add: release_def)

lemma put_slot_twice [simp]: "put_slot (put_slot ss x s) x s' = put_slot ss x s'"
  by (simp add: put_slot_def)

text \<open>\<open>reset()\<close> and \<open>release()\<close> run to their end leave no flag owed.\<close>

lemma reset_inv:
  assumes inv: "ss_inv N ss h (\<lambda>_. 0) (Unreset x c)" and s: "snapshot_ptr_vector ss ! x = Some s"
  shows "ss_inv N (put_slot ss x (reset s (word_of_nat c))) h (\<lambda>_. 0) Quiet"
proof -
  obtain s' old where sub: "inner_fetch_sub s (word_of_nat c) = (s', old)" by fastforce
  have x: "x < version_count ss" "length (snapshot_ptr_vector ss) = version_count ss"
    using inv by (simp_all add: ss_inv_def wm_ok_def)
  note i = inner_fetch_sub_inv [OF inv s sub]
  show ?thesis
  proof (cases "old - word_of_nat c = 0")
    case True
    with i have "ss_inv N (put_slot ss x s') h ((\<lambda>_. 0)(x := 1)) Quiet" by simp
    from set_recycle_flag_inv [OF this, of x s'] show ?thesis
      using x True by (simp add: reset_split [OF sub] fun_upd_idem)
  next
    case False
    with i show ?thesis by (simp add: reset_split [OF sub])
  qed
qed

lemma release_inv:
  assumes inv: "ss_inv N ss h (\<lambda>_. 0) wm" and x: "x < version_count ss" and h: "0 < h x"
    and s: "snapshot_ptr_vector ss ! x = Some s"
  shows "ss_inv N (put_slot ss x (release s)) (h(x := h x - 1)) (\<lambda>_. 0) wm"
proof -
  obtain s' old where add: "inner_fetch_add s 1 = (s', old)" by fastforce
  have l: "length (snapshot_ptr_vector ss) = version_count ss" using inv by (simp add: ss_inv_def)
  note i = inner_fetch_add_inv [OF inv x s h add]
  show ?thesis
  proof (cases "old + 1 = 0")
    case True
    with i have "ss_inv N (put_slot ss x s') (h(x := h x - 1)) ((\<lambda>_. 0)(x := 1)) wm" by simp
    from set_recycle_flag_inv [OF this, of x s'] show ?thesis
      using x l True by (simp add: release_split [OF add] fun_upd_idem)
  next
    case False
    with i show ?thesis by (simp add: release_split [OF add])
  qed
qed

lemma registers_reset [simp]: "registers (reset s k) = registers s"
  by (simp add: reset_def inner_fetch_sub_def set_recycle_flag_def)

lemma registers_release [simp]: "registers (release s) = registers s"
  by (simp add: release_def inner_fetch_add_def set_recycle_flag_def Let_def)

lemma slot_view_install:
  assumes "i < length (snapshot_ptr_vector ss)"
  shows "slot_view (ss_install ss i snap) x = (if x = i then Some (registers snap) else slot_view ss x)"
  using assms
  by (auto simp: ss_install_def slot_view_def nth_list_update Snapshot_copy_def Snapshot_assign_def
      split: option.splits)

section \<open>Properties\<close>

text \<open>
  C35: \<open>exchange()\<close>, run alone. While the number of references out, plus one, is smaller than
  the number of versions, it finds a free version (so its assertions hold and no null pointer is followed), publishes the
  new registers as the current version with a reference count of zero, keeps the meaning of
  all counters, and leaves every version that is still referenced as it was.
\<close>

theorem exchange_contract:
  assumes inv: "ss_inv N ss h (\<lambda>_. 0) Quiet"
    and few: "(\<Sum>x < version_count ss. h x) + 1 < version_count ss"
  shows "\<exists>ss'. exchange ss snap = Inr ss' \<and> ss_inv N ss' h (\<lambda>_. 0) Quiet
    \<and> slot_view ss' (cur ss') = Some (registers snap) \<and> refs ss' = 0
    \<and> (\<forall>x < version_count ss. 0 < h x \<longrightarrow> x \<noteq> cur ss' \<and> slot_view ss' x = slot_view ss x)"
proof -
  define i where "i = find_index (snapshot_ptr_vector ss) (version_count ss) 0"
  obtain k where k: "k < version_count ss" "slot_free (snapshot_ptr_vector ss ! k)"
    using free_slot_exists [OF inv] few by auto
  have i: "i < version_count ss" "slot_free (snapshot_ptr_vector ss ! i)"
    using find_index_spec [of 0 "version_count ss" "snapshot_ptr_vector ss"] k
    unfolding i_def by (metis le0 le_neq_implies_less)+
  have len: "length (snapshot_ptr_vector ss) = version_count ss" and vc: "version_count ss < 2 ^ 32"
    and N: "refs ss \<le> N" "N < 2 ^ 31" using inv by (simp_all add: ss_inv_def)
  have "i = 0" if "snapshot_ptr_vector ss ! cur ss = None"
    unfolding i_def using inv that k(1) by (rule find_index_first)
  from ss_install_inv(1) [OF inv i this] have
    inst: "ss_inv N (ss_install ss i snap) h (\<lambda>_. 0) (Installed i)" by blast
  obtain ss' old where sw: "ss_swap (ss_install ss i snap) i = (ss', old)" by fastforce
  note swap = ss_swap_inv [OF inst sw]
  have outer: "old = outer_cnt_with_index ss" "cur (ss_install ss i snap) = cur ss"
    "refs (ss_install ss i snap) = refs ss"
    using sw by (auto simp: ss_swap_def ss_install_def)
  have cnt: "EXTRACT_REFERENCE_CNT old = word_of_nat (refs ss)" using N outer(1) extract_refs by simp
  then have nonneg: "0 \<le>s EXTRACT_REFERENCE_CNT old"
    using N by (simp add: word_sle_eq sint32_of_nat)
  have unref: "h i = 0" using free_slot_unreferenced [OF inv i] by simp
  have view: "slot_view ss' x = (if x = i then Some (registers snap) else slot_view ss x)" for x
    using slot_view_install [of i ss snap x] i len by (simp add: slot_view_def swap(4))
  show ?thesis
  proof (cases "cur ss = i")
    case True
    then have "exchange ss snap = Inr ss'"
      using i nonneg sw vc index_mask_neq_iff [of i ss] outer
      by (simp add: exchange_def Let_def i_def [symmetric])
    then show ?thesis using swap(1-3) True outer view unref by auto
  next
    case False
    then have un: "ss_inv N ss' h (\<lambda>_. 0) (Unreset (cur ss) (refs ss))" using swap(1) outer by simp
    then obtain s where s: "snapshot_ptr_vector ss' ! cur ss = Some s" "cur ss < version_count ss'"
      by (auto simp: ss_inv_def wm_ok_def)
    then have "exchange ss snap
        = Inr (put_slot ss' (cur ss) (reset s (EXTRACT_REFERENCE_CNT old)))"
      using i nonneg sw vc index_mask_neq_iff [of i ss] outer False un
      by (simp add: exchange_def Let_def i_def [symmetric] get_slot_def ss_inv_def)
    moreover have "ss_inv N (put_slot ss' (cur ss) (reset s (EXTRACT_REFERENCE_CNT old))) h (\<lambda>_. 0) Quiet"
      unfolding cnt using un s(1) by (rule reset_inv)
    ultimately show ?thesis
      using swap(2,3) view unref slot_view_put [OF s(1)] by auto
  qed
qed

text \<open>
  C36: \<open>acquire()\<close> and \<open>release()\<close>, run alone. Once a version was published, \<open>acquire()\<close>
  follows no null pointer and returns the current version, whose count goes up by one;
  \<open>release()\<close> of a version that is held takes it back. Neither changes what any version
  holds.
\<close>

theorem acquire_release_contract:
  assumes inv: "ss_inv N ss h (\<lambda>_. 0) Quiet" and pub: "slot_view ss (cur ss) \<noteq> None"
  shows "(refs ss < N \<longrightarrow> (\<exists>ss'. acquire ss = Inr (ss', cur ss)
            \<and> ss_inv N ss' (h(cur ss := h (cur ss) + 1)) (\<lambda>_. 0) Quiet
            \<and> (\<forall>y. slot_view ss' y = slot_view ss y)))
    \<and> (\<forall>x < version_count ss. 0 < h x \<longrightarrow> (\<exists>ss'. release_slot ss x = Inr ss'
            \<and> ss_inv N ss' (h(x := h x - 1)) (\<lambda>_. 0) Quiet
            \<and> (\<forall>y. slot_view ss' y = slot_view ss y)))"
proof (intro conjI impI allI)
  assume room: "refs ss < N"
  have "published ss Quiet" using pub by (simp add: published_def slot_view_def)
  moreover obtain ss' old where add: "outer_fetch_add ss = (ss', old)" by fastforce
  ultimately have acq: "ss_inv N ss' (h(cur ss := h (cur ss) + 1)) (\<lambda>_. 0) Quiet"
    "snapshot_ptr_vector ss' = snapshot_ptr_vector ss" "unat (INDEX_MASK old) = cur ss"
    using outer_fetch_add_inv [OF inv add room] by blast+
  have "cur ss < length (snapshot_ptr_vector ss)" using inv by (simp add: ss_inv_def)
  then have "acquire ss = Inr (ss', cur ss)" using pub acq add
    by (auto simp: acquire_def get_slot_def slot_view_def)
  then show "\<exists>ss'. acquire ss = Inr (ss', cur ss)
            \<and> ss_inv N ss' (h(cur ss := h (cur ss) + 1)) (\<lambda>_. 0) Quiet
            \<and> (\<forall>y. slot_view ss' y = slot_view ss y)"
    using acq by (auto simp: slot_view_def)
next
  fix x assume x: "x < version_count ss" and h: "0 < h x"
  then obtain s where s: "snapshot_ptr_vector ss ! x = Some s"
    using ss_inv_slot [OF inv x] by (auto simp: slot_ok_def split: option.splits)
  have "length (snapshot_ptr_vector ss) = version_count ss" using inv by (simp add: ss_inv_def)
  then have "release_slot ss x = Inr (put_slot ss x (release s))"
    using s x by (simp add: release_slot_def get_slot_def)
  then show "\<exists>ss'. release_slot ss x = Inr ss' \<and> ss_inv N ss' (h(x := h x - 1)) (\<lambda>_. 0) Quiet
            \<and> (\<forall>y. slot_view ss' y = slot_view ss y)"
    using release_inv [OF inv x h s] slot_view_put [OF s] by auto
qed

lemma ss_inv_new:
  "0 < n \<Longrightarrow> n < 2 ^ 32 \<Longrightarrow> N < 2 ^ 31 \<Longrightarrow> ss_inv N (shared_snapshot_new n) (\<lambda>_. 0) (\<lambda>_. 0) Quiet"
  by (auto simp: ss_inv_def shared_snapshot_new_def cur_def refs_def hi_half_def lo_half_def
      wm_ok_def slot_ok_def)

theorem exchange_contract_witness:
  "\<exists>ss'. exchange (shared_snapshot_new 3) (Snapshot_sized 2) = Inr ss'
    \<and> slot_view ss' (cur ss') = Some [reg_default, reg_default]"
proof -
  have "ss_inv 2 (shared_snapshot_new 3) (\<lambda>_. 0) (\<lambda>_. 0) Quiet" by (rule ss_inv_new) simp_all
  from exchange_contract [OF this, of "Snapshot_sized 2"] show ?thesis
    by (auto simp: shared_snapshot_new_def Snapshot_sized_def numeral_2_eq_2)
qed

theorem acquire_release_contract_witness:
  "\<exists>ss'. acquire \<lparr>outer_cnt_with_index = 0,
      snapshot_ptr_vector = [Some (Snapshot_of [reg_default]), None], version_count = 2\<rparr> = Inr (ss', 0)
    \<and> slot_view ss' 0 = Some [reg_default]"
proof -
  define ss where "ss = \<lparr>outer_cnt_with_index = 0,
      snapshot_ptr_vector = [Some (Snapshot_of [reg_default]), None], version_count = 2\<rparr>"
  have c: "cur ss = 0" "refs ss = 0" "slot_view ss 0 = Some [reg_default]"
    by (simp_all add: ss_def cur_def refs_def lo_half_def hi_half_def slot_view_def Snapshot_of_def)
  have "ss_inv 1 ss (\<lambda>_. 0) (\<lambda>_. 0) Quiet"
    by (auto simp: ss_def ss_inv_def cur_def refs_def lo_half_def hi_half_def wm_ok_def slot_ok_def
        pending_refs_def counts_up_def Snapshot_of_def dest!: less_2_cases)
  from acquire_release_contract [OF this] have
    "\<exists>ss'. acquire ss = Inr (ss', 0) \<and> slot_view ss' 0 = Some [reg_default]" by (auto simp: c)
  then show ?thesis by (simp only: ss_def)
qed

end
