(* ===== verification/ScanMachine.thy ===== *)
theory ScanMachine
  imports SharedSnapshot
begin

text \<open>
  \<open>WaitfreeAtomicSnapshot\<close> of \<^verbatim>\<open>project2/src/WaitfreeAtomicSnapshot.cpp\<close> as an interleaved
  machine. A thread is its index; a step of a thread is one access to shared memory: a read
  of a register, a fetch_add, an exchange, the store of a flag, the store of a version, the
  write of its register. The locals of \<open>scan()\<close>, \<open>exchange()\<close> and \<open>update()\<close> that survive
  a step are the arguments of the program counter. The last four fields of the state are
  history: no step reads them.
\<close>

section \<open>State\<close>

datatype call = Scan_call | Update_call i32

type_synonym view = "atomic_register list"

datatype pc =
    Idle
  | Copying call view                             \<comment> \<open>copy of the vector into \<open>first_snapshot\<close>\<close>
  | Collecting call "nat list" view view bool     \<comment> \<open>change counts, first, second so far, \<open>same_flag\<close>\<close>
  | Acquiring call nat                            \<comment> \<open>writer whose version is to be taken\<close>
  | Borrowing call nat nat view                   \<comment> \<open>writer, version, registers copied so far\<close>
  | Releasing call nat nat view
  | Flagging call nat nat view                    \<comment> \<open>\<open>recycle_flag = true\<close> of \<open>release()\<close>\<close>
  | Scanned call view                             \<comment> \<open>\<open>scan()\<close> returned\<close>
  | Searching i32 view nat                        \<comment> \<open>search loop of \<open>exchange()\<close>\<close>
  | Storing i32 view nat
  | Swapping i32 nat
  | Resetting i32 nat i32                         \<comment> \<open>\<open>old_index\<close>, \<open>old_ref_cnt\<close>\<close>
  | Reflagging i32 nat                            \<comment> \<open>\<open>recycle_flag = true\<close> of \<open>reset()\<close>\<close>
  | Writing i32

record sys =
  thread_count :: nat
  atomic_register_vector :: view
  shared_snapshot_vector :: "shared_snapshot list"
  pcs :: "pc list"
  hist :: "view list"          \<comment> \<open>history: every value the register vector has had\<close>
  started :: "nat list"        \<comment> \<open>history: the time at which a thread's call began\<close>
  mid :: "nat list"            \<comment> \<open>history: the time between a thread's two collects\<close>
  takers :: "nat set list"     \<comment> \<open>history: threads that acquired a writer's current version\<close>

definition now :: "sys \<Rightarrow> nat" where
  "now s = length (hist s) - 1"

text \<open>The constructor: \<open>thread_count\<close> registers, each writer with \<open>thread_count + 1\<close> versions.\<close>

definition WaitfreeAtomicSnapshot_new :: "nat \<Rightarrow> sys" where
  "WaitfreeAtomicSnapshot_new n =
     \<lparr>thread_count = n,
      atomic_register_vector = replicate n reg_default,
      shared_snapshot_vector = replicate n (shared_snapshot_new (n + 1)),
      pcs = replicate n Idle,
      hist = [replicate n reg_default], started = replicate n 0, mid = replicate n 0,
      takers = replicate n {}\<rparr>"

section \<open>The steps of scan()\<close>

text \<open>The constructor copy of the register vector, one register at a time.\<close>

definition copy_step :: "sys \<Rightarrow> call \<Rightarrow> view \<Rightarrow> pc" where
  "copy_step s c first =
     (let first' = first @ [atomic_register_vector s ! length first] in
      if length first' < thread_count s then Copying c first'
      else Collecting c (replicate (thread_count s) 0) first' [] True)"

text \<open>
  One turn of the inner loop: read register \<open>i\<close>, compare, count a change; a second change
  borrows that writer's snapshot. After the last register the snapshot is returned if all
  were the same, and otherwise the next round compares against what was just read.
\<close>

definition collect_step :: "sys \<Rightarrow> call \<Rightarrow> nat list \<Rightarrow> view \<Rightarrow> view \<Rightarrow> bool \<Rightarrow> pc" where
  "collect_step s c cc first second same =
     (let i = length second;
          second' = second @ [atomic_register_vector s ! i];
          changed = reg_neq (first ! i) (second' ! i);
          cc' = (if changed then cc[i := cc ! i + 1] else cc);
          same' = (same \<and> \<not> changed)
      in if changed \<and> cc' ! i = 2 then Acquiring c i
         else if length second' < thread_count s then Collecting c cc' first second' same'
         else if same' then Scanned c first
         else Collecting c cc' second' [] True)"

text \<open>Whether the step ends a collect, so that the history notes the time.\<close>

definition ends_collect :: "pc \<Rightarrow> bool" where
  "ends_collect q = (case q of Collecting c cc first second same \<Rightarrow> second = [] | _ \<Rightarrow> False)"

definition goto :: "nat \<Rightarrow> pc \<Rightarrow> sys \<Rightarrow> sys" where
  "goto t q s = s\<lparr>pcs := (pcs s)[t := q],
     mid := (if ends_collect q then (mid s)[t := now s] else mid s)\<rparr>"

definition set_shared :: "nat \<Rightarrow> shared_snapshot \<Rightarrow> sys \<Rightarrow> sys" where
  "set_shared i ss s = s\<lparr>shared_snapshot_vector := (shared_snapshot_vector s)[i := ss]\<rparr>"

text \<open>\<open>acquire()\<close> of the writer that changed twice.\<close>

definition acquire_step :: "nat \<Rightarrow> call \<Rightarrow> nat \<Rightarrow> sys \<Rightarrow> sys res" where
  "acquire_step t c i s =
     (case acquire (shared_snapshot_vector s ! i) of
        Inl e \<Rightarrow> Inl e
      | Inr (ss, index) \<Rightarrow>
          Inr (goto t (Borrowing c i index []) (set_shared i ss s)
            \<lparr>takers := (takers s)[i := insert t (takers s ! i)]\<rparr>))"

text \<open>The copy \<open>first_snapshot = writer_snapshot\<close>, one register at a time.\<close>

definition borrow_step :: "nat \<Rightarrow> call \<Rightarrow> nat \<Rightarrow> nat \<Rightarrow> view \<Rightarrow> sys \<Rightarrow> sys res" where
  "borrow_step t c i x acc s =
     (case get_slot (shared_snapshot_vector s ! i) x of
        Inl e \<Rightarrow> Inl e
      | Inr sn \<Rightarrow>
          if length acc < length (registers sn)
          then Inr (goto t (Borrowing c i x (acc @ [registers sn ! length acc])) s)
          else Inr (goto t (Releasing c i x acc) s))"

definition release_step :: "nat \<Rightarrow> call \<Rightarrow> nat \<Rightarrow> nat \<Rightarrow> view \<Rightarrow> sys \<Rightarrow> sys res" where
  "release_step t c i x v s =
     (case get_slot (shared_snapshot_vector s ! i) x of
        Inl e \<Rightarrow> Inl e
      | Inr sn \<Rightarrow>
          (let (sn', old) = inner_fetch_add sn 1;
               s' = set_shared i (put_slot (shared_snapshot_vector s ! i) x sn') s
           in Inr (goto t (if old + 1 = 0 then Flagging c i x v else Scanned c v) s')))"

text \<open>The store \<open>recycle_flag = true\<close>, of a reader's \<open>release()\<close> or the writer's \<open>reset()\<close>.\<close>

definition flag_step :: "nat \<Rightarrow> nat \<Rightarrow> nat \<Rightarrow> pc \<Rightarrow> sys \<Rightarrow> sys res" where
  "flag_step t i x q s =
     (case get_slot (shared_snapshot_vector s ! i) x of
        Inl e \<Rightarrow> Inl e
      | Inr sn \<Rightarrow>
          Inr (goto t q (set_shared i (put_slot (shared_snapshot_vector s ! i) x (set_recycle_flag sn)) s)))"

section \<open>The steps of exchange() and update()\<close>

text \<open>After \<open>scan()\<close>: a bare scan is over, an update goes on with \<open>exchange()\<close>.\<close>

definition after_scan :: "call \<Rightarrow> view \<Rightarrow> pc" where
  "after_scan c v = (case c of Scan_call \<Rightarrow> Idle | Update_call w \<Rightarrow> Searching w v 0)"

definition search_step :: "nat \<Rightarrow> i32 \<Rightarrow> view \<Rightarrow> nat \<Rightarrow> sys \<Rightarrow> sys res" where
  "search_step t w v i s =
     (let ss = shared_snapshot_vector s ! t in
      if i < version_count ss
      then (if slot_free (snapshot_ptr_vector ss ! i) then Inr (goto t (Storing w v i) s)
            else Inr (goto t (Searching w v (i + 1)) s))
      else Inl Assert_failed)"

definition store_step :: "nat \<Rightarrow> i32 \<Rightarrow> view \<Rightarrow> nat \<Rightarrow> sys \<Rightarrow> sys" where
  "store_step t w v i s =
     goto t (Swapping w i)
       (set_shared t (ss_install (shared_snapshot_vector s ! t) i (Snapshot_of v)) s)"

definition swap_step :: "nat \<Rightarrow> i32 \<Rightarrow> nat \<Rightarrow> sys \<Rightarrow> sys res" where
  "swap_step t w i s =
     (let (ss, old) = ss_swap (shared_snapshot_vector s ! t) i;
          old_ref_cnt = EXTRACT_REFERENCE_CNT old;
          old_index = INDEX_MASK old;
          s' = set_shared t ss s\<lparr>takers := (takers s)[t := {}]\<rparr>
      in if \<not> 0 \<le>s old_ref_cnt then Inl Assert_failed
         else if old_index \<noteq> word_of_nat i
         then Inr (goto t (Resetting w (unat old_index) old_ref_cnt) s')
         else Inr (goto t (Writing w) s'))"

definition reset_step :: "nat \<Rightarrow> i32 \<Rightarrow> nat \<Rightarrow> i32 \<Rightarrow> sys \<Rightarrow> sys res" where
  "reset_step t w x k s =
     (case get_slot (shared_snapshot_vector s ! t) x of
        Inl e \<Rightarrow> Inl e
      | Inr sn \<Rightarrow>
          (let (sn', old) = inner_fetch_sub sn k;
               s' = set_shared t (put_slot (shared_snapshot_vector s ! t) x sn') s
           in Inr (goto t (if old - k = 0 then Reflagging w x else Writing w) s')))"

text \<open>The write of the thread's own register ends the update.\<close>

definition write_step :: "nat \<Rightarrow> i32 \<Rightarrow> sys \<Rightarrow> sys res" where
  "write_step t w s =
     (case reg_write (atomic_register_vector s ! t) w of
        Inl e \<Rightarrow> Inl e
      | Inr r \<Rightarrow>
          (let rs = (atomic_register_vector s)[t := r]
           in Inr (goto t Idle (s\<lparr>atomic_register_vector := rs, hist := hist s @ [rs]\<rparr>))))"

section \<open>The machine\<close>

text \<open>
  The vectors that the next access of thread \<open>t\<close> indexes have the element it uses: the
  registers and the locals of \<open>scan()\<close>, the writers' versions and the pointers to them. An
  access that leaves a vector, which \<open>operator[]\<close> of a \<open>vector\<close> does not notice, is the error
  \<open>Out_of_range\<close> of the machine.
\<close>

definition access_in_range :: "nat \<Rightarrow> sys \<Rightarrow> bool" where
  "access_in_range t s \<longleftrightarrow>
     (let regs = length (atomic_register_vector s); writers = length (shared_snapshot_vector s) in
      case pcs s ! t of
        Copying c first \<Rightarrow> length first < regs
      | Collecting c cc first second same \<Rightarrow>
          length second < regs \<and> length second < length first \<and> length second < length cc
      | Acquiring c i \<Rightarrow> i < writers
      | Borrowing c i x acc \<Rightarrow> i < writers
      | Releasing c i x v \<Rightarrow> i < writers
      | Flagging c i x v \<Rightarrow> i < writers
      | Searching w v i \<Rightarrow> t < writers
          \<and> (i < version_count (shared_snapshot_vector s ! t) \<longrightarrow>
               i < length (snapshot_ptr_vector (shared_snapshot_vector s ! t)))
      | Storing w v i \<Rightarrow> t < writers \<and> i < length (snapshot_ptr_vector (shared_snapshot_vector s ! t))
      | Swapping w i \<Rightarrow> t < writers
      | Resetting w x k \<Rightarrow> t < writers
      | Reflagging w x \<Rightarrow> t < writers
      | Writing w \<Rightarrow> t < regs
      | _ \<Rightarrow> True)"

text \<open>The next access of thread \<open>t\<close>.\<close>

definition thread_access :: "nat \<Rightarrow> sys \<Rightarrow> sys res" where
  "thread_access t s =
     (case pcs s ! t of
        Idle \<Rightarrow> Inr s
      | Copying c first \<Rightarrow> Inr (goto t (copy_step s c first) s)
      | Collecting c cc first second same \<Rightarrow> Inr (goto t (collect_step s c cc first second same) s)
      | Acquiring c i \<Rightarrow> acquire_step t c i s
      | Borrowing c i x acc \<Rightarrow> borrow_step t c i x acc s
      | Releasing c i x v \<Rightarrow> release_step t c i x v s
      | Flagging c i x v \<Rightarrow> flag_step t i x (Scanned c v) s
      | Scanned c v \<Rightarrow> Inr (goto t (after_scan c v) s)
      | Searching w v i \<Rightarrow> search_step t w v i s
      | Storing w v i \<Rightarrow> Inr (store_step t w v i s)
      | Swapping w i \<Rightarrow> swap_step t w i s
      | Resetting w x k \<Rightarrow> reset_step t w x k s
      | Reflagging w x \<Rightarrow> flag_step t t x (Writing w) s
      | Writing w \<Rightarrow> write_step t w s)"

definition thread_step :: "nat \<Rightarrow> sys \<Rightarrow> sys res" where
  "thread_step t s = (if access_in_range t s then thread_access t s else Inl Out_of_range)"

lemma thread_step_Inr: "thread_step t s = Inr s' \<longleftrightarrow> access_in_range t s \<and> thread_access t s = Inr s'"
  by (simp add: thread_step_def)

text \<open>A call of \<open>scan()\<close> or \<open>update(value, t)\<close> by an idle thread.\<close>

definition call_step :: "nat \<Rightarrow> call \<Rightarrow> sys \<Rightarrow> sys" where
  "call_step t c s = s\<lparr>pcs := (pcs s)[t := Copying c []], started := (started s)[t := now s]\<rparr>"

datatype event = Call nat call | Access nat

inductive scan_act :: "event \<Rightarrow> sys \<Rightarrow> sys \<Rightarrow> bool" where
  act_call: "t < thread_count s \<Longrightarrow> pcs s ! t = Idle \<Longrightarrow> scan_act (Call t c) s (call_step t c s)"
| act_access: "t < thread_count s \<Longrightarrow> thread_step t s = Inr s' \<Longrightarrow> scan_act (Access t) s s'"

inductive_cases scan_callE: "scan_act (Call t c) s s'"
inductive_cases scan_accessE: "scan_act (Access t) s s'"

definition scan_step :: "sys \<Rightarrow> sys \<Rightarrow> bool" where
  "scan_step s s' \<longleftrightarrow> (\<exists>e. scan_act e s s')"

inductive scan_run :: "sys \<Rightarrow> event list \<Rightarrow> sys \<Rightarrow> bool" where
  run_nil: "scan_run s [] s"
| run_cons: "scan_act e s s' \<Longrightarrow> scan_run s' es s'' \<Longrightarrow> scan_run s (e # es) s''"

definition scan_start :: "sys \<Rightarrow> bool" where
  "scan_start s \<longleftrightarrow> (\<exists>n. n < 2 ^ 31 - 1 \<and> s = WaitfreeAtomicSnapshot_new n)"

abbreviation scan_reach :: "sys \<Rightarrow> bool" where
  "scan_reach \<equiv> reach scan_start scan_step"

text \<open>The same runs as a function, for concrete inputs; \<open>None\<close> when an event cannot happen.\<close>

fun do_event :: "event \<Rightarrow> sys \<Rightarrow> sys option" where
  "do_event (Call t c) s =
     (if t < thread_count s \<and> pcs s ! t = Idle then Some (call_step t c s) else None)"
| "do_event (Access t) s =
     (if t < thread_count s then (case thread_step t s of Inl e \<Rightarrow> None | Inr s' \<Rightarrow> Some s') else None)"

fun run_schedule :: "event list \<Rightarrow> sys \<Rightarrow> sys option" where
  "run_schedule [] s = Some s"
| "run_schedule (e # es) s = (case do_event e s of None \<Rightarrow> None | Some s' \<Rightarrow> run_schedule es s')"

lemma do_event_act: "do_event e s = Some s' \<Longrightarrow> scan_act e s s'"
  by (cases e) (auto split: if_splits sum.splits intro: scan_act.intros)

lemma run_schedule_run: "run_schedule es s = Some s' \<Longrightarrow> scan_run s es s'"
  by (induction es arbitrary: s) (auto split: option.splits intro: scan_run.intros dest: do_event_act)

lemma scan_run_reach: "scan_run s es s' \<Longrightarrow> scan_reach s \<Longrightarrow> scan_reach s'"
proof (induction rule: scan_run.induct)
  case (run_cons e s s' es s'')
  then have "scan_step s s'" by (auto simp: scan_step_def)
  then show ?case using run_cons by (blast intro: reach_next)
qed

lemma run_from_start:
  "n < 2 ^ 31 - 1 \<Longrightarrow> run_schedule es (WaitfreeAtomicSnapshot_new n) = Some s \<Longrightarrow> scan_reach s"
  by (rule scan_run_reach [OF run_schedule_run], assumption, rule reach_start)
     (unfold scan_start_def, blast)

end
