(* ===== verification/ScanInv.thy ===== *)
theory ScanInv
  imports ScanMachine
begin

text \<open>
  The invariant of the snapshot machine, in three layers: what the counters of each
  \<open>shared_snapshot\<close> mean (\<open>ss_inv\<close>, with the references and owed flags counted over the
  program counters), what each thread knows at its program counter (\<open>pc_ok\<close>), and what the
  history says of the published versions. One lemma per access shows that a step of a thread
  keeps all three.
\<close>

section \<open>Counting over threads\<close>

fun holds :: "nat \<Rightarrow> nat \<Rightarrow> pc \<Rightarrow> bool" where
  "holds j x (Borrowing c i y v) \<longleftrightarrow> i = j \<and> y = x"
| "holds j x (Releasing c i y v) \<longleftrightarrow> i = j \<and> y = x"
| "holds j x _ \<longleftrightarrow> False"

fun owes :: "nat \<Rightarrow> nat \<Rightarrow> nat \<Rightarrow> pc \<Rightarrow> bool" where
  "owes j x t (Flagging c i y v) \<longleftrightarrow> i = j \<and> y = x"
| "owes j x t (Reflagging w y) \<longleftrightarrow> t = j \<and> y = x"
| "owes j x t _ \<longleftrightarrow> False"

definition held :: "pc list \<Rightarrow> nat \<Rightarrow> nat \<Rightarrow> nat" where
  "held P j x = card {t. t < length P \<and> holds j x (P ! t)}"

definition owed :: "pc list \<Rightarrow> nat \<Rightarrow> nat \<Rightarrow> nat" where
  "owed P j x = card {t. t < length P \<and> owes j x t (P ! t)}"

fun wm_of :: "pc \<Rightarrow> wmode" where
  "wm_of (Swapping w i) = Installed i"
| "wm_of (Resetting w x k) = Unreset x (unat k)"
| "wm_of _ = Quiet"

section \<open>What each thread knows\<close>

text \<open>Register \<open>j\<close> had value \<open>r\<close>, or the whole vector value \<open>v\<close>, at some time in the range.\<close>

definition seen_at :: "view list \<Rightarrow> nat \<Rightarrow> nat \<Rightarrow> nat \<Rightarrow> atomic_register \<Rightarrow> bool" where
  "seen_at H lo hi j r \<longleftrightarrow> (\<exists>a. lo \<le> a \<and> a \<le> hi \<and> r = H ! a ! j)"

definition view_at :: "view list \<Rightarrow> nat \<Rightarrow> nat \<Rightarrow> view \<Rightarrow> bool" where
  "view_at H lo hi v \<longleftrightarrow> (\<exists>a. lo \<le> a \<and> a \<le> hi \<and> v = H ! a)"

definition latest :: "view \<Rightarrow> view \<Rightarrow> nat \<Rightarrow> atomic_register" where
  "latest first second j = (if j < length second then second ! j else first ! j)"

text \<open>Some version at or after \<open>i\<close> is free; before the first publication it is version 0.\<close>

definition can_find :: "shared_snapshot \<Rightarrow> nat \<Rightarrow> bool" where
  "can_find ss i \<longleftrightarrow>
     (\<exists>k \<ge> i. k < version_count ss \<and> slot_free (snapshot_ptr_vector ss ! k))
     \<and> (snapshot_ptr_vector ss ! cur ss = None \<longrightarrow> i = 0)"

fun pc_ok :: "nat \<Rightarrow> view list \<Rightarrow> shared_snapshot list \<Rightarrow> nat \<Rightarrow> nat \<Rightarrow> nat \<Rightarrow> pc \<Rightarrow> bool" where
  "pc_ok n H S t st md Idle \<longleftrightarrow> True"
| "pc_ok n H S t st md (Copying c first) \<longleftrightarrow>
     length first < n \<and> (\<forall>j < length first. seen_at H st (length H - 1) j (first ! j))"
| "pc_ok n H S t st md (Collecting c cc first second same) \<longleftrightarrow>
     length cc = n \<and> length first = n \<and> length second < n \<and> st \<le> md \<and> md < length H
     \<and> (\<forall>j < n. seen_at H st md j (first ! j))
     \<and> (\<forall>j < length second. seen_at H md (length H - 1) j (second ! j))
     \<and> (same \<longleftrightarrow> (\<forall>j < length second. second ! j = first ! j))
     \<and> (\<forall>j < n. cc ! j \<le> 1)
     \<and> (\<forall>j < length second. second ! j \<noteq> first ! j \<longrightarrow> cc ! j = 1)
     \<and> (\<forall>j < n. cc ! j = 1 \<longrightarrow> stamp (H ! st ! j) < stamp (latest first second j))"
| "pc_ok n H S t st md (Acquiring c i) \<longleftrightarrow>
     i < n \<and> stamp (H ! st ! i) + 2 \<le> stamp (last H ! i)"
| "pc_ok n H S t st md (Borrowing c i x acc) \<longleftrightarrow>
     i < n \<and> x < version_count (S ! i)
     \<and> (\<exists>v. slot_view (S ! i) x = Some v \<and> view_at H st (length H - 1) v
          \<and> length acc \<le> length v \<and> acc = take (length acc) v)"
| "pc_ok n H S t st md (Releasing c i x v) \<longleftrightarrow>
     i < n \<and> x < version_count (S ! i) \<and> view_at H st (length H - 1) v"
| "pc_ok n H S t st md (Flagging c i x v) \<longleftrightarrow>
     i < n \<and> x < version_count (S ! i) \<and> view_at H st (length H - 1) v"
| "pc_ok n H S t st md (Scanned c v) \<longleftrightarrow> view_at H st (length H - 1) v"
| "pc_ok n H S t st md (Searching w v i) \<longleftrightarrow> view_at H st (length H - 1) v \<and> can_find (S ! t) i"
| "pc_ok n H S t st md (Storing w v i) \<longleftrightarrow> view_at H st (length H - 1) v
     \<and> i < version_count (S ! t) \<and> slot_free (snapshot_ptr_vector (S ! t) ! i)
     \<and> (snapshot_ptr_vector (S ! t) ! cur (S ! t) = None \<longrightarrow> i = 0)"
| "pc_ok n H S t st md (Swapping w i) \<longleftrightarrow>
     (\<exists>v. slot_view (S ! t) i = Some v \<and> view_at H st (length H - 1) v)"
| "pc_ok n H S t st md (Resetting w x k) \<longleftrightarrow> True"
| "pc_ok n H S t st md (Reflagging w x) \<longleftrightarrow> x < version_count (S ! t)"
| "pc_ok n H S t st md (Writing w) \<longleftrightarrow> True"

text \<open>A thread that is in a call has not written its register since the call began.\<close>

definition own_stable :: "view list \<Rightarrow> nat \<Rightarrow> nat \<Rightarrow> pc \<Rightarrow> bool" where
  "own_stable H t st q \<longleftrightarrow> q = Idle \<or> (\<forall>a \<ge> st. a < length H \<longrightarrow> H ! a ! t = last H ! t)"

section \<open>What the history says of the published versions\<close>

text \<open>Stamps only grow, and an unchanged stamp means an unchanged register.\<close>

definition hist_ok :: "nat \<Rightarrow> view list \<Rightarrow> bool" where
  "hist_ok n H \<longleftrightarrow> H \<noteq> [] \<and> (\<forall>a < length H. length (H ! a) = n)
     \<and> (\<forall>a b j. a \<le> b \<longrightarrow> b < length H \<longrightarrow> j < n \<longrightarrow>
           stamp (H ! a ! j) \<le> stamp (H ! b ! j)
           \<and> (stamp (H ! a ! j) = stamp (H ! b ! j) \<longrightarrow> H ! a ! j = H ! b ! j))"

fun post_swap :: "pc \<Rightarrow> bool" where
  "post_swap (Resetting w x k) \<longleftrightarrow> True"
| "post_swap (Reflagging w x) \<longleftrightarrow> True"
| "post_swap (Writing w) \<longleftrightarrow> True"
| "post_swap _ \<longleftrightarrow> False"

fun pre_acquire :: "pc \<Rightarrow> bool" where
  "pre_acquire (Copying c v) \<longleftrightarrow> True"
| "pre_acquire (Collecting c cc f g b) \<longleftrightarrow> True"
| "pre_acquire (Acquiring c i) \<longleftrightarrow> True"
| "pre_acquire _ \<longleftrightarrow> False"

text \<open>
  The version a writer has published is the vector at some time; its own entry in it is at
  most one write behind, and none behind between publication and write.
\<close>

definition pub_ok :: "view list \<Rightarrow> shared_snapshot \<Rightarrow> nat \<Rightarrow> pc \<Rightarrow> bool" where
  "pub_ok H ss j q \<longleftrightarrow>
     (stamp (last H ! j) = 0 \<and> \<not> post_swap q \<and> \<not> published ss (wm_of q))
     \<or> published ss (wm_of q)
       \<and> (\<exists>k < length H. slot_view ss (cur ss) = Some (H ! k)
             \<and> stamp (last H ! j) \<le> stamp (H ! k ! j) + 1
             \<and> (post_swap q \<longrightarrow> stamp (H ! k ! j) = stamp (last H ! j)))"

text \<open>
  Each reference taken on the current version was taken by a different thread, because a
  thread that took one and scans again has not yet seen the writer change twice.
\<close>

definition takers_ok :: "nat \<Rightarrow> view list \<Rightarrow> shared_snapshot \<Rightarrow> nat set \<Rightarrow> nat list \<Rightarrow> pc list \<Rightarrow> nat \<Rightarrow> bool" where
  "takers_ok n H ss K st P j \<longleftrightarrow>
     K \<subseteq> {..<n} \<and> card K = refs ss
     \<and> (\<forall>t \<in> K. pre_acquire (P ! t) \<longrightarrow>
          (\<exists>v. slot_view ss (cur ss) = Some v \<and> stamp (v ! j) \<le> stamp (H ! (st ! t) ! j)))"

definition shared_ok :: "sys \<Rightarrow> nat \<Rightarrow> bool" where
  "shared_ok s j \<longleftrightarrow>
     version_count (shared_snapshot_vector s ! j) = thread_count s + 1
     \<and> ss_inv (thread_count s) (shared_snapshot_vector s ! j) (held (pcs s) j) (owed (pcs s) j)
         (wm_of (pcs s ! j))
     \<and> pub_ok (hist s) (shared_snapshot_vector s ! j) j (pcs s ! j)
     \<and> takers_ok (thread_count s) (hist s) (shared_snapshot_vector s ! j) (takers s ! j)
         (started s) (pcs s) j"

definition thread_ok :: "sys \<Rightarrow> nat \<Rightarrow> bool" where
  "thread_ok s t \<longleftrightarrow>
     started s ! t < length (hist s)
     \<and> pc_ok (thread_count s) (hist s) (shared_snapshot_vector s) t (started s ! t) (mid s ! t) (pcs s ! t)
     \<and> own_stable (hist s) t (started s ! t) (pcs s ! t)"

definition shape_ok :: "sys \<Rightarrow> bool" where
  "shape_ok s \<longleftrightarrow> thread_count s < 2 ^ 31 - 1
     \<and> length (shared_snapshot_vector s) = thread_count s \<and> length (pcs s) = thread_count s
     \<and> length (started s) = thread_count s \<and> length (mid s) = thread_count s
     \<and> length (takers s) = thread_count s
     \<and> atomic_register_vector s = last (hist s) \<and> hist_ok (thread_count s) (hist s)"

definition scan_inv :: "sys \<Rightarrow> bool" where
  "scan_inv s \<longleftrightarrow> shape_ok s \<and> (\<forall>j < thread_count s. shared_ok s j) \<and> (\<forall>t < thread_count s. thread_ok s t)"

section \<open>Updates of one thread\<close>

lemma card_threads_upd:
  assumes "t < length P"
  shows "card {u. u < length P \<and> Q u (P[t := q] ! u)} + of_bool (Q t (P ! t))
       = card {u. u < length P \<and> Q u (P ! u)} + of_bool (Q t q)"
proof -
  let ?A = "{u. u < length P \<and> u \<noteq> t \<and> Q u (P ! u)}"
  have fin: "finite ?A" by simp
  have old: "{u. u < length P \<and> Q u (P ! u)} = (if Q t (P ! t) then insert t ?A else ?A)"
    using assms by auto
  have new: "{u. u < length P \<and> Q u (P[t := q] ! u)} = (if Q t q then insert t ?A else ?A)"
    using assms by (auto simp: nth_list_update)
  show ?thesis unfolding old new using fin by simp
qed

lemma held_upd:
  "t < length P \<Longrightarrow> held (P[t := q]) j x + of_bool (holds j x (P ! t)) = held P j x + of_bool (holds j x q)"
  using card_threads_upd [of t P "\<lambda>u. holds j x" q] by (simp add: held_def)

lemma owed_upd:
  "t < length P \<Longrightarrow>
    owed (P[t := q]) j x + of_bool (owes j x t (P ! t)) = owed P j x + of_bool (owes j x t q)"
  using card_threads_upd [of t P "owes j x" q] by (simp add: owed_def)

lemma held_same: "t < length P \<Longrightarrow> (\<And>x. holds j x q = holds j x (P ! t)) \<Longrightarrow> held (P[t := q]) j = held P j"
  by (rule ext) (use held_upd [of t P q j] in simp)

lemma owed_same:
  "t < length P \<Longrightarrow> (\<And>x. owes j x t q = owes j x t (P ! t)) \<Longrightarrow> owed (P[t := q]) j = owed P j"
  by (rule ext) (use owed_upd [of t P q j] in simp)

lemma held_le: "held P j x \<le> length P"
  using card_mono [of "{..<length P}" "{t. t < length P \<and> holds j x (P ! t)}"]
  by (auto simp: held_def)

lemma held_pos: "t < length P \<Longrightarrow> holds j x (P ! t) \<Longrightarrow> 0 < held P j x"
  unfolding held_def by (subst card_gt_0_iff) auto

lemma owed_pos: "t < length P \<Longrightarrow> owes j x t (P ! t) \<Longrightarrow> 0 < owed P j x"
  unfolding owed_def by (subst card_gt_0_iff) auto

lemma scan_invD:
  assumes "scan_inv s"
  shows "shape_ok s" and "j < thread_count s \<Longrightarrow> shared_ok s j" and "t < thread_count s \<Longrightarrow> thread_ok s t"
  using assms by (simp_all add: scan_inv_def)

text \<open>
  What other threads may do to a writer's versions: set flags, count references, and keep
  everything a reader or the writer itself relies on.
\<close>

definition by_others :: "shared_snapshot \<Rightarrow> shared_snapshot \<Rightarrow> bool" where
  "by_others ss ss' \<longleftrightarrow> cur ss' = cur ss \<and> version_count ss' = version_count ss
     \<and> (\<forall>x. slot_view ss' x = slot_view ss x)
     \<and> (\<forall>x. slot_free (snapshot_ptr_vector ss ! x) \<longrightarrow> slot_free (snapshot_ptr_vector ss' ! x))"

lemma by_others_refl: "by_others ss ss"
  by (simp add: by_others_def)

lemma by_others_none:
  "by_others ss ss' \<Longrightarrow> snapshot_ptr_vector ss' ! x = None \<longleftrightarrow> snapshot_ptr_vector ss ! x = None"
  by (metis by_others_def slot_view_def map_option_is_None)

lemma by_others_put:
  assumes "snapshot_ptr_vector ss ! x = Some sn" and "registers sn' = registers sn"
    and "recycle_flag sn \<longrightarrow> recycle_flag sn'"
  shows "by_others ss (put_slot ss x sn')"
proof -
  have "slot_free (snapshot_ptr_vector (put_slot ss x sn') ! y)"
    if "slot_free (snapshot_ptr_vector ss ! y)" for y
    using that assms
    by (cases "x < length (snapshot_ptr_vector ss)"; cases "y = x")
       (auto simp: slot_free_def get_recycle_flag_def list_update_beyond)
  then show ?thesis using slot_view_put [OF assms(1,2)] by (simp add: by_others_def)
qed

text \<open>A thread keeps what it knows while others move.\<close>

lemma pc_ok_stable:
  assumes ok: "pc_ok n H S t st md q" and i: "i < length S"
    and mine: "i = t \<longrightarrow> by_others (S ! t) ss'"
    and vc: "version_count ss' = version_count (S ! i)"
    and views: "\<And>x. holds i x q \<Longrightarrow> slot_view ss' x = slot_view (S ! i) x"
  shows "pc_ok n H (S[i := ss']) t st md q"
proof (cases "i = t")
  case True
  then have o: "by_others (S ! t) ss'" using mine by simp
  then have c: "cur ss' = cur (S ! t)" "\<And>x. slot_view ss' x = slot_view (S ! t) x"
    "\<And>x. slot_free (snapshot_ptr_vector (S ! t) ! x) \<Longrightarrow> slot_free (snapshot_ptr_vector ss' ! x)"
    "\<And>x. snapshot_ptr_vector ss' ! x = None \<longleftrightarrow> snapshot_ptr_vector (S ! t) ! x = None"
    using by_others_none [OF o] by (auto simp: by_others_def)
  have find: "can_find (S ! t) k \<Longrightarrow> can_find ss' k" for k
    using c vc True unfolding can_find_def by (metis (no_types, lifting))
  show ?thesis using ok i vc True c find
    by (cases q) (auto simp: nth_list_update)
next
  case False
  then show ?thesis using ok i vc views
    by (cases q) (auto simp: nth_list_update)
qed

text \<open>
  The general step: thread \<open>t\<close> moves to \<open>q\<close> and changes the versions of writer \<open>i\<close>
  only. The premises are what the step has to establish itself; everything about the other
  threads and the other writers follows.
\<close>

lemma takers_ok_move:
  assumes ok: "takers_ok n H ss K st P j" and t: "t < length P"
    and pre: "pre_acquire q \<longrightarrow> pre_acquire (P ! t)"
    and same: "cur ss' = cur ss" "refs ss' = refs ss" "\<And>x. slot_view ss' x = slot_view ss x"
  shows "takers_ok n H ss' K st (P[t := q]) j"
  using assms unfolding takers_ok_def by (metis nth_list_update_eq nth_list_update_neq)

lemma pub_ok_same:
  assumes "pub_ok H ss j q" and "by_others ss ss'"
  shows "pub_ok H ss' j q"
  using assms by_others_none [OF assms(2)] by (simp add: pub_ok_def published_def by_others_def)

lemma scan_inv_update:
  assumes inv: "scan_inv s" and t: "t < thread_count s" and i: "i < thread_count s"
    and s': "s' = s\<lparr>shared_snapshot_vector := (shared_snapshot_vector s)[i := ss'],
      pcs := (pcs s)[t := q], mid := md', takers := (takers s)[i := K]\<rparr>"
    and md: "length md' = thread_count s" "\<And>u. u \<noteq> t \<Longrightarrow> md' ! u = mid s ! u"
    and vc: "version_count ss' = version_count (shared_snapshot_vector s ! i)"
    and ctr: "ss_inv (thread_count s) ss' (held ((pcs s)[t := q]) i) (owed ((pcs s)[t := q]) i)
      (wm_of ((pcs s)[t := q] ! i))"
    and pub: "pub_ok (hist s) ss' i ((pcs s)[t := q] ! i)"
    and tak: "takers_ok (thread_count s) (hist s) ss' K (started s) ((pcs s)[t := q]) i"
    and mine: "pc_ok (thread_count s) (hist s) ((shared_snapshot_vector s)[i := ss']) t
      (started s ! t) (md' ! t) q"
    and own: "own_stable (hist s) t (started s ! t) q"
    and oth: "i \<noteq> t \<Longrightarrow> by_others (shared_snapshot_vector s ! i) ss'"
    and views: "\<And>u x. u < thread_count s \<Longrightarrow> u \<noteq> t \<Longrightarrow> holds i x (pcs s ! u)
      \<Longrightarrow> slot_view ss' x = slot_view (shared_snapshot_vector s ! i) x"
    and same: "\<And>j x. j \<noteq> i \<Longrightarrow> holds j x q = holds j x (pcs s ! t)"
      "\<And>j x. j \<noteq> i \<Longrightarrow> owes j x t q = owes j x t (pcs s ! t)"
    and mode: "i \<noteq> t \<Longrightarrow> wm_of q = wm_of (pcs s ! t) \<and> post_swap q = post_swap (pcs s ! t)"
    and pre: "pre_acquire q \<longrightarrow> pre_acquire (pcs s ! t)"
  shows "scan_inv s'"
proof -
  let ?n = "thread_count s" let ?S = "shared_snapshot_vector s" let ?P = "pcs s"
  have shape: "shape_ok s" and len: "length ?S = ?n" "length ?P = ?n" "length (takers s) = ?n"
    using scan_invD(1) [OF inv] by (simp_all add: shape_ok_def)
  have "shape_ok s'" using shape md(1) by (simp add: s' shape_ok_def)
  moreover have "shared_ok s' j" if j: "j < ?n" for j
  proof (cases "j = i")
    case True
    have "version_count (?S ! i) = ?n + 1" using scan_invD(2) [OF inv i] by (simp add: shared_ok_def)
    then show ?thesis using True i len vc ctr pub tak by (simp add: shared_ok_def s')
  next
    case False
    have ok: "shared_ok s j" using inv j by (rule scan_invD(2))
    have "held (?P[t := q]) j = held ?P j" "owed (?P[t := q]) j = owed ?P j"
      using False t len same by (intro held_same owed_same; simp)+
    moreover have "wm_of (?P[t := q] ! j) = wm_of (?P ! j)"
      "post_swap (?P[t := q] ! j) = post_swap (?P ! j)"
      using mode False t len by (cases "j = t"; simp)+
    moreover have "takers_ok ?n (hist s) (?S ! j) (takers s ! j) (started s) (?P[t := q]) j"
      using ok t len pre by (intro takers_ok_move) (auto simp: shared_ok_def)
    ultimately show ?thesis using ok False by (simp add: shared_ok_def s' pub_ok_def)
  qed
  moreover have "thread_ok s' u" if u: "u < ?n" for u
  proof (cases "u = t")
    case True
    then show ?thesis using mine own scan_invD(3) [OF inv t] t len by (simp add: thread_ok_def s')
  next
    case False
    have ok: "thread_ok s u" using inv u by (rule scan_invD(3))
    have "pc_ok ?n (hist s) (?S[i := ss']) u (started s ! u) (mid s ! u) (?P ! u)"
      using ok i len vc oth views [OF u False] False
      by (intro pc_ok_stable) (auto simp: thread_ok_def)
    then show ?thesis using ok False md(2) by (simp add: thread_ok_def s')
  qed
  ultimately show ?thesis by (simp add: scan_inv_def s')
qed

text \<open>Steps that only read shared memory.\<close>

lemma goto_fields [simp]:
  "thread_count (goto t q s) = thread_count s" "hist (goto t q s) = hist s"
  "atomic_register_vector (goto t q s) = atomic_register_vector s"
  "shared_snapshot_vector (goto t q s) = shared_snapshot_vector s"
  "pcs (goto t q s) = (pcs s)[t := q]" "started (goto t q s) = started s"
  "takers (goto t q s) = takers s"
  by (simp_all add: goto_def)

lemma scan_inv_local:
  assumes inv: "scan_inv s" and t: "t < thread_count s"
    and mine: "pc_ok (thread_count s) (hist s) (shared_snapshot_vector s) t (started s ! t)
      (if ends_collect q then now s else mid s ! t) q"
    and own: "own_stable (hist s) t (started s ! t) q"
    and same: "\<And>j x. holds j x q = holds j x (pcs s ! t)"
      "\<And>j x. owes j x t q = owes j x t (pcs s ! t)"
    and mode: "wm_of q = wm_of (pcs s ! t)" "post_swap q = post_swap (pcs s ! t)"
    and pre: "pre_acquire q \<longrightarrow> pre_acquire (pcs s ! t)"
  shows "scan_inv (goto t q s)"
proof -
  have len: "length (shared_snapshot_vector s) = thread_count s" "length (pcs s) = thread_count s"
    "length (mid s) = thread_count s"
    using scan_invD(1) [OF inv] by (simp_all add: shape_ok_def)
  let ?md = "if ends_collect q then (mid s)[t := now s] else mid s"
  have ok: "shared_ok s t" using inv t by (rule scan_invD(2))
  have c: "held ((pcs s)[t := q]) t = held (pcs s) t" "owed ((pcs s)[t := q]) t = owed (pcs s) t"
    using t len same by (intro held_same owed_same; simp)+
  show ?thesis
  proof (rule scan_inv_update [OF inv t t, where ss' = "shared_snapshot_vector s ! t"
        and K = "takers s ! t" and q = q and md' = ?md])
    show "takers_ok (thread_count s) (hist s) (shared_snapshot_vector s ! t) (takers s ! t)
      (started s) ((pcs s)[t := q]) t"
      using ok t len pre by (intro takers_ok_move) (auto simp: shared_ok_def)
    show "pc_ok (thread_count s) (hist s)
     ((shared_snapshot_vector s)[t := shared_snapshot_vector s ! t]) t (started s ! t) (?md ! t) q"
      using mine t len by (cases "ends_collect q") simp_all
  qed (use ok t len c mode own same pre in \<open>simp_all add: goto_def shared_ok_def pub_ok_def\<close>)
qed

section \<open>The double collect\<close>

lemma hist_mono:
  assumes "hist_ok n H" and "a \<le> b" and "b < length H" and "j < n"
  shows "stamp (H ! a ! j) \<le> stamp (H ! b ! j)"
    and "stamp (H ! a ! j) = stamp (H ! b ! j) \<Longrightarrow> H ! a ! j = H ! b ! j"
  using assms unfolding hist_ok_def by blast+

lemma hist_between:
  assumes "hist_ok n H" and "a \<le> m" and "m \<le> b" and "b < length H" and "j < n"
    and "H ! a ! j = H ! b ! j"
  shows "H ! m ! j = H ! a ! j"
proof -
  have "stamp (H ! a ! j) \<le> stamp (H ! m ! j)" "stamp (H ! m ! j) \<le> stamp (H ! b ! j)"
    using hist_mono(1) [OF assms(1,2) _ assms(5)] hist_mono(1) [OF assms(1,3,4,5)] assms(3,4) by simp_all
  with assms(6) have "stamp (H ! a ! j) = stamp (H ! m ! j)" by simp
  then show ?thesis using hist_mono(2) [OF assms(1,2), of j] assms by simp
qed

text \<open>
  Two collects that agree: the vector had exactly that value at every time between them.
\<close>

lemma double_collect:
  assumes H: "hist_ok n H" and len: "length first = n" "length second = n" and m: "m < length H"
    and f: "\<And>j. j < n \<Longrightarrow> seen_at H st m j (first ! j)"
    and g: "\<And>j. j < n \<Longrightarrow> seen_at H m (length H - 1) j (second ! j)"
    and eq: "\<And>j. j < n \<Longrightarrow> second ! j = first ! j"
  shows "first = H ! m"
proof (rule nth_equalityI)
  show "length first = length (H ! m)" using H m len by (simp add: hist_ok_def)
next
  fix j assume "j < length first"
  then have j: "j < n" by (simp add: len)
  obtain a where a: "a \<le> m" "first ! j = H ! a ! j" using f [OF j] by (auto simp: seen_at_def)
  obtain b where b: "m \<le> b" "b \<le> length H - 1" "second ! j = H ! b ! j"
    using g [OF j] by (auto simp: seen_at_def)
  have "b < length H" using b(2) m by linarith
  then show "first ! j = H ! m ! j" using hist_between [OF H a(1) b(1) _ j] a b eq [OF j] by simp
qed

text \<open>A register that differs from what was read before has been written since.\<close>

lemma changed_stamp:
  assumes H: "hist_ok n H" and j: "j < n" and f: "seen_at H st m j r" and m: "m < length H"
    and ne: "last H ! j \<noteq> r"
  shows "stamp (H ! st ! j) \<le> stamp r" and "stamp r < stamp (last H ! j)"
proof -
  obtain a where a: "st \<le> a" "a \<le> m" "r = H ! a ! j" using f by (auto simp: seen_at_def)
  have ne': "H \<noteq> []" using H by (simp add: hist_ok_def)
  have "a < length H" using a m by simp
  then show "stamp (H ! st ! j) \<le> stamp r" using hist_mono(1) [OF H a(1) _ j] a by simp
  have l: "last H = H ! (length H - 1)" using ne' by (rule last_conv_nth)
  have le: "a \<le> length H - 1" "length H - 1 < length H" using a m by simp_all
  show "stamp r < stamp (last H ! j)"
    using hist_mono [OF H le j] ne a(3) unfolding l by (metis le_neq_implies_less)
qed

lemma seen_now:
  "H \<noteq> [] \<Longrightarrow> lo < length H \<Longrightarrow> seen_at H lo (length H - 1) j (last H ! j)"
  by (auto simp: seen_at_def last_conv_nth intro!: exI [of _ "length H - 1"])

lemma seen_widen: "seen_at H lo hi j r \<Longrightarrow> lo' \<le> lo \<Longrightarrow> hi \<le> hi' \<Longrightarrow> seen_at H lo' hi' j r"
  unfolding seen_at_def using order_trans by blast

lemma collect_step_ok:
  assumes H: "hist_ok n (hist s)" and n: "thread_count s = n"
    and reg: "atomic_register_vector s = last (hist s)"
    and ok: "pc_ok n (hist s) S t st md (Collecting c cc first second same)"
    and q: "q = collect_step s c cc first second same"
  shows "pc_ok n (hist s) S t st (if ends_collect q then now s else md) q"
proof -
  let ?H = "hist s" let ?i = "length second" let ?r = "last (hist s) ! length second"
  let ?sec = "second @ [?r]" let ?changed = "first ! ?i \<noteq> ?r"
  let ?cc = "if ?changed then cc[?i := cc ! ?i + 1] else cc"
  have ne: "?H \<noteq> []" using H by (simp add: hist_ok_def)
  have len: "length cc = n" "length first = n" "?i < n" "st \<le> md" "md < length ?H"
    and f: "\<And>j. j < n \<Longrightarrow> seen_at ?H st md j (first ! j)"
    and g: "\<And>j. j < ?i \<Longrightarrow> seen_at ?H md (length ?H - 1) j (second ! j)"
    and same: "same \<longleftrightarrow> (\<forall>j < ?i. second ! j = first ! j)"
    and cc1: "\<And>j. j < n \<Longrightarrow> cc ! j \<le> 1"
    and cc2: "\<And>j. j < ?i \<Longrightarrow> second ! j \<noteq> first ! j \<Longrightarrow> cc ! j = 1"
    and cc3: "\<And>j. j < n \<Longrightarrow> cc ! j = 1 \<Longrightarrow> stamp (?H ! st ! j) < stamp (latest first second j)"
    using ok by auto
  have g': "seen_at ?H md (length ?H - 1) j (?sec ! j)" if "j < Suc ?i" for j
    using g [of j] seen_now [OF ne len(5), of ?i] that by (cases "j < ?i") (auto simp: nth_append less_Suc_eq)
  have st: "stamp (?H ! st ! ?i) \<le> stamp (first ! ?i) \<and> stamp (first ! ?i) < stamp ?r" if ?changed
    using changed_stamp [OF H len(3) f [OF len(3)] len(5)] that by metis
  have same': "(same \<and> \<not> ?changed) \<longleftrightarrow> (\<forall>j < Suc ?i. ?sec ! j = first ! j)"
    unfolding same by (auto simp: nth_append less_Suc_eq)
  have cc3': "stamp (?H ! st ! j) < stamp (latest first ?sec j)" if "j < n" "?cc ! j = 1" for j
    using cc3 [OF that(1)] that st len by (cases "j = ?i") (auto simp: latest_def nth_append split: if_splits)
  have cc2': "?cc ! j = 1" if "j < Suc ?i" "?sec ! j \<noteq> first ! j" "\<not> (?changed \<and> ?cc ! ?i = 2)" for j
    using cc2 [of j] cc1 [OF len(3)] that len by (cases "j = ?i") (auto simp: nth_append split: if_splits)
  have cc1': "?cc ! j \<le> 1" if "j < n" "\<not> (?changed \<and> ?cc ! ?i = 2)" for j
    using cc1 [OF that(1)] that len by (cases "j = ?i") auto
  define cc' sec' same' where d: "cc' = ?cc" "sec' = ?sec" "same' = (same \<and> \<not> ?changed)"
  have lens: "length cc' = n" "length sec' = Suc ?i" by (simp_all add: d len)
  have q': "q = (if ?changed \<and> cc' ! ?i = 2 then Acquiring c ?i
         else if Suc ?i < n then Collecting c cc' first sec' same'
         else if same' then Scanned c first else Collecting c cc' sec' [] True)"
    by (simp add: q collect_step_def Let_def reg n d)
  note facts = same' [folded d] cc1' [folded d] cc2' [folded d] cc3' [folded d] g' [folded d]
  consider (acq) "?changed \<and> cc' ! ?i = 2" | (more) "\<not> (?changed \<and> cc' ! ?i = 2)" "Suc ?i < n"
    | (agree) "\<not> (?changed \<and> cc' ! ?i = 2)" "Suc ?i = n" "same'"
    | (again) "\<not> (?changed \<and> cc' ! ?i = 2)" "Suc ?i = n" "\<not> same'"
    using len(3) by linarith
  then show ?thesis
  proof cases
    case acq
    then have "cc ! ?i = 1" using len cc1 [OF len(3)] by (simp add: d split: if_splits)
    then have "stamp (?H ! st ! ?i) < stamp (first ! ?i)" using cc3 [OF len(3)] by (simp add: latest_def)
    moreover have "q = Acquiring c ?i" using q' acq by simp
    ultimately show ?thesis using st acq len by (simp add: ends_collect_def)
  next
    case more
    then have qq: "q = Collecting c cc' first sec' same'" unfolding q' by (simp only: if_False if_True)
    have "ends_collect q = False" using lens(2) by (cases sec') (simp_all add: qq ends_collect_def)
    then show ?thesis using len lens f facts more by (simp add: qq)
  next
    case agree
    then have qq: "q = Scanned c first" unfolding q' by (simp only: if_False if_True less_irrefl)
    have "first = ?H ! md" using len lens f facts agree
      by (intro double_collect [OF H, of first sec']) auto
    then have "view_at ?H st (length ?H - 1) first" using len by (auto simp: view_at_def)
    then show ?thesis by (simp add: qq ends_collect_def)
  next
    case again
    then have qq: "q = Collecting c cc' sec' [] True" unfolding q' by (simp only: if_False less_irrefl)
    have "latest sec' [] j = latest first sec' j" if "j < n" for j
      using that lens again by (simp add: latest_def)
    moreover have "seen_at ?H st (length ?H - 1) j (sec' ! j)" if "j < n" for j
      using facts(5) [of j] that again len by (auto intro: seen_widen)
    ultimately show ?thesis using again len lens facts ne
      by (simp add: qq ends_collect_def now_def)
  qed
qed

end
