(* ===== verification/ScanSteps.thy ===== *)
theory ScanSteps
  imports ScanInv
begin

text \<open>
  Every access of the snapshot machine keeps \<open>scan_inv\<close> and never stops with an error other
  than the timestamp overflow of \<open>write()\<close>: one lemma per access, then the step as a whole.
\<close>

section \<open>Reading steps\<close>

lemma inv_facts:
  assumes "scan_inv s" and "t < thread_count s"
  shows "length (shared_snapshot_vector s) = thread_count s" "length (pcs s) = thread_count s"
    "length (mid s) = thread_count s" "length (takers s) = thread_count s"
    "length (started s) = thread_count s"
    "hist_ok (thread_count s) (hist s)" "hist s \<noteq> []" "atomic_register_vector s = last (hist s)"
    "started s ! t < length (hist s)"
    "pc_ok (thread_count s) (hist s) (shared_snapshot_vector s) t (started s ! t) (mid s ! t) (pcs s ! t)"
    "own_stable (hist s) t (started s ! t) (pcs s ! t)"
  using scan_invD(1) [OF assms(1)] scan_invD(3) [OF assms]
  by (simp_all add: shape_ok_def thread_ok_def hist_ok_def)

lemma shared_facts:
  assumes "scan_inv s" and "j < thread_count s"
  shows "version_count (shared_snapshot_vector s ! j) = thread_count s + 1"
    "ss_inv (thread_count s) (shared_snapshot_vector s ! j) (held (pcs s) j) (owed (pcs s) j)
         (wm_of (pcs s ! j))"
    "pub_ok (hist s) (shared_snapshot_vector s ! j) j (pcs s ! j)"
    "takers_ok (thread_count s) (hist s) (shared_snapshot_vector s ! j) (takers s ! j)
         (started s) (pcs s) j"
  using scan_invD(2) [OF assms] by (simp_all add: shared_ok_def)

lemma own_stable_move: "own_stable H t st p \<Longrightarrow> p \<noteq> Idle \<Longrightarrow> own_stable H t st q"
  by (simp add: own_stable_def)

lemma copying_inv:
  assumes inv: "scan_inv s" and t: "t < thread_count s" and pc: "pcs s ! t = Copying c first"
  shows "scan_inv (goto t (copy_step s c first) s)"
proof -
  note f = inv_facts [OF inv t]
  let ?H = "hist s" let ?v = "first @ [last ?H ! length first]"
  have ok: "length first < thread_count s"
    "\<And>j. j < length first \<Longrightarrow> seen_at ?H (started s ! t) (length ?H - 1) j (first ! j)"
    using f(10) by (auto simp: pc)
  have seen: "seen_at ?H (started s ! t) (length ?H - 1) j (?v ! j)" if "j < Suc (length first)" for j
    using ok(2) [of j] seen_now [OF f(7,9), of "length first"] that
    by (cases "j < length first") (auto simp: nth_append less_Suc_eq)
  let ?q = "copy_step s c first"
  have q: "?q = (if Suc (length first) < thread_count s then Copying c ?v
      else Collecting c (replicate (thread_count s) 0) ?v [] True)"
    by (simp add: copy_step_def f(8))
  have st: "started s ! t \<le> length ?H - 1" using f(9) by simp
  show ?thesis
  proof (rule scan_inv_local [OF inv t])
    show "pc_ok (thread_count s) ?H (shared_snapshot_vector s) t (started s ! t)
      (if ends_collect ?q then now s else mid s ! t) ?q"
    proof (cases "Suc (length first) < thread_count s")
      case True
      then show ?thesis using seen by (simp add: q ends_collect_def)
    next
      case False
      then show ?thesis using seen ok(1) st f(7) by (simp add: q ends_collect_def now_def)
    qed
  qed (use f(11) pc in \<open>simp_all add: q own_stable_def\<close>)
qed

lemma collect_step_cases:
  "collect_step s c cc first second same = q \<Longrightarrow>
    (\<exists>i. q = Acquiring c i) \<or> (\<exists>cc f g b. q = Collecting c cc f g b) \<or> (\<exists>v. q = Scanned c v)"
  by (auto simp: collect_step_def Let_def)

lemma collecting_inv:
  assumes inv: "scan_inv s" and t: "t < thread_count s" and pc: "pcs s ! t = Collecting c cc first second same"
  shows "scan_inv (goto t (collect_step s c cc first second same) s)"
proof -
  note f = inv_facts [OF inv t]
  obtain q where q: "collect_step s c cc first second same = q" by simp
  have "pc_ok (thread_count s) (hist s) (shared_snapshot_vector s) t (started s ! t)
    (if ends_collect q then now s else mid s ! t) q"
    using collect_step_ok [OF f(6) refl f(8) f(10) [unfolded pc] q [symmetric]] .
  then show ?thesis using collect_step_cases [OF q] f(11) pc unfolding q
    by (intro scan_inv_local [OF inv t]) (auto simp: own_stable_def)
qed

lemma borrowing_inv:
  assumes inv: "scan_inv s" and t: "t < thread_count s" and pc: "pcs s ! t = Borrowing c i x acc"
  shows "\<exists>q. borrow_step t c i x acc s = Inr (goto t q s) \<and> scan_inv (goto t q s)"
proof -
  note f = inv_facts [OF inv t]
  let ?S = "shared_snapshot_vector s ! i"
  obtain v where v: "i < thread_count s" "x < version_count ?S" "slot_view ?S x = Some v"
    "view_at (hist s) (started s ! t) (length (hist s) - 1) v"
    "length acc \<le> length v" "acc = take (length acc) v"
    using f(10) by (auto simp: pc)
  obtain sn where sn: "snapshot_ptr_vector ?S ! x = Some sn" "registers sn = v"
    using v(3) by (auto simp: slot_view_def)
  have "length (snapshot_ptr_vector ?S) = version_count ?S"
    using shared_facts(2) [OF inv v(1)] by (simp add: ss_inv_def)
  then have get: "get_slot ?S x = Inr sn" using v(2) sn by (simp add: get_slot_def)
  let ?q = "if length acc < length v then Borrowing c i x (acc @ [v ! length acc]) else Releasing c i x acc"
  have "borrow_step t c i x acc s = Inr (goto t ?q s)"
    using get sn by (simp add: borrow_step_def)
  moreover have "scan_inv (goto t ?q s)"
  proof (rule scan_inv_local [OF inv t])
    have "acc @ [v ! length acc] = take (Suc (length acc)) v" if "length acc < length v"
      using that v(6) by (simp add: take_Suc_conv_app_nth)
    moreover have "acc = v" if "\<not> length acc < length v" using that v(6) by simp
    ultimately show "pc_ok (thread_count s) (hist s) (shared_snapshot_vector s) t (started s ! t)
      (if ends_collect ?q then now s else mid s ! t) ?q"
      using v by (auto simp: ends_collect_def)
  qed (use f(11) pc in \<open>auto simp: own_stable_def\<close>)
  ultimately show ?thesis by blast
qed

text \<open>
  A thread holds or owes at most one version, and the writer in front of its search none:
  fewer than \<open>thread_count\<close> of its versions are taken, so one of the others is free.
\<close>

lemma busy_threads:
  assumes t: "t < length P" and free: "\<And>x. \<not> holds t x (P ! t)" "\<And>x. \<not> owes t x t (P ! t)"
  shows "(\<Sum>x < m. held P t x + owed P t x) < length P"
proof -
  let ?A = "\<lambda>x. {u. u < length P \<and> (holds t x (P ! u) \<or> owes t x u (P ! u))}"
  have "held P t x + owed P t x = card (?A x)" for x
  proof -
    have "\<not> (holds t x q \<and> owes t x u q)" for u q by (cases q) auto
    then have "card ({u. u < length P \<and> holds t x (P ! u)} \<union> {u. u < length P \<and> owes t x u (P ! u)})
      = held P t x + owed P t x"
      unfolding held_def owed_def by (intro card_Un_disjoint) auto
    moreover have "{u. u < length P \<and> holds t x (P ! u)} \<union> {u. u < length P \<and> owes t x u (P ! u)} = ?A x"
      by auto
    ultimately show ?thesis by simp
  qed
  then have "(\<Sum>x < m. held P t x + owed P t x) = (\<Sum>x < m. card (?A x))" by simp
  also have "\<dots> = card (\<Union>x \<in> {..<m}. ?A x)"
  proof (intro card_UN_disjoint [symmetric])
    have "\<not> ((holds t x q \<or> owes t x u q) \<and> (holds t y q \<or> owes t y u q))" if "x \<noteq> y" for x y u q
      using that by (cases q) auto
    then show "\<forall>x\<in>{..<m}. \<forall>y\<in>{..<m}. x \<noteq> y \<longrightarrow> ?A x \<inter> ?A y = {}" by blast
  qed simp_all
  also have "\<dots> \<le> card ({..<length P} - {t})"
    using free by (intro card_mono) auto
  also have "\<dots> < length P" using t by simp
  finally show ?thesis .
qed

lemma scanned_inv:
  assumes inv: "scan_inv s" and t: "t < thread_count s" and pc: "pcs s ! t = Scanned c v"
  shows "scan_inv (goto t (after_scan c v) s)"
proof (rule scan_inv_local [OF inv t])
  note f = inv_facts [OF inv t]
  let ?S = "shared_snapshot_vector s ! t" and ?q = "after_scan c v"
  note sh = shared_facts [OF inv t]
  have "(\<Sum>x < version_count ?S. held (pcs s) t x + owed (pcs s) t x) < length (pcs s)"
    using f(2) t pc by (intro busy_threads) simp_all
  then have "\<exists>k < version_count ?S. slot_free (snapshot_ptr_vector ?S ! k)"
    using sh(1,2) f(2) pc by (intro free_slot_exists) simp_all
  then have "can_find ?S 0" by (auto simp: can_find_def)
  then show "pc_ok (thread_count s) (hist s) (shared_snapshot_vector s) t (started s ! t)
      (if ends_collect ?q then now s else mid s ! t) ?q"
    using f(10) by (auto simp: pc after_scan_def ends_collect_def split: call.splits)
  show "own_stable (hist s) t (started s ! t) ?q"
    using f(11) by (auto simp: pc own_stable_def)
qed (auto simp: pc after_scan_def split: call.splits)

lemma searching_inv:
  assumes inv: "scan_inv s" and t: "t < thread_count s" and pc: "pcs s ! t = Searching w v i"
  shows "\<exists>q. search_step t w v i s = Inr (goto t q s) \<and> scan_inv (goto t q s)"
proof -
  note f = inv_facts [OF inv t]
  let ?S = "shared_snapshot_vector s ! t"
  have v: "view_at (hist s) (started s ! t) (length (hist s) - 1) v"
    and find: "can_find ?S i" using f(10) by (simp_all add: pc)
  then obtain k where k: "i \<le> k" "k < version_count ?S" "slot_free (snapshot_ptr_vector ?S ! k)"
    and first: "snapshot_ptr_vector ?S ! cur ?S = None \<longrightarrow> i = 0" by (auto simp: can_find_def)
  let ?q = "if slot_free (snapshot_ptr_vector ?S ! i) then Storing w v i else Searching w v (i + 1)"
  have "search_step t w v i s = Inr (goto t ?q s)"
    using k by (simp add: search_step_def)
  moreover have "scan_inv (goto t ?q s)"
  proof (rule scan_inv_local [OF inv t])
    have c0: "cur ?S = 0" if "snapshot_ptr_vector ?S ! cur ?S = None"
      using shared_facts(2) [OF inv t] that by (simp add: pc ss_inv_def wm_ok_def)
    have "can_find ?S (i + 1)" if "\<not> slot_free (snapshot_ptr_vector ?S ! i)"
    proof -
      have "i \<noteq> k" using that k by auto
      moreover have "snapshot_ptr_vector ?S ! cur ?S \<noteq> None"
      proof
        assume none: "snapshot_ptr_vector ?S ! cur ?S = None"
        then have "snapshot_ptr_vector ?S ! i = None" using first c0 by simp
        then show False using that by (simp add: slot_free_def)
      qed
      ultimately show ?thesis using k by (auto simp: can_find_def intro!: exI [of _ k])
    qed
    then show "pc_ok (thread_count s) (hist s) (shared_snapshot_vector s) t (started s ! t)
      (if ends_collect ?q then now s else mid s ! t) ?q"
      using v k first by (auto simp: ends_collect_def)
  qed (use f(11) pc in \<open>auto simp: own_stable_def\<close>)
  ultimately show ?thesis by blast
qed

section \<open>Steps on the reference counts\<close>

lemma set_shared_fields [simp]:
  "thread_count (set_shared i ss s) = thread_count s" "hist (set_shared i ss s) = hist s"
  "pcs (set_shared i ss s) = pcs s" "started (set_shared i ss s) = started s"
  "mid (set_shared i ss s) = mid s" "takers (set_shared i ss s) = takers s"
  "now (set_shared i ss s) = now s"
  by (simp_all add: set_shared_def now_def)

lemma held_move:
  assumes "t < length P" and "\<And>y. holds j y q \<longleftrightarrow> y = x \<and> b" and "\<And>y. holds j y (P ! t) \<longleftrightarrow> y = x \<and> a"
  shows "held (P[t := q]) j = (held P j)(x := held P j x - of_bool a + of_bool b)"
proof (rule ext)
  fix y
  have "0 < held P j x" if a using held_pos [of t P j x] assms that by simp
  then show "held (P[t := q]) j y = ((held P j)(x := held P j x - of_bool a + of_bool b)) y"
    using held_upd [of t P q j y] assms by (cases "y = x"; cases a; cases b) simp_all
qed

lemma owed_move:
  assumes "t < length P" and "\<And>y. owes j y t q \<longleftrightarrow> y = x \<and> b" and "\<And>y. owes j y t (P ! t) \<longleftrightarrow> y = x \<and> a"
  shows "owed (P[t := q]) j = (owed P j)(x := owed P j x - of_bool a + of_bool b)"
proof (rule ext)
  fix y
  have "0 < owed P j x" if a using owed_pos [of t P j x] assms that by simp
  then show "owed (P[t := q]) j y = ((owed P j)(x := owed P j x - of_bool a + of_bool b)) y"
    using owed_upd [of t P q j y] assms by (cases "y = x"; cases a; cases b) simp_all
qed

lemma acquiring_inv:
  assumes inv: "scan_inv s" and t: "t < thread_count s" and pc: "pcs s ! t = Acquiring c i"
  shows "\<exists>s'. acquire_step t c i s = Inr s' \<and> scan_inv s'"
proof -
  note f = inv_facts [OF inv t]
  let ?n = "thread_count s" and ?S = "shared_snapshot_vector s ! i" and ?H = "hist s" and ?P = "pcs s"
    and ?st = "started s ! t"
  have i: "i < ?n" and two: "stamp (?H ! ?st ! i) + 2 \<le> stamp (last ?H ! i)"
    using f(10) by (simp_all add: pc)
  have "?H ! ?st ! t = last ?H ! t" using f(9,11) by (simp add: pc own_stable_def)
  then have it: "i \<noteq> t" using two by auto
  note sh = shared_facts [OF inv i]
  from sh(3) two obtain k where pub: "published ?S (wm_of (?P ! i))" and k: "k < length ?H"
    "slot_view ?S (cur ?S) = Some (?H ! k)" "stamp (last ?H ! i) \<le> stamp (?H ! k ! i) + 1"
    by (auto simp: pub_ok_def)
  have kst: "?st \<le> k"
  proof (rule ccontr)
    assume "\<not> ?st \<le> k"
    then have "stamp (?H ! k ! i) \<le> stamp (?H ! ?st ! i)" using f(9) by (intro hist_mono(1) [OF f(6) _ _ i]) auto
    then show False using two k(3) by simp
  qed
  then have va: "view_at ?H ?st (length ?H - 1) (?H ! k)"
    using k(1) by (auto simp: view_at_def intro!: exI [of _ k])
  have new: "t \<notin> takers s ! i"
  proof
    assume "t \<in> takers s ! i"
    then have "stamp (?H ! k ! i) \<le> stamp (?H ! ?st ! i)" using sh(4) pc k(2) by (auto simp: takers_ok_def)
    then show False using two k(3) by simp
  qed
  have sub: "takers s ! i \<subseteq> {..<?n}" "card (takers s ! i) = refs ?S" using sh(4) by (simp_all add: takers_ok_def)
  then have fin: "finite (takers s ! i)" by (meson finite_lessThan finite_subset)
  have "card (insert t (takers s ! i)) \<le> card {..<?n}" using sub t by (intro card_mono) auto
  then have room: "refs ?S < ?n" using new fin sub by simp
  obtain ss' old where add: "outer_fetch_add ?S = (ss', old)" by fastforce
  note acq = outer_fetch_add_inv [OF sh(2) add room pub]
  have len: "cur ?S < length (snapshot_ptr_vector ?S)" using sh(2) by (simp add: ss_inv_def)
  have "acquire ?S = Inr (ss', cur ?S)" using add acq(4,6) len k(2)
    by (auto simp: acquire_def get_slot_def slot_view_def)
  then have step: "acquire_step t c i s = Inr (goto t (Borrowing c i (cur ?S) []) (set_shared i ss' s)
      \<lparr>takers := (takers s)[i := insert t (takers s ! i)]\<rparr>)"
    by (simp add: acquire_step_def)
  let ?q = "Borrowing c i (cur ?S) []"
  have held: "held (?P[t := ?q]) i = (held ?P i)(cur ?S := held ?P i (cur ?S) + 1)"
    using t f(2) pc by (subst held_move [where x = "cur ?S" and a = False and b = True]) auto
  have owed: "owed (?P[t := ?q]) i = owed ?P i" using t f(2) pc by (intro owed_same) simp_all
  have others: "by_others ?S ss'" using acq by (simp add: by_others_def slot_view_def)
  have "scan_inv (goto t ?q (set_shared i ss' s)\<lparr>takers := (takers s)[i := insert t (takers s ! i)]\<rparr>)"
  proof (rule scan_inv_update [OF inv t i, where ss' = ss' and q = ?q and md' = "mid s"
        and K = "insert t (takers s ! i)"])
    show "pub_ok ?H ss' i (?P[t := ?q] ! i)"
      using sh(3) others it by (simp add: pub_ok_same)
    show "takers_ok ?n ?H ss' (insert t (takers s ! i)) (started s) (?P[t := ?q]) i"
      using sh(4) acq(2-4) new fin t f(2) unfolding takers_ok_def
      by (auto simp: nth_list_update slot_view_def)
    show "pc_ok ?n ?H ((shared_snapshot_vector s)[i := ss']) t ?st (mid s ! t) ?q"
      using i k(2) va acq(4,5) len f(1) sh(1,2)
      by (auto simp: slot_view_def ss_inv_def)
    show "ss_inv ?n ss' (held (?P[t := ?q]) i) (owed (?P[t := ?q]) i) (wm_of (?P[t := ?q] ! i))"
      using acq(1) held owed it by simp
  qed (use acq(5) f(3,11) pc others it in \<open>auto simp: goto_def set_shared_def ends_collect_def own_stable_def by_others_def\<close>)
  then show ?thesis using step by blast
qed

lemma held_slot:
  assumes "ss_inv N ss h p wm" and "x < version_count ss" and "0 < h x \<or> 0 < p x"
  obtains sn where "snapshot_ptr_vector ss ! x = Some sn" "get_slot ss x = Inr sn"
proof -
  have "slot_ok ss h p wm x" using assms(1,2) by (rule ss_inv_slot)
  then obtain sn where "snapshot_ptr_vector ss ! x = Some sn"
    using assms(3) by (auto simp: slot_ok_def split: option.splits)
  then show ?thesis using that assms(1,2) by (simp add: get_slot_def ss_inv_def)
qed

text \<open>A change of one version that keeps its registers, by any thread.\<close>

lemma scan_inv_put:
  assumes inv: "scan_inv s" and t: "t < thread_count s" and i: "i < thread_count s"
    and sn: "snapshot_ptr_vector (shared_snapshot_vector s ! i) ! x = Some sn"
    and sn': "registers sn' = registers sn" "recycle_flag sn \<longrightarrow> recycle_flag sn'"
    and ctr: "ss_inv (thread_count s) (put_slot (shared_snapshot_vector s ! i) x sn')
      (held ((pcs s)[t := q]) i) (owed ((pcs s)[t := q]) i) (wm_of ((pcs s)[t := q] ! i))"
    and mine: "pc_ok (thread_count s) (hist s)
      ((shared_snapshot_vector s)[i := put_slot (shared_snapshot_vector s ! i) x sn']) t
      (started s ! t) (mid s ! t) q" "\<not> ends_collect q" "q \<noteq> Idle" "pcs s ! t \<noteq> Idle"
    and same: "\<And>j x. j \<noteq> i \<Longrightarrow> holds j x q = holds j x (pcs s ! t)"
      "\<And>j x. j \<noteq> i \<Longrightarrow> owes j x t q = owes j x t (pcs s ! t)"
    and mode: "i \<noteq> t \<Longrightarrow> wm_of q = wm_of (pcs s ! t)" "post_swap q = post_swap (pcs s ! t)"
      "\<And>y. wm_of q \<noteq> Installed y" "\<And>y. wm_of (pcs s ! t) \<noteq> Installed y"
    and pre: "\<not> pre_acquire q"
  shows "scan_inv (goto t q (set_shared i (put_slot (shared_snapshot_vector s ! i) x sn') s))"
proof -
  note f = inv_facts [OF inv t] and sh = shared_facts [OF inv i]
  let ?ss' = "put_slot (shared_snapshot_vector s ! i) x sn'"
  have o: "by_others (shared_snapshot_vector s ! i) ?ss'" using sn sn' by (rule by_others_put)
  have pub: "pub_ok (hist s) ?ss' i ((pcs s)[t := q] ! i)"
  proof (cases "i = t")
    case True
    have "pub_ok (hist s) ?ss' i (pcs s ! t)" using sh(3) o True by (simp add: pub_ok_same)
    then have "pub_ok (hist s) ?ss' i q"
      using mode(2-4) by (simp add: pub_ok_def published_def)
    then show ?thesis using True t f(2) by simp
  next
    case False
    then show ?thesis using sh(3) o by (simp add: pub_ok_same)
  qed
  show ?thesis
  proof (rule scan_inv_update [OF inv t i, where ss' = ?ss' and q = q and md' = "mid s" and K = "takers s ! i"])
    show "takers_ok (thread_count s) (hist s) ?ss' (takers s ! i) (started s) ((pcs s)[t := q]) i"
      using sh(4) t f(2) pre o by (intro takers_ok_move) (auto simp: by_others_def)
  qed (use pub ctr mine f(3,4,11) i o same mode pre in
    \<open>auto simp: goto_def set_shared_def own_stable_def by_others_def\<close>)
qed

lemma releasing_inv:
  assumes inv: "scan_inv s" and t: "t < thread_count s" and pc: "pcs s ! t = Releasing c i x v"
  shows "\<exists>s'. release_step t c i x v s = Inr s' \<and> scan_inv s'"
proof -
  note f = inv_facts [OF inv t]
  let ?S = "shared_snapshot_vector s ! i" and ?P = "pcs s"
  have i: "i < thread_count s" "x < version_count ?S"
    and v: "view_at (hist s) (started s ! t) (length (hist s) - 1) v" using f(10) by (simp_all add: pc)
  note sh = shared_facts [OF inv i(1)]
  have pos: "0 < held ?P i x" using t f(2) pc by (intro held_pos [of t]) simp_all
  obtain sn where sn: "snapshot_ptr_vector ?S ! x = Some sn" "get_slot ?S x = Inr sn"
    using held_slot [OF sh(2) i(2)] pos by blast
  obtain sn' old where add: "inner_fetch_add sn 1 = (sn', old)" by fastforce
  let ?q = "if old + 1 = 0 then Flagging c i x v else Scanned c v"
  have step: "release_step t c i x v s = Inr (goto t ?q (set_shared i (put_slot ?S x sn') s))"
    using sn add by (simp add: release_step_def)
  have held: "held (?P[t := ?q]) i = (held ?P i)(x := held ?P i x - 1)"
    using t f(2) pc by (subst held_move [where x = x and a = True and b = False]) auto
  have owed: "owed (?P[t := ?q]) i = (if old + 1 = 0 then (owed ?P i)(x := owed ?P i x + 1) else owed ?P i)"
  proof (cases "old + 1 = 0")
    case True
    then show ?thesis using t f(2) pc
      by (simp, subst owed_move [where x = x and a = False and b = True]) auto
  next
    case False
    then show ?thesis using t f(2) pc by (simp, intro owed_same) simp_all
  qed
  have wm: "wm_of (?P[t := ?q] ! i) = wm_of (?P ! i)" using t f(2) pc by (cases "i = t") simp_all
  have reg: "registers sn' = registers sn" "recycle_flag sn' = recycle_flag sn"
    using add by (auto simp: inner_fetch_add_def)
  have "scan_inv (goto t ?q (set_shared i (put_slot ?S x sn') s))"
  proof (rule scan_inv_put [OF inv t i(1) sn(1) reg(1)])
    show "ss_inv (thread_count s) (put_slot ?S x sn') (held (?P[t := ?q]) i) (owed (?P[t := ?q]) i)
      (wm_of (?P[t := ?q] ! i))"
      unfolding held owed wm using sh(2) i(2) sn(1) pos add by (rule inner_fetch_add_inv)
  qed (use i v pc reg f(1) in \<open>auto simp: ends_collect_def\<close>)
  then show ?thesis using step by blast
qed

text \<open>The flag stores, after \<open>release()\<close> and after \<open>reset()\<close>.\<close>

lemma flag_inv:
  assumes inv: "scan_inv s" and t: "t < thread_count s" and i: "i < thread_count s"
    and x: "x < version_count (shared_snapshot_vector s ! i)"
    and p: "\<And>j y. owes j y t (pcs s ! t) \<longleftrightarrow> j = i \<and> y = x" "\<And>j y. \<not> holds j y (pcs s ! t)"
      "wm_of (pcs s ! t) = Quiet" "post_swap q = post_swap (pcs s ! t)" "pcs s ! t \<noteq> Idle"
    and q: "\<And>j y. \<not> owes j y t q" "\<And>j y. \<not> holds j y q" "wm_of q = Quiet" "q \<noteq> Idle"
      "\<not> pre_acquire q" "\<not> ends_collect q"
      "\<And>S. length S = thread_count s \<Longrightarrow> pc_ok (thread_count s) (hist s) S t (started s ! t) (mid s ! t) q"
  shows "\<exists>s'. flag_step t i x q s = Inr s' \<and> scan_inv s'"
proof -
  note f = inv_facts [OF inv t] and sh = shared_facts [OF inv i]
  let ?S = "shared_snapshot_vector s ! i" and ?P = "pcs s"
  have pos: "0 < owed ?P i x" using t f(2) p(1) by (intro owed_pos [of t]) simp_all
  obtain sn where sn: "snapshot_ptr_vector ?S ! x = Some sn" "get_slot ?S x = Inr sn"
    using held_slot [OF sh(2) x] pos by blast
  have step: "flag_step t i x q s = Inr (goto t q (set_shared i (put_slot ?S x (set_recycle_flag sn)) s))"
    using sn by (simp add: flag_step_def)
  have held: "held (?P[t := q]) i = held ?P i" using t f(2) p q by (intro held_same) simp_all
  have owed: "owed (?P[t := q]) i = (owed ?P i)(x := owed ?P i x - 1)"
    using t f(2) p q by (subst owed_move [where x = x and a = True and b = False]) auto
  have wm: "wm_of (?P[t := q] ! i) = wm_of (?P ! i)" using t f(2) p q by (cases "i = t") simp_all
  have "scan_inv (goto t q (set_shared i (put_slot ?S x (set_recycle_flag sn)) s))"
  proof (rule scan_inv_put [OF inv t i sn(1)])
    show "ss_inv (thread_count s) (put_slot ?S x (set_recycle_flag sn)) (held (?P[t := q]) i)
      (owed (?P[t := q]) i) (wm_of (?P[t := q] ! i))"
      unfolding held owed wm using sh(2) x sn(1) pos by (rule set_recycle_flag_inv)
  qed (use p q f(1) in \<open>auto simp: set_recycle_flag_def\<close>)
  then show ?thesis using step by blast
qed

lemma flagging_inv:
  assumes inv: "scan_inv s" and t: "t < thread_count s" and pc: "pcs s ! t = Flagging c i x v"
  shows "\<exists>s'. flag_step t i x (Scanned c v) s = Inr s' \<and> scan_inv s'"
proof (rule flag_inv [OF inv t])
  show "i < thread_count s" "x < version_count (shared_snapshot_vector s ! i)"
    using inv_facts(10) [OF inv t] by (simp_all add: pc)
  show "pc_ok (thread_count s) (hist s) S t (started s ! t) (mid s ! t) (Scanned c v)" for S
    using inv_facts(10) [OF inv t] by (simp add: pc)
qed (auto simp: pc ends_collect_def)

lemma reflagging_inv:
  assumes inv: "scan_inv s" and t: "t < thread_count s" and pc: "pcs s ! t = Reflagging w x"
  shows "\<exists>s'. flag_step t t x (Writing w) s = Inr s' \<and> scan_inv s'"
proof (rule flag_inv [OF inv t t])
  show "x < version_count (shared_snapshot_vector s ! t)"
    using inv_facts(10) [OF inv t] by (simp add: pc)
qed (auto simp: pc ends_collect_def)

section \<open>The writer's steps\<close>

lemma registers_Snapshot_of [simp]: "registers (Snapshot_of v) = v"
  by (simp add: Snapshot_of_def map_idI)

lemma storing_inv:
  assumes inv: "scan_inv s" and t: "t < thread_count s" and pc: "pcs s ! t = Storing w v i"
  shows "scan_inv (store_step t w v i s)"
proof -
  note f = inv_facts [OF inv t] and sh = shared_facts [OF inv t]
  let ?S = "shared_snapshot_vector s ! t" and ?P = "pcs s" and ?q = "Swapping w i"
  let ?ss' = "ss_install ?S i (Snapshot_of v)"
  have i: "i < version_count ?S" "slot_free (snapshot_ptr_vector ?S ! i)"
    and first: "snapshot_ptr_vector ?S ! cur ?S = None \<Longrightarrow> i = 0"
    and v: "view_at (hist s) (started s ! t) (length (hist s) - 1) v"
    using f(10) by (simp_all add: pc)
  have quiet: "ss_inv (thread_count s) ?S (held ?P t) (owed ?P t) Quiet" using sh(2) by (simp add: pc)
  have len: "length (snapshot_ptr_vector ?S) = version_count ?S" "cur ?S < version_count ?S"
    using quiet by (simp_all add: ss_inv_def)
  have unref: "held ?P t i = 0" using free_slot_unreferenced [OF quiet i] by simp
  have view: "slot_view ?ss' x = (if x = i then Some v else slot_view ?S x)" for x
    using slot_view_install [of i ?S "Snapshot_of v" x] i len by simp
  have outer: "cur ?ss' = cur ?S" "refs ?ss' = refs ?S" "version_count ?ss' = version_count ?S"
    by (simp_all add: ss_install_def)
  have none: "i = cur ?S \<and> refs ?S = 0" if "snapshot_ptr_vector ?S ! cur ?S = None"
    using first [OF that] quiet that by (simp add: ss_inv_def wm_ok_def)
  have some: "i \<noteq> cur ?S" if "snapshot_ptr_vector ?S ! cur ?S \<noteq> None"
    using ss_inv_slot [OF quiet len(2)] i(2) that
    by (auto simp: slot_ok_def pending_refs_def counts_up_def slot_free_def get_recycle_flag_def)
  have cs: "held (?P[t := ?q]) t = held ?P t" "owed (?P[t := ?q]) t = owed ?P t"
    using t f(2) pc by (intro held_same owed_same; simp)+
  have ptr: "snapshot_ptr_vector ?ss' ! cur ?S \<noteq> None"
    by (cases "snapshot_ptr_vector ?S ! cur ?S = None")
       (use view [of "cur ?S"] none some in \<open>auto simp: slot_view_def split: if_splits\<close>)
  have "scan_inv (goto t ?q (set_shared t ?ss' s))"
  proof (rule scan_inv_update [OF inv t t, where ss' = ?ss' and q = ?q and md' = "mid s" and K = "takers s ! t"])
    show "ss_inv (thread_count s) ?ss' (held (?P[t := ?q]) t) (owed (?P[t := ?q]) t) (wm_of (?P[t := ?q] ! t))"
      using ss_install_inv(1) [OF quiet i first] cs t f(2) by simp
    show "pub_ok (hist s) ?ss' t (?P[t := ?q] ! t)"
    proof (cases "snapshot_ptr_vector ?S ! cur ?S = None")
      case True
      then show ?thesis using sh(3) none pc t f(2) outer by (simp add: pub_ok_def published_def)
    next
      case False
      then show ?thesis using sh(3) some pc t f(2) outer ptr view
        by (simp add: pub_ok_def published_def)
    qed
    show "takers_ok (thread_count s) (hist s) ?ss' (takers s ! t) (started s) (?P[t := ?q]) t"
    proof (cases "snapshot_ptr_vector ?S ! cur ?S = None")
      case True
      then have "finite (takers s ! t) \<and> card (takers s ! t) = 0"
        using sh(4) none finite_subset [OF _ finite_lessThan] by (auto simp: takers_ok_def)
      then have "takers s ! t = {}" by (metis card_0_eq)
      then show ?thesis using outer(2) none [OF True] by (auto simp: takers_ok_def)
    next
      case False
      then have "slot_view ?ss' (cur ?S) = slot_view ?S (cur ?S)" using view some by simp
      then show ?thesis using sh(4) t f(2) unfolding takers_ok_def outer
        by (metis nth_list_update_neq nth_list_update_eq pre_acquire.simps(11))
    qed
    show "slot_view ?ss' x = slot_view ?S x" if "u < thread_count s" "u \<noteq> t" "holds t x (?P ! u)" for u x
      using held_pos [of u ?P t x] that f(2) unref view by auto
  qed (use f(1,3,4,11) v view outer pc t in \<open>auto simp: goto_def set_shared_def ends_collect_def own_stable_def\<close>)
  then show ?thesis by (simp add: store_step_def)
qed

lemma swapping_inv:
  assumes inv: "scan_inv s" and t: "t < thread_count s" and pc: "pcs s ! t = Swapping w i"
  shows "\<exists>s'. swap_step t w i s = Inr s' \<and> scan_inv s'"
proof -
  note f = inv_facts [OF inv t] and sh = shared_facts [OF inv t]
  let ?S = "shared_snapshot_vector s ! t" and ?P = "pcs s" and ?H = "hist s"
  obtain ss' old where sw: "ss_swap ?S i = (ss', old)" by fastforce
  have ins: "ss_inv (thread_count s) ?S (held ?P t) (owed ?P t) (Installed i)" using sh(2) by (simp add: pc)
  note swap = ss_swap_inv [OF ins sw]
  have b: "refs ?S < 2 ^ 31" "i < 2 ^ 32" "i < version_count ?S"
    using ins by (auto simp: ss_inv_def wm_ok_def)
  have old: "old = outer_cnt_with_index ?S" using sw by (simp add: ss_swap_def)
  have cnt: "EXTRACT_REFERENCE_CNT old = word_of_nat (refs ?S)" unfolding old using b(1) by (rule extract_refs)
  then have nonneg: "0 \<le>s EXTRACT_REFERENCE_CNT old" using b by (simp add: word_sle_eq sint32_of_nat)
  let ?q = "if cur ?S \<noteq> i then Resetting w (cur ?S) (word_of_nat (refs ?S)) else Writing w"
  have step: "swap_step t w i s = Inr (goto t ?q (set_shared t ss' s\<lparr>takers := (takers s)[t := {}]\<rparr>))"
    using sw nonneg index_mask_neq_iff [OF b(2), of ?S] cnt by (simp add: swap_step_def Let_def old)
  obtain v where v: "slot_view ?S i = Some v" "view_at ?H (started s ! t) (length ?H - 1) v"
    using f(10) by (auto simp: pc)
  then obtain k where k: "started s ! t \<le> k" "k < length ?H" "v = ?H ! k"
    using f(7) unfolding view_at_def by (metis Suc_pred' le_imp_less_Suc length_greater_0_conv)
  then have own: "?H ! k ! t = last ?H ! t" using f(11) by (simp add: own_stable_def pc)
  have wm: "wm_of ?q = (if cur ?S = i then Quiet else Unreset (cur ?S) (refs ?S))"
    using b(1) by (simp add: unat_of_nat)
  have cs: "held (?P[t := ?q]) t = held ?P t" "owed (?P[t := ?q]) t = owed ?P t"
    using t f(2) pc by (intro held_same owed_same; simp)+
  have "scan_inv (goto t ?q (set_shared t ss' s\<lparr>takers := (takers s)[t := {}]\<rparr>))"
  proof (rule scan_inv_update [OF inv t t, where ss' = ss' and q = ?q and md' = "mid s" and K = "{}"])
    show "ss_inv (thread_count s) ss' (held (?P[t := ?q]) t) (owed (?P[t := ?q]) t) (wm_of (?P[t := ?q] ! t))"
      unfolding cs using swap(1) t f(2) wm by simp
    have "published ss' (wm_of ?q)" using v(1) swap wm by (auto simp: published_def slot_view_def)
    then show "pub_ok ?H ss' t (?P[t := ?q] ! t)"
      using v(1) k own swap t f(2) unfolding pub_ok_def by (auto simp: slot_view_def intro!: exI [of _ k])
    show "takers_ok (thread_count s) ?H ss' {} (started s) (?P[t := ?q]) t"
      using swap(3) by (simp add: takers_ok_def)
  qed (use f(1,3,4,11) swap pc t in \<open>auto simp: goto_def set_shared_def ends_collect_def own_stable_def slot_view_def\<close>)
  then show ?thesis using step by blast
qed

lemma resetting_inv:
  assumes inv: "scan_inv s" and t: "t < thread_count s" and pc: "pcs s ! t = Resetting w x k"
  shows "\<exists>s'. reset_step t w x k s = Inr s' \<and> scan_inv s'"
proof -
  note f = inv_facts [OF inv t] and sh = shared_facts [OF inv t]
  let ?S = "shared_snapshot_vector s ! t" and ?P = "pcs s"
  have un: "ss_inv (thread_count s) ?S (held ?P t) (owed ?P t) (Unreset x (unat k))" using sh(2) by (simp add: pc)
  then have x: "x < version_count ?S" "length (snapshot_ptr_vector ?S) = version_count ?S"
    by (simp_all add: ss_inv_def wm_ok_def)
  obtain sn where sn: "snapshot_ptr_vector ?S ! x = Some sn" using un by (auto simp: ss_inv_def wm_ok_def)
  obtain sn' old where sub: "inner_fetch_sub sn k = (sn', old)" by fastforce
  let ?q = "if old - k = 0 then Reflagging w x else Writing w"
  have step: "reset_step t w x k s = Inr (goto t ?q (set_shared t (put_slot ?S x sn') s))"
    using sn sub x by (simp add: reset_step_def get_slot_def)
  have held: "held (?P[t := ?q]) t = held ?P t" using t f(2) pc by (intro held_same) auto
  have owed: "owed (?P[t := ?q]) t = (if old - k = 0 then (owed ?P t)(x := owed ?P t x + 1) else owed ?P t)"
  proof (cases "old - k = 0")
    case True
    then show ?thesis using t f(2) pc
      by (simp, subst owed_move [where x = x and a = False and b = True]) auto
  next
    case False
    then show ?thesis using t f(2) pc by (simp, intro owed_same) simp_all
  qed
  have reg: "registers sn' = registers sn" "recycle_flag sn' = recycle_flag sn"
    using sub by (auto simp: inner_fetch_sub_def)
  have wm: "wm_of (?P[t := ?q] ! t) = Quiet" using t f(2) by simp
  have "scan_inv (goto t ?q (set_shared t (put_slot ?S x sn') s))"
  proof (rule scan_inv_put [OF inv t t sn reg(1)])
    have k: "inner_fetch_sub sn (word_of_nat (unat k)) = (sn', old)" using sub by simp
    show "ss_inv (thread_count s) (put_slot ?S x sn') (held (?P[t := ?q]) t) (owed (?P[t := ?q]) t)
      (wm_of (?P[t := ?q] ! t))"
      unfolding held owed wm using inner_fetch_sub_inv [OF un sn k] by simp
  qed (use x pc reg f(1) t in \<open>auto simp: ends_collect_def\<close>)
  then show ?thesis using step by blast
qed

section \<open>The write and the call\<close>

lemma seen_at_append:
  "hi < length H \<Longrightarrow> seen_at (H @ [v]) lo hi j r = seen_at H lo hi j r"
  unfolding seen_at_def by (rule iff_exI) (auto simp: nth_append)

lemma seen_at_grow:
  assumes "H \<noteq> []" and "seen_at H lo (length H - 1) j r"
  shows "seen_at (H @ [v]) lo (length H) j r"
proof -
  obtain a where a: "lo \<le> a" "a \<le> length H - 1" "r = H ! a ! j" using assms(2) by (auto simp: seen_at_def)
  moreover have "a < length H" using a(2) assms(1) by (cases H) auto
  ultimately show ?thesis by (auto simp: seen_at_def nth_append intro!: exI [of _ a])
qed

lemma view_at_grow:
  assumes "H \<noteq> []" and "view_at H lo (length H - 1) r"
  shows "view_at (H @ [v]) lo (length H) r"
proof -
  obtain a where a: "lo \<le> a" "a \<le> length H - 1" "r = H ! a" using assms(2) by (auto simp: view_at_def)
  moreover have "a < length H" using a(2) assms(1) by (cases H) auto
  ultimately show ?thesis by (auto simp: view_at_def nth_append intro!: exI [of _ a])
qed

text \<open>What a thread knows survives the write of another register.\<close>

lemma pc_ok_write:
  assumes ok: "pc_ok n H S t st md q" and H: "H \<noteq> []" and st: "st < length H"
    and le: "\<And>j. j < n \<Longrightarrow> stamp (last H ! j) \<le> stamp (v ! j)"
  shows "pc_ok n (H @ [v]) S t st md q"
proof (cases q)
  case (Acquiring c i)
  then show ?thesis using ok le [of i] st by (auto simp: nth_append)
next
  case (Collecting c cc first second same)
  then show ?thesis using ok H st by (auto simp: nth_append seen_at_append intro: seen_at_grow)
qed (use ok H st seen_at_grow [OF H] view_at_grow [OF H] in \<open>auto simp: nth_append\<close>)

lemma hist_ok_write:
  assumes H: "hist_ok n H" and t: "t < n" and r: "stamp (last H ! t) < stamp r"
  shows "hist_ok n (H @ [(last H)[t := r]])"
proof -
  let ?v = "(last H)[t := r]"
  have ne: "H \<noteq> []" and len: "\<And>a. a < length H \<Longrightarrow> length (H ! a) = n"
    using H by (simp_all add: hist_ok_def)
  then have lenl: "length (last H) = n" by (simp add: last_conv_nth)
  have step: "stamp (H ! a ! j) \<le> stamp (?v ! j) \<and>
      (stamp (H ! a ! j) = stamp (?v ! j) \<longrightarrow> H ! a ! j = ?v ! j)" if "a < length H" "j < n" for a j
  proof -
    have "stamp (H ! a ! j) \<le> stamp (last H ! j)"
      "stamp (H ! a ! j) = stamp (last H ! j) \<longrightarrow> H ! a ! j = last H ! j"
      using hist_mono [OF H, of a "length H - 1" j] that ne by (auto simp: last_conv_nth)
    then show ?thesis using r lenl t by (cases "j = t") auto
  qed
  show ?thesis unfolding hist_ok_def
  proof (intro conjI allI impI)
    show "length ((H @ [?v]) ! a) = n" if "a < length (H @ [?v])" for a
      using that len lenl by (cases "a < length H") (auto simp: nth_append)
  next
    fix a b j assume ab: "a \<le> b" "b < length (H @ [?v])" "j < n"
    show "stamp ((H @ [?v]) ! a ! j) \<le> stamp ((H @ [?v]) ! b ! j)"
      using ab step [of a j] hist_mono(1) [OF H ab(1) _ ab(3)]
      by (cases "b < length H"; cases "a < length H") (auto simp: nth_append)
    show "(H @ [?v]) ! a ! j = (H @ [?v]) ! b ! j"
      if "stamp ((H @ [?v]) ! a ! j) = stamp ((H @ [?v]) ! b ! j)"
      using ab step [of a j] hist_mono(2) [OF H ab(1) _ ab(3)] that
      by (cases "b < length H"; cases "a < length H") (auto simp: nth_append)
  qed simp
qed

lemma pub_ok_grow:
  assumes "pub_ok H ss j q" and same: "v ! j = last H ! j"
  shows "pub_ok (H @ [v]) ss j q"
proof (cases "stamp (last H ! j) = 0 \<and> \<not> post_swap q \<and> \<not> published ss (wm_of q)")
  case True
  then show ?thesis using same by (simp add: pub_ok_def)
next
  case False
  then obtain k where p: "published ss (wm_of q)" and k: "k < length H"
    "slot_view ss (cur ss) = Some (H ! k)" "stamp (last H ! j) \<le> stamp (H ! k ! j) + 1"
    "post_swap q \<longrightarrow> stamp (H ! k ! j) = stamp (last H ! j)"
    using assms(1) unfolding pub_ok_def by blast
  then show ?thesis using same unfolding pub_ok_def
    by (intro disjI2 conjI exI [of _ k]) (simp_all add: nth_append)
qed

lemma writing_inv:
  assumes inv: "scan_inv s" and t: "t < thread_count s" and pc: "pcs s ! t = Writing w"
    and step: "write_step t w s = Inr s'"
  shows "scan_inv s'"
proof -
  note f = inv_facts [OF inv t]
  let ?n = "thread_count s" and ?H = "hist s" and ?P = "pcs s" and ?P' = "(pcs s)[t := Idle]"
    and ?S = "shared_snapshot_vector s"
  obtain r where r: "reg_write (last ?H ! t) w = Inr r"
    using step f(8) by (auto simp: write_step_def split: sum.splits)
  let ?v = "(last ?H)[t := r]" let ?H' = "?H @ [?v]"
  have s': "s' = goto t Idle (s\<lparr>atomic_register_vector := ?v, hist := ?H'\<rparr>)"
    using step r f(8) by (simp add: write_step_def Let_def)
  have st: "stamp r = stamp (last ?H ! t) + 1" using r by (rule reg.st_wr)
  have len: "length (last ?H) = ?n" using f(6,7) by (simp add: hist_ok_def last_conv_nth)
  have fields: "thread_count s' = ?n" "hist s' = ?H'" "pcs s' = ?P'" "started s' = started s"
    "mid s' = mid s" "takers s' = takers s" "shared_snapshot_vector s' = ?S"
    "atomic_register_vector s' = ?v"
    by (simp_all add: s' goto_def ends_collect_def)
  have cs: "held ?P' j = held ?P j" "owed ?P' j = owed ?P j" for j
    using t f(2) pc by (intro held_same owed_same; simp)+
  have "shape_ok s'"
    using scan_invD(1) [OF inv] hist_ok_write [OF f(6) t, of r] st by (simp add: shape_ok_def fields)
  moreover have "shared_ok s' j" if j: "j < ?n" for j
  proof -
    note sh = shared_facts [OF inv j]
    have wm: "wm_of (?P' ! j) = wm_of (?P ! j)" using t f(2) pc by (cases "j = t") simp_all
    have "pub_ok ?H' (?S ! j) j (?P' ! j)"
    proof (cases "j = t")
      case True
      then have pub: "published (?S ! t) Quiet" using sh(3) pc by (simp add: pub_ok_def)
      obtain k where k: "k < length ?H" "slot_view (?S ! t) (cur (?S ! t)) = Some (?H ! k)"
        "stamp (?H ! k ! t) = stamp (last ?H ! t)" using sh(3) pc True by (auto simp: pub_ok_def)
      have "?H' ! k = ?H ! k" using k(1) by (simp add: nth_append)
      then show ?thesis using True pub k st t f(2) len
        unfolding pub_ok_def by (auto intro!: exI [of _ k])
    next
      case False
      then show ?thesis using pub_ok_grow [OF sh(3), of ?v] by simp
    qed
    moreover have "takers_ok ?n ?H' (?S ! j) (takers s ! j) (started s) ?P' j"
    proof -
      have "?H' ! (started s ! u) = ?H ! (started s ! u)" if "u < ?n" for u
        using inv_facts(9) [OF inv that] by (simp add: nth_append)
      moreover have "pre_acquire (?P' ! u) \<Longrightarrow> pre_acquire (?P ! u)" for u
        using t f(2) by (cases "u = t") simp_all
      ultimately show ?thesis using sh(4) unfolding takers_ok_def by (metis lessThan_iff subsetD)
    qed
    ultimately show ?thesis using sh(1,2) cs wm by (simp add: shared_ok_def fields)
  qed
  moreover have "thread_ok s' u" if u: "u < ?n" for u
  proof -
    note fu = inv_facts [OF inv u]
    show ?thesis
    proof (cases "u = t")
      case True
      then show ?thesis using fu(9) t f(2) by (simp add: thread_ok_def fields own_stable_def)
    next
      case False
      have "stamp (last ?H ! j) \<le> stamp (?v ! j)" if "j < ?n" for j
        using that len t st by (cases "j = t") simp_all
      then have "pc_ok ?n ?H' ?S u (started s ! u) (mid s ! u) (?P ! u)"
        by (rule pc_ok_write [OF fu(10,7,9)])
      moreover have "own_stable ?H' u (started s ! u) (?P ! u)"
        using fu(11) False by (auto simp: own_stable_def nth_append)
      ultimately show ?thesis using fu(9) False by (simp add: thread_ok_def fields)
    qed
  qed
  ultimately show ?thesis by (simp add: scan_inv_def fields)
qed

lemma call_inv:
  assumes inv: "scan_inv s" and t: "t < thread_count s" and pc: "pcs s ! t = Idle"
  shows "scan_inv (call_step t c s)"
proof -
  note f = inv_facts [OF inv t]
  let ?n = "thread_count s" and ?H = "hist s" and ?P = "pcs s" and ?P' = "(pcs s)[t := Copying c []]"
    and ?S = "shared_snapshot_vector s" and ?st = "(started s)[t := now s]"
  have fields: "thread_count (call_step t c s) = ?n" "hist (call_step t c s) = ?H"
    "pcs (call_step t c s) = ?P'" "started (call_step t c s) = ?st"
    "mid (call_step t c s) = mid s" "takers (call_step t c s) = takers s"
    "shared_snapshot_vector (call_step t c s) = ?S"
    "atomic_register_vector (call_step t c s) = atomic_register_vector s"
    by (simp_all add: call_step_def)
  have cs: "held ?P' j = held ?P j" "owed ?P' j = owed ?P j" for j
    using t f(2) pc by (intro held_same owed_same; simp)+
  have now: "?H ! now s = last ?H" "now s < length ?H" using f(7) by (simp_all add: now_def last_conv_nth)
  have "shape_ok (call_step t c s)" using scan_invD(1) [OF inv] by (simp add: shape_ok_def fields)
  moreover have "shared_ok (call_step t c s) j" if j: "j < ?n" for j
  proof -
    note sh = shared_facts [OF inv j]
    have wm: "wm_of (?P' ! j) = wm_of (?P ! j)" "post_swap (?P' ! j) = post_swap (?P ! j)"
      using t f(2) pc by (cases "j = t"; simp)+
    have mine: "\<exists>v. slot_view (?S ! j) (cur (?S ! j)) = Some v \<and> stamp (v ! j) \<le> stamp (last ?H ! j)"
      if "t \<in> takers s ! j"
    proof -
      have "0 < refs (?S ! j)" using sh(4) that finite_subset [OF _ finite_lessThan]
        unfolding takers_ok_def by (metis card_gt_0_iff empty_iff)
      then have "published (?S ! j) (wm_of (?P ! j))" using sh(2)
        by (auto simp: ss_inv_def wm_ok_def published_def split: wmode.splits)
      then obtain k where k: "k < length ?H" "slot_view (?S ! j) (cur (?S ! j)) = Some (?H ! k)"
        using sh(3) by (auto simp: pub_ok_def)
      have "stamp (?H ! k ! j) \<le> stamp (?H ! now s ! j)"
        using k(1) now(2) by (intro hist_mono(1) [OF f(6) _ _ j]) (auto simp: now_def)
      then show ?thesis using k now by auto
    qed
    have "takers_ok ?n ?H (?S ! j) (takers s ! j) ?st ?P' j"
      using sh(4) mine now t f(2,5) unfolding takers_ok_def by (metis nth_list_update_eq nth_list_update_neq)
    then show ?thesis using sh(1-3) cs wm by (simp add: shared_ok_def fields pub_ok_def)
  qed
  moreover have "thread_ok (call_step t c s) u" if u: "u < ?n" for u
  proof (cases "u = t")
    case True
    then show ?thesis using now t f(2,5)
      by (auto simp: thread_ok_def fields own_stable_def now_def last_conv_nth dest!: le_antisym)
  next
    case False
    then show ?thesis using scan_invD(3) [OF inv u] by (simp add: thread_ok_def fields)
  qed
  ultimately show ?thesis by (simp add: scan_inv_def fields)
qed

section \<open>The step as a whole\<close>

text \<open>An access succeeds, except that a write stops at the timestamp bound.\<close>

lemma thread_access_inv:
  assumes inv: "scan_inv s" and t: "t < thread_count s"
  shows "case thread_access t s of
      Inl e \<Rightarrow> e = Assert_failed \<and> (\<exists>w. pcs s ! t = Writing w)
        \<and> stamp (atomic_register_vector s ! t) = 2 ^ 32 - 1
    | Inr s' \<Rightarrow> scan_inv s'"
proof (cases "pcs s ! t")
  case (Writing w)
  show ?thesis
  proof (cases "write_step t w s")
    case (Inl e)
    then have "reg_write (atomic_register_vector s ! t) w = Inl e"
      by (auto simp: write_step_def Let_def split: sum.splits)
    then have "e = Assert_failed \<and> stamp (atomic_register_vector s ! t) = 2 ^ 32 - 1"
      by (simp only: reg_write_fails_iff)
    then show ?thesis using Writing Inl by (simp add: thread_access_def)
  next
    case (Inr s')
    then show ?thesis using writing_inv [OF inv t Writing] Writing by (simp add: thread_access_def)
  qed
next
  case (Borrowing c i x acc)
  then show ?thesis using borrowing_inv [OF inv t Borrowing] by (auto simp: thread_access_def)
next
  case (Searching w v i)
  then show ?thesis using searching_inv [OF inv t Searching] by (auto simp: thread_access_def)
next
  case (Acquiring c i)
  then show ?thesis using acquiring_inv [OF inv t Acquiring] by (auto simp: thread_access_def)
next
  case (Releasing c i x v)
  then show ?thesis using releasing_inv [OF inv t Releasing] by (auto simp: thread_access_def)
next
  case (Flagging c i x v)
  then show ?thesis using flagging_inv [OF inv t Flagging] by (auto simp: thread_access_def)
next
  case (Swapping w i)
  then show ?thesis using swapping_inv [OF inv t Swapping] by (auto simp: thread_access_def)
next
  case (Resetting w x k)
  then show ?thesis using resetting_inv [OF inv t Resetting] by (auto simp: thread_access_def)
next
  case (Reflagging w x)
  then show ?thesis using reflagging_inv [OF inv t Reflagging] by (auto simp: thread_access_def)
qed (use inv copying_inv [OF inv t] collecting_inv [OF inv t] scanned_inv [OF inv t]
      storing_inv [OF inv t] in \<open>simp_all add: thread_access_def\<close>)

text \<open>No access leaves a vector.\<close>

lemma access_in_range:
  assumes inv: "scan_inv s" and t: "t < thread_count s"
  shows "access_in_range t s"
proof -
  note f = inv_facts [OF inv t] and sh = shared_facts [OF inv t]
  have "atomic_register_vector s = last (hist s)" "last (hist s) \<in> set (hist s)" using f(7,8) by simp_all
  then have regs: "length (atomic_register_vector s) = thread_count s"
    using f(6) unfolding hist_ok_def by (metis in_set_conv_nth)
  have ptrs: "length (snapshot_ptr_vector (shared_snapshot_vector s ! t)) = version_count (shared_snapshot_vector s ! t)"
    using sh(2) by (simp add: ss_inv_def)
  show ?thesis using f(1,10) t by (cases "pcs s ! t") (simp_all add: access_in_range_def regs ptrs Let_def)
qed

lemma thread_step_inv:
  assumes "scan_inv s" and "t < thread_count s"
  shows "case thread_step t s of
      Inl e \<Rightarrow> e = Assert_failed \<and> (\<exists>w. pcs s ! t = Writing w)
        \<and> stamp (atomic_register_vector s ! t) = 2 ^ 32 - 1
    | Inr s' \<Rightarrow> scan_inv s'"
  using thread_access_inv [OF assms] access_in_range [OF assms] by (simp add: thread_step_def)

lemma scan_inv_start: "scan_start s \<Longrightarrow> scan_inv s"
proof -
  assume "scan_start s"
  then obtain n where n: "n < 2 ^ 31 - 1" and s: "s = WaitfreeAtomicSnapshot_new n"
    by (auto simp: scan_start_def)
  have counts: "held (replicate n Idle) j = (\<lambda>_. 0)" "owed (replicate n Idle) j = (\<lambda>_. 0)" for j
    by (rule ext, simp add: held_def owed_def cong: conj_cong)+
  have ss: "ss_inv n (shared_snapshot_new (n + 1)) (\<lambda>_. 0) (\<lambda>_. 0) Quiet"
    using n by (intro ss_inv_new) simp_all
  have new: "cur (shared_snapshot_new (n + 1)) = 0" "refs (shared_snapshot_new (n + 1)) = 0"
    "version_count (shared_snapshot_new (n + 1)) = n + 1"
    by (simp_all add: shared_snapshot_new_def cur_def refs_def lo_half_def hi_half_def)
  have ptr: "snapshot_ptr_vector (shared_snapshot_new (n + 1)) ! 0 = None"
    by (simp add: shared_snapshot_new_def)
  have "shape_ok s" using n by (simp add: s WaitfreeAtomicSnapshot_new_def shape_ok_def hist_ok_def)
  moreover have "shared_ok s j" if "j < thread_count s" for j
    using that ss new ptr
    by (simp add: s WaitfreeAtomicSnapshot_new_def shared_ok_def counts pub_ok_def published_def takers_ok_def)
  moreover have "thread_ok s t" if "t < thread_count s" for t
    using that by (simp add: s WaitfreeAtomicSnapshot_new_def thread_ok_def own_stable_def)
  ultimately show "scan_inv s" by (simp add: scan_inv_def)
qed

lemma scan_inv_act: "scan_inv s \<Longrightarrow> scan_act e s s' \<Longrightarrow> scan_inv s'"
  by (erule scan_act.cases) (use call_inv thread_step_inv in \<open>fastforce split: sum.splits\<close>)+

lemma scan_inv_step: "scan_inv s \<Longrightarrow> scan_step s s' \<Longrightarrow> scan_inv s'"
  using scan_inv_act by (auto simp: scan_step_def)

interpretation scan: machine_invariant scan_start scan_step scan_inv
  by unfold_locales (fact scan_inv_start, fact scan_inv_step)

end
