(* ===== verification/ScanProps.thy ===== *)
theory ScanProps
  imports ScanSteps
begin

text \<open>
  What the snapshot machine promises: scans are linearizable, a version in use is never
  overwritten, no access ever follows a null pointer or fails an assertion of
  \<open>exchange()\<close>, and every call ends after a bounded number of its own steps.
\<close>

section \<open>Frames\<close>

definition same_views :: "sys \<Rightarrow> sys \<Rightarrow> bool" where
  "same_views s s' \<longleftrightarrow>
     (\<forall>i x. slot_view (shared_snapshot_vector s' ! i) x = slot_view (shared_snapshot_vector s ! i) x)"

lemma same_views_goto [simp]: "same_views s (goto t q s') = same_views s s'"
  by (simp add: same_views_def)

lemma get_slotD: "get_slot ss x = Inr sn \<Longrightarrow> snapshot_ptr_vector ss ! x = Some sn"
  by (auto simp: get_slot_def split: if_splits option.splits)

lemma same_views_set:
  assumes "\<And>x. slot_view ss x = slot_view (shared_snapshot_vector s ! i) x"
  shows "same_views s (set_shared i ss s)"
  using assms by (cases "i < length (shared_snapshot_vector s)")
    (auto simp: same_views_def set_shared_def nth_list_update list_update_beyond)

lemma slot_view_outer [simp]: "slot_view (ss\<lparr>outer_cnt_with_index := w\<rparr>) x = slot_view ss x"
  by (simp add: slot_view_def)

lemma same_views_fields [simp]:
  "same_views s (u\<lparr>takers := K\<rparr>) = same_views s u"
  "same_views s (u\<lparr>atomic_register_vector := v, hist := H\<rparr>) = same_views s u"
  by (simp_all add: same_views_def)

text \<open>Every access but the store of a version leaves all versions as they are.\<close>

lemma thread_step_views:
  assumes "thread_step t s = Inr s'" and "\<And>w v i. pcs s ! t \<noteq> Storing w v i"
  shows "same_views s s'"
proof -
  have refl: "same_views s s" by (simp add: same_views_def)
  show ?thesis using assms refl
    by (cases "pcs s ! t")
       (auto simp: thread_step_Inr thread_access_def acquire_step_def acquire_def outer_fetch_add_def borrow_step_def
          release_step_def inner_fetch_add_def flag_step_def set_recycle_flag_def search_step_def
          swap_step_def ss_swap_def reset_step_def inner_fetch_sub_def write_step_def Let_def
          split: sum.splits if_splits prod.splits dest!: get_slotD intro!: same_views_set slot_view_put)
qed

lemma goto_other: "u \<noteq> t \<Longrightarrow> pcs (goto t q s) ! u = pcs s ! u"
  by simp

lemma thread_step_other:
  assumes "thread_step t s = Inr s'" and "u \<noteq> t"
  shows "pcs s' ! u = pcs s ! u \<and> started s' = started s \<and> thread_count s' = thread_count s"
  using assms
  by (cases "pcs s ! t")
     (auto simp: thread_step_Inr thread_access_def acquire_step_def borrow_step_def release_step_def flag_step_def
        search_step_def store_step_def swap_step_def reset_step_def write_step_def Let_def
        split: sum.splits if_splits prod.splits)

lemma thread_count_act: "scan_act e s s' \<Longrightarrow> thread_count s' = thread_count s"
proof (erule scan_act.cases)
  fix t c u assume "s' = call_step t c u" "s = u"
  then show ?thesis by (simp add: call_step_def)
next
  fix t u u' assume "s = u" "s' = u'" "thread_step t u = Inr u'"
  then show ?thesis using thread_step_other [of t u u' "Suc t"] by simp
qed

section \<open>How many steps are left\<close>

text \<open>
  An upper bound on the accesses a call still needs. In the collect loop it counts the
  rounds by the registers that have not been seen to change before this round: a round that
  fails adds at least one, and a register that changes a second time ends the loop.
\<close>

definition changed_before :: "nat list \<Rightarrow> view \<Rightarrow> view \<Rightarrow> nat" where
  "changed_before cc first second =
     card {j. j < length cc \<and> cc ! j = 1 \<and> \<not> (j < length second \<and> second ! j \<noteq> first ! j)}"

fun steps_left :: "nat \<Rightarrow> pc \<Rightarrow> nat" where
  "steps_left n Idle = 0"
| "steps_left n (Copying c first) = n * n + 3 * n + 12 + (n - length first)"
| "steps_left n (Collecting c cc first second same) =
     2 * n + 12 + (n - changed_before cc first second) * n + (n - length second)"
| "steps_left n (Acquiring c i) = 2 * n + 12"
| "steps_left n (Borrowing c i x acc) = n + 11 + (n - length acc)"
| "steps_left n (Releasing c i x v) = n + 10"
| "steps_left n (Flagging c i x v) = n + 9"
| "steps_left n (Scanned c v) = n + 8"
| "steps_left n (Searching w v i) = 6 + (n + 1 - i)"
| "steps_left n (Storing w v i) = 5"
| "steps_left n (Swapping w i) = 4"
| "steps_left n (Resetting w x k) = 3"
| "steps_left n (Reflagging w x) = 2"
| "steps_left n (Writing w) = 1"

lemma changed_before_le: "changed_before cc first second \<le> length cc"
  unfolding changed_before_def by (rule order_trans [OF card_mono [of "{..<length cc}"]]) auto

text \<open>In the collect loop every read brings the end nearer.\<close>

lemma collect_step_left:
  assumes ok: "pc_ok n H S t st md (Collecting c cc first second same)" and n: "thread_count s = n"
  shows "steps_left n (collect_step s c cc first second same)
    < steps_left n (Collecting c cc first second same)"
proof -
  let ?i = "length second" and ?r = "atomic_register_vector s ! length second"
  define sec where "sec = second @ [?r]"
  define cc' where "cc' = (if first ! ?i \<noteq> ?r then cc[?i := cc ! ?i + 1] else cc)"
  define same' where "same' = (same \<and> first ! ?i = ?r)"
  have len: "length cc = n" "length first = n" "?i < n" "length sec = Suc ?i" "length cc' = n"
    and same: "same \<longleftrightarrow> (\<forall>j < ?i. second ! j = first ! j)"
    and cc1: "\<forall>j < n. cc ! j \<le> 1" and cc2: "\<forall>j < ?i. second ! j \<noteq> first ! j \<longrightarrow> cc ! j = 1"
    using ok by (auto simp: sec_def cc'_def)
  let ?stop = "first ! ?i \<noteq> ?r \<and> cc' ! ?i = 2"
  have q: "collect_step s c cc first second same =
      (if ?stop then Acquiring c ?i else if Suc ?i < n then Collecting c cc' first sec same'
       else if same' then Scanned c first else Collecting c cc' sec [] True)"
    by (simp add: collect_step_def Let_def n sec_def cc'_def same'_def)
  have keep: "{j. j < length cc' \<and> cc' ! j = 1 \<and> \<not> (j < length sec \<and> sec ! j \<noteq> first ! j)}
      = {j. j < length cc \<and> cc ! j = 1 \<and> \<not> (j < ?i \<and> second ! j \<noteq> first ! j)}" if "\<not> ?stop"
  proof -
    have "(j < n \<and> cc' ! j = 1 \<and> \<not> (j < Suc ?i \<and> sec ! j \<noteq> first ! j))
      = (j < n \<and> cc ! j = 1 \<and> \<not> (j < ?i \<and> second ! j \<noteq> first ! j))" for j
      using that len cc1 by (cases "j = ?i") (auto simp: sec_def cc'_def nth_append less_Suc_eq)
    then show ?thesis using len by simp
  qed
  consider (stop) ?stop | (more) "\<not> ?stop" "Suc ?i < n" | (agree) "\<not> ?stop" "Suc ?i = n" same'
    | (again) "\<not> ?stop" "Suc ?i = n" "\<not> same'" using len(3) by linarith
  then show ?thesis
  proof cases
    case stop
    then show ?thesis using len(3) by (simp add: q)
  next
    case more
    then have "changed_before cc' first sec = changed_before cc first second"
      unfolding changed_before_def using keep by presburger
    moreover have "collect_step s c cc first second same = Collecting c cc' first sec same'"
      unfolding q using more by (simp only: if_False if_True)
    ultimately show ?thesis using len more by simp
  next
    case agree
    then have "collect_step s c cc first second same = Scanned c first"
      unfolding q by (simp only: if_False if_True less_irrefl)
    then show ?thesis using len by simp
  next
    case again
    then have qq: "collect_step s c cc first second same = Collecting c cc' sec [] True"
      unfolding q by (simp only: if_False less_irrefl)
    have "\<exists>j < n. sec ! j \<noteq> first ! j"
    proof (cases "first ! ?i = ?r")
      case True
      then obtain j where "j < ?i" "second ! j \<noteq> first ! j" using again(3) same by (auto simp: same'_def)
      then show ?thesis using len by (intro exI [of _ j]) (simp add: sec_def nth_append)
    next
      case False
      then show ?thesis using len by (intro exI [of _ ?i]) (simp add: sec_def nth_append)
    qed
    then obtain j where j: "j < n" "sec ! j \<noteq> first ! j" by blast
    have one: "cc' ! j = 1"
    proof (cases "j = ?i")
      case True
      then have "cc' ! j \<noteq> 2" "cc' ! j = cc ! j + 1"
        using j again len by (auto simp: sec_def cc'_def nth_append)
      then show ?thesis using cc1 j(1) by (simp add: le_Suc_eq) (metis One_nat_def le_0_eq le_Suc_eq one_add_one plus_1_eq_Suc)
    next
      case False
      then have "j < ?i" using j(1) again by simp
      then show ?thesis using j cc2 by (auto simp: sec_def cc'_def nth_append)
    qed
    let ?old = "{j. j < length cc \<and> cc ! j = 1 \<and> \<not> (j < ?i \<and> second ! j \<noteq> first ! j)}"
    have "?old \<subset> {j. j < length cc' \<and> cc' ! j = 1}"
      unfolding keep [OF again(1), symmetric] using j one len again(2) by auto
    then have "changed_before cc first second < changed_before cc' sec []"
      unfolding changed_before_def by (intro psubset_card_mono) simp_all
    moreover have "changed_before cc' sec [] \<le> n" using changed_before_le [of cc' sec "[]"] len by simp
    ultimately have "(n - changed_before cc' sec []) + 1 \<le> n - changed_before cc first second" by simp
    then have "(n - changed_before cc' sec []) * n + n \<le> (n - changed_before cc first second) * n"
      by (metis add_mult_distrib mult_1 mult_le_mono1)
    then show ?thesis using len again by (simp add: qq)
  qed
qed

lemma view_at_length:
  assumes "hist_ok n H" and "view_at H lo (length H - 1) v"
  shows "length v = n"
proof -
  obtain a where a: "a \<le> length H - 1" "v = H ! a" using assms(2) by (auto simp: view_at_def)
  have "H \<noteq> []" using assms(1) by (simp add: hist_ok_def)
  then have "a < length H" using a(1) by (cases H) auto
  then show ?thesis using assms(1) a(2) by (simp add: hist_ok_def)
qed

lemma changed_before_zero [simp]: "changed_before (replicate n 0) f g = 0"
  by (simp add: changed_before_def cong: conj_cong)

lemma thread_step_left:
  assumes inv: "scan_inv s" and t: "t < thread_count s" and busy: "pcs s ! t \<noteq> Idle"
    and step: "thread_step t s = Inr s'"
  shows "steps_left (thread_count s) (pcs s' ! t) < steps_left (thread_count s) (pcs s ! t)"
proof (cases "pcs s ! t")
  case (Copying c first)
  note f = inv_facts [OF inv t]
  have len: "length first < thread_count s" using f(10) by (simp add: Copying)
  have s': "s' = goto t (copy_step s c first) s" using step Copying by (simp add: thread_step_Inr thread_access_def)
  show ?thesis
  proof (cases "Suc (length first) < thread_count s")
    case True
    then have "pcs s' ! t = Copying c (first @ [atomic_register_vector s ! length first])"
      using s' t f(2) by (simp add: copy_step_def)
    then show ?thesis using Copying True by simp
  next
    case False
    then have "pcs s' ! t = Collecting c (replicate (thread_count s) 0)
        (first @ [atomic_register_vector s ! length first]) [] True"
      using s' t f(2) by (simp add: copy_step_def)
    then show ?thesis using Copying len by simp
  qed
next
  case (Collecting c cc first second same)
  note f = inv_facts [OF inv t]
  show ?thesis using collect_step_left [OF f(10) [unfolded Collecting] refl] step t f(2) Collecting
    by (auto simp: thread_step_Inr thread_access_def)
next
  case (Borrowing c i x acc)
  note f = inv_facts [OF inv t]
  obtain v where v: "slot_view (shared_snapshot_vector s ! i) x = Some v"
    "view_at (hist s) (started s ! t) (length (hist s) - 1) v"
    using f(10) by (auto simp: Borrowing)
  have "length v = thread_count s" using f(6) v(2) by (rule view_at_length)
  then show ?thesis using step t f(2) v(1) Borrowing
    by (auto simp: thread_step_Inr thread_access_def borrow_step_def slot_view_def split: sum.splits if_splits dest!: get_slotD)
next
  case (Searching w v i)
  note f = inv_facts [OF inv t]
  show ?thesis using step t f(2) Searching shared_facts(1) [OF inv t]
    by (auto simp: thread_step_Inr thread_access_def search_step_def Let_def split: if_splits)
qed (use step t inv_facts(2) [OF inv t] busy in
  \<open>auto simp: thread_step_Inr thread_access_def acquire_step_def release_step_def flag_step_def after_scan_def
     store_step_def swap_step_def reset_step_def write_step_def Let_def
     split: sum.splits if_splits prod.splits call.splits\<close>)

lemma steps_left_bound:
  assumes inv: "scan_inv s" and t: "t < thread_count s"
  shows "steps_left (thread_count s) (pcs s ! t) \<le> thread_count s * thread_count s + 4 * thread_count s + 12"
proof -
  let ?n = "thread_count s"
  have n: "?n \<le> ?n * ?n" using t by simp
  show ?thesis
  proof (cases "pcs s ! t")
    case (Collecting c cc first second same)
    have "(?n - changed_before cc first second) * ?n \<le> ?n * ?n" by (rule mult_le_mono1) simp
    moreover have "?n - length second \<le> 2 * ?n" by simp
    ultimately have "(?n - changed_before cc first second) * ?n + (?n - length second) \<le> ?n * ?n + 2 * ?n"
      by (rule add_mono)
    then show ?thesis using Collecting by simp
  qed (use n in simp_all)
qed

text \<open>Runs in which a thread makes no new call use up its steps.\<close>

lemma run_left:
  assumes "scan_run s es s'" and "scan_inv s" and "t < thread_count s"
    and "\<forall>c. Call t c \<notin> set es"
  shows "pcs s' ! t = Idle
    \<or> steps_left (thread_count s) (pcs s' ! t) + count_list es (Access t)
       \<le> steps_left (thread_count s) (pcs s ! t)"
  using assms
proof (induction rule: scan_run.induct)
  case (run_cons e s s' es s'')
  let ?n = "thread_count s"
  have inv': "scan_inv s'" and n: "thread_count s' = ?n"
    using run_cons.hyps(1) run_cons.prems(1) scan_inv_act thread_count_act by blast+
  have IH: "pcs s'' ! t = Idle \<or> steps_left ?n (pcs s'' ! t) + count_list es (Access t) \<le> steps_left ?n (pcs s' ! t)"
    using run_cons.IH inv' n run_cons.prems by simp
  show ?case
  proof (cases e)
    case (Call u c)
    then have "pcs s' ! t = pcs s ! t" using run_cons.hyps(1) run_cons.prems(3)
      by (auto elim!: scan_callE simp: call_step_def)
    then show ?thesis using IH Call by simp
  next
    case (Access u)
    then have step: "thread_step u s = Inr s'" using run_cons.hyps(1) by (auto elim: scan_accessE)
    show ?thesis
    proof (cases "u = t")
      case False
      then show ?thesis using IH thread_step_other [OF step] Access by auto
    next
      case True
      show ?thesis
      proof (cases "pcs s ! t = Idle")
        case idle: True
        then have "s' = s" using step True by (simp add: thread_step_Inr thread_access_def)
        then have "pcs s'' ! t = Idle \<or> steps_left ?n (pcs s'' ! t) = 0" using IH idle by auto
        then show ?thesis by (cases "pcs s'' ! t") auto
      next
        case False
        then show ?thesis using IH Access True thread_step_left [OF run_cons.prems(1,2) False] step
          by fastforce
      qed
    qed
  qed
qed simp

section \<open>History\<close>

lemma act_extends:
  assumes "scan_act e s s'"
  shows "thread_count s' = thread_count s" "\<exists>l. hist s' = hist s @ l"
proof -
  show "thread_count s' = thread_count s" using assms by (rule thread_count_act)
  show "\<exists>l. hist s' = hist s @ l"
    using assms
  proof cases
    case (act_access t)
    then show ?thesis
      by (cases "pcs s ! t")
         (auto simp: thread_step_Inr thread_access_def acquire_step_def borrow_step_def release_step_def flag_step_def
            search_step_def store_step_def swap_step_def reset_step_def write_step_def Let_def
            split: sum.splits if_splits prod.splits)
  qed (simp add: call_step_def)
qed

lemma run_extends:
  assumes "scan_run s es s'"
  shows "thread_count s' = thread_count s" "\<exists>l. hist s' = hist s @ l"
  using assms
proof (induction rule: scan_run.induct)
  case (run_cons e s s' es s'')
  { case 1 show ?case using act_extends(1) [OF run_cons.hyps(1)] run_cons.IH(1) by simp }
  { case 2 show ?case using act_extends(2) [OF run_cons.hyps(1)] run_cons.IH(2) by auto }
qed simp_all

text \<open>The result of a scan is the value of the vector at some time of the call.\<close>

lemma scanned_at:
  assumes inv: "scan_inv s" and t: "t < thread_count s" and pc: "pcs s ! t = Scanned c v"
  shows "\<exists>a. started s ! t \<le> a \<and> a \<le> now s \<and> a < length (hist s) \<and> v = hist s ! a"
proof -
  note f = inv_facts [OF inv t]
  obtain a where a: "started s ! t \<le> a" "a \<le> length (hist s) - 1" "v = hist s ! a"
    using f(10) by (auto simp: pc view_at_def)
  moreover have "a < length (hist s)" using a(2) f(7) by (cases "hist s") auto
  ultimately show ?thesis unfolding now_def by blast
qed

section \<open>Properties\<close>

text \<open>
  C6: scans are linearizable. When \<open>scan()\<close> returns, by a double collect or by borrowing a
  writer's version, its result is the value the whole register vector had at one moment
  between the call and the return, and it shows the scanning thread's own last write.
\<close>

theorem scan_linearizable:
  assumes "scan_reach s" and "t < thread_count s" and "pcs s ! t = Scanned c v"
  shows "(\<exists>k. started s ! t \<le> k \<and> k \<le> now s \<and> v = hist s ! k)
    \<and> v ! t = atomic_register_vector s ! t"
proof -
  have inv: "scan_inv s" using assms(1) by (rule scan.always)
  note f = inv_facts [OF inv assms(2)]
  have ex: "\<exists>k. started s ! t \<le> k \<and> k \<le> now s \<and> v = hist s ! k"
    using f(10) by (simp add: assms(3) view_at_def now_def)
  then obtain k where k: "started s ! t \<le> k" "k \<le> now s" "v = hist s ! k" by blast
  have "k < length (hist s)" using k(2) f(7) by (cases "hist s") (auto simp: now_def)
  then have "v ! t = atomic_register_vector s ! t" using k f(8,11) by (simp add: assms(3) own_stable_def)
  with ex show ?thesis ..
qed

text \<open>
  C31: any two scan results of a run are comparable, be they of two threads or of one, at the
  same time or one long after the other: one of them is nowhere older than the other. And
  the result of a call that began when the other scan had returned is nowhere older than
  that scan's.
\<close>

theorem scans_totally_ordered:
  assumes "scan_reach s" and "scan_run s es s'" and "t < thread_count s" and "u < thread_count s"
    and "pcs s ! t = Scanned c v" and "pcs s' ! u = Scanned d w"
  shows "((\<forall>j < thread_count s. stamp (v ! j) \<le> stamp (w ! j))
      \<or> (\<forall>j < thread_count s. stamp (w ! j) \<le> stamp (v ! j)))
    \<and> (now s \<le> started s' ! u \<longrightarrow> (\<forall>j < thread_count s. stamp (v ! j) \<le> stamp (w ! j)))"
proof -
  note run = run_extends [OF assms(2)]
  have reach: "scan_reach s'" by (rule scan_run_reach [OF assms(2,1)])
  obtain a where a: "a \<le> now s" "a < length (hist s)" "v = hist s ! a"
    using scanned_at [OF scan.always [OF assms(1)] assms(3,5)] by blast
  obtain b where b: "started s' ! u \<le> b" "b < length (hist s')" "w = hist s' ! b"
    using scanned_at [OF scan.always [OF reach] _ assms(6)] assms(4) run(1) by metis
  have v: "v = hist s' ! a" "a < length (hist s')" using a(2,3) run(2) by (auto simp: nth_append)
  have ok: "hist_ok (thread_count s) (hist s')"
    using inv_facts(6) [OF scan.always [OF reach], of u] assms(4) run(1) by simp
  have le: "stamp (hist s' ! i ! j) \<le> stamp (hist s' ! k ! j)" if "i \<le> k" "k < length (hist s')" "j < thread_count s" for i k j
    by (rule hist_mono(1) [OF ok that])
  have "now s \<le> started s' ! u \<Longrightarrow> a \<le> b" using a(1) b(1) by simp
  then show ?thesis using le [of a b] le [of b a] v b(2,3) by (cases "a \<le> b") auto
qed

text \<open>
  C32: no access of any thread, in any interleaving, follows a null pointer (\<open>Null_deref\<close>),
  leaves a vector (\<open>Out_of_range\<close>) or fails an assertion of \<open>exchange()\<close>; the only way to
  stop is the timestamp overflow that \<open>write()\<close> asserts against.
\<close>

theorem no_access_fails:
  assumes "scan_reach s" and "t < thread_count s"
  shows "case thread_step t s of
      Inl e \<Rightarrow> e = Assert_failed \<and> (\<exists>w. pcs s ! t = Writing w)
        \<and> stamp (atomic_register_vector s ! t) = 2 ^ 32 - 1
    | Inr s' \<Rightarrow> scan_reach s'"
proof (cases "thread_step t s")
  case (Inl e)
  then show ?thesis using thread_step_inv [OF scan.always [OF assms(1)] assms(2)] by simp
next
  case (Inr s')
  then have "scan_step s s'" using assms(2) by (auto simp: scan_step_def intro: act_access)
  then show ?thesis using Inr assms(1) by (auto intro: reach_next)
qed

text \<open>
  C34: a version that a reader has acquired and not yet released is not overwritten: through
  every step of every thread its registers stay what they are (and the pointer is not null).
\<close>

theorem version_in_use_is_stable:
  assumes "scan_reach s" and "scan_act e s s'" and "u < thread_count s" and "holds i x (pcs s ! u)"
  shows "slot_view (shared_snapshot_vector s' ! i) x = slot_view (shared_snapshot_vector s ! i) x
    \<and> slot_view (shared_snapshot_vector s ! i) x \<noteq> None"
proof -
  have inv: "scan_inv s" using assms(1) by (rule scan.always)
  note fu = inv_facts [OF inv assms(3)]
  have ix: "i < thread_count s" "x < version_count (shared_snapshot_vector s ! i)"
    using fu(10) assms(4) by (cases "pcs s ! u"; auto)+
  note sh = shared_facts [OF inv ix(1)]
  have pos: "0 < held (pcs s) i x" using assms(3,4) fu(2) by (intro held_pos [of u]) simp_all
  then have some: "slot_view (shared_snapshot_vector s ! i) x \<noteq> None"
    using held_slot [OF sh(2) ix(2)] by (metis slot_view_def map_option_is_None option.distinct(1))
  have "slot_view (shared_snapshot_vector s' ! i) x = slot_view (shared_snapshot_vector s ! i) x"
    using assms(2)
  proof cases
    case (act_call t c)
    then show ?thesis by (simp add: call_step_def)
  next
    case (act_access t)
    show ?thesis
    proof (cases "\<exists>w v k. pcs s ! t = Storing w v k")
      case False
      then show ?thesis using thread_step_views [OF act_access(3)] by (auto simp: same_views_def)
    next
      case True
      then obtain w v k where pc: "pcs s ! t = Storing w v k" by blast
      note ft = inv_facts [OF inv act_access(2)] and st = shared_facts [OF inv act_access(2)]
      have k: "k < version_count (shared_snapshot_vector s ! t)"
        "slot_free (snapshot_ptr_vector (shared_snapshot_vector s ! t) ! k)" using ft(10) by (simp_all add: pc)
      have "held (pcs s) t k = 0" "length (snapshot_ptr_vector (shared_snapshot_vector s ! t))
          = version_count (shared_snapshot_vector s ! t)"
        using free_slot_unreferenced [of _ _ _ "owed (pcs s) t" k] st(2) k pc
        by (auto simp: ss_inv_def)
      then have "i \<noteq> t \<or> x \<noteq> k" using pos by auto
      moreover have "s' = store_step t w v k s" using act_access(3) pc by (simp add: thread_step_Inr thread_access_def)
      ultimately show ?thesis
        using slot_view_install [of k "shared_snapshot_vector s ! t" "Snapshot_of v" x] k st ix ft(1) act_access(2)
        by (cases "i = t") (auto simp: store_step_def set_shared_def ss_inv_def)
    qed
  qed
  with some show ?thesis by simp
qed

text \<open>
  C33: wait-freedom. Whatever the other threads do and however the steps are scheduled, a
  call of a thread is over once the thread itself has made \<open>n * n + 4 * n + 12\<close> accesses,
  \<open>n\<close> being the number of threads.
\<close>

theorem calls_are_wait_free:
  assumes "scan_reach s" and "t < thread_count s" and "scan_run s es s'"
    and "\<forall>c. Call t c \<notin> set es"
    and "thread_count s * thread_count s + 4 * thread_count s + 12 \<le> count_list es (Access t)"
  shows "pcs s' ! t = Idle"
proof -
  have inv: "scan_inv s" using assms(1) by (rule scan.always)
  have "pcs s' ! t = Idle \<or> steps_left (thread_count s) (pcs s' ! t) = 0"
    using run_left [OF assms(3) inv assms(2,4)] steps_left_bound [OF inv assms(2)] assms(5) by linarith
  then show ?thesis by (cases "pcs s' ! t") auto
qed

section \<open>Witnesses\<close>

text \<open>
  Thread 1 scans while thread 0 updates twice, so that the scan borrows thread 0's version
  and returns the vector as it was between the two writes.
\<close>

definition borrow_events :: "event list" where
  "borrow_events = [Call 1 Scan_call] @ replicate 2 (Access 1)
     @ [Call 0 (Update_call 5)] @ replicate 9 (Access 0) @ replicate 2 (Access 1)
     @ [Call 0 (Update_call 7)] @ replicate 12 (Access 0) @ replicate 2 (Access 1)"

fun scanned_view :: "pc \<Rightarrow> view option" where
  "scanned_view (Scanned Scan_call v) = Some v"
| "scanned_view _ = None"

lemma scanned_viewD: "scanned_view q = Some v \<Longrightarrow> q = Scanned Scan_call v"
  by (cases q rule: scanned_view.cases) simp_all

fun storing :: "pc \<Rightarrow> bool" where
  "storing (Storing w v i) = True"
| "storing _ = False"

fun borrowed_slot :: "pc \<Rightarrow> (nat \<times> nat) option" where
  "borrowed_slot (Borrowing c j x acc) = Some (j, x)"
| "borrowed_slot _ = None"

lemma storingD: "storing q \<Longrightarrow> \<exists>w v i. q = Storing w v i"
  by (cases q rule: storing.cases) simp_all

lemma borrowed_slotD: "borrowed_slot q = Some (j, x) \<Longrightarrow> \<exists>c acc. q = Borrowing c j x acc"
  by (cases q rule: borrowed_slot.cases) simp_all

lemma start_reach: "n < 2 ^ 31 - 1 \<Longrightarrow> scan_reach (WaitfreeAtomicSnapshot_new n)"
  by (rule run_from_start [of n "[]"]) simp_all

lemma state_from_start:
  assumes "map_option P (run_schedule es (WaitfreeAtomicSnapshot_new n)) = Some True" and "n < 2 ^ 31 - 1"
  shows "\<exists>s. scan_reach s \<and> P s"
proof -
  obtain s where s: "run_schedule es (WaitfreeAtomicSnapshot_new n) = Some s" "P s"
    using assms(1) by (cases "run_schedule es (WaitfreeAtomicSnapshot_new n)") auto
  have "scan_reach s" using assms(2) s(1) by (rule run_from_start)
  then show ?thesis using s(2) by (intro exI [of _ s] conjI)
qed

theorem scan_linearizable_witness:
  "\<exists>s v. scan_reach s \<and> pcs s ! 1 = Scanned Scan_call v \<and> map reg_read v = [5, 0]
    \<and> (\<exists>k. started s ! 1 \<le> k \<and> k \<le> now s \<and> v = hist s ! k) \<and> v ! 1 = atomic_register_vector s ! 1"
proof -
  have "map_option (\<lambda>s. thread_count s = 2 \<and> map_option (map reg_read) (scanned_view (pcs s ! 1)) = Some [5, 0])
    (run_schedule (borrow_events @ replicate 4 (Access 1)) (WaitfreeAtomicSnapshot_new 2)) = Some True"
    by code_simp
  from state_from_start [OF this] obtain s v where s: "scan_reach s" "thread_count s = 2"
    "pcs s ! 1 = Scanned Scan_call v" "map reg_read v = [5, 0]"
    by (auto dest: scanned_viewD)
  have "(\<exists>k. started s ! 1 \<le> k \<and> k \<le> now s \<and> v = hist s ! k) \<and> v ! 1 = atomic_register_vector s ! 1"
    using scan_linearizable [OF s(1) _ s(3)] s(2) by simp
  then show ?thesis using s by (intro exI [of _ s] exI [of _ v] conjI) simp_all
qed

text \<open>Thread 0 scans, thread 1 updates, thread 0 scans again: the same thread, two results.\<close>

theorem scans_totally_ordered_witness:
  "\<exists>s es s' v w. scan_reach s \<and> scan_run s es s' \<and> pcs s ! 0 = Scanned Scan_call v \<and> pcs s' ! 0 = Scanned Scan_call w
    \<and> v \<noteq> w \<and> (\<forall>j < thread_count s. stamp (v ! j) \<le> stamp (w ! j))"
proof -
  let ?es = "[Access 0, Call 1 (Update_call 3)] @ replicate 9 (Access 1) @ [Call 0 Scan_call] @ replicate 4 (Access 0)"
  let ?P = "\<lambda>s. thread_count s = 2 \<and> scanned_view (pcs s ! 0) \<noteq> None
    \<and> map_option (\<lambda>s'. scanned_view (pcs s' ! 0) \<notin> {None, scanned_view (pcs s ! 0)} \<and> now s \<le> started s' ! 0)
        (run_schedule ?es s) = Some True"
  have "map_option ?P (run_schedule ([Call 0 Scan_call] @ replicate 4 (Access 0)) (WaitfreeAtomicSnapshot_new 2)) = Some True"
    by code_simp
  then have "\<exists>s. scan_reach s \<and> ?P s" by (rule state_from_start) simp
  then obtain s where s: "scan_reach s" "thread_count s = 2" "scanned_view (pcs s ! 0) \<noteq> None"
    "map_option (\<lambda>s'. scanned_view (pcs s' ! 0) \<notin> {None, scanned_view (pcs s ! 0)} \<and> now s \<le> started s' ! 0)
      (run_schedule ?es s) = Some True" by blast
  obtain s' where s': "run_schedule ?es s = Some s'" "scanned_view (pcs s' ! 0) \<notin> {None, scanned_view (pcs s ! 0)}"
    "now s \<le> started s' ! 0" using s(4) by (cases "run_schedule ?es s") simp_all
  obtain v w where v: "scanned_view (pcs s ! 0) = Some v" "scanned_view (pcs s' ! 0) = Some w" "v \<noteq> w" using s(3) s'(2) by auto
  have run: "scan_run s ?es s'" using s'(1) by (rule run_schedule_run)
  have "\<forall>j < thread_count s. stamp (v ! j) \<le> stamp (w ! j)"
    using scans_totally_ordered [OF s(1) run _ _ scanned_viewD [OF v(1)] scanned_viewD [OF v(2)]] s(2) s'(3) by simp
  then show ?thesis using s(1) run scanned_viewD [OF v(1)] scanned_viewD [OF v(2)] v(3) by blast
qed

text \<open>Thread 1 follows the reference it has acquired to thread 0's version.\<close>

theorem no_access_fails_witness:
  "\<exists>s s' c x acc. scan_reach s \<and> pcs s ! 1 = Borrowing c 0 x acc \<and> thread_step 1 s = Inr s' \<and> scan_reach s'"
proof -
  have "map_option (\<lambda>s. thread_count s = 2 \<and> map_option fst (borrowed_slot (pcs s ! 1)) = Some 0)
    (run_schedule (borrow_events @ [Access 1]) (WaitfreeAtomicSnapshot_new 2)) = Some True"
    by code_simp
  from state_from_start [OF this] obtain s where s: "scan_reach s" "thread_count s = 2" "map_option fst (borrowed_slot (pcs s ! 1)) = Some 0"
    by auto
  obtain c acc x where x: "pcs s ! 1 = Borrowing c 0 x acc" using s(3) borrowed_slotD by fastforce
  have "case thread_step 1 s of
      Inl e \<Rightarrow> e = Assert_failed \<and> (\<exists>w. pcs s ! 1 = Writing w) \<and> stamp (atomic_register_vector s ! 1) = 2 ^ 32 - 1
    | Inr s' \<Rightarrow> scan_reach s'"
    by (rule no_access_fails [OF s(1)]) (simp add: s(2))
  then show ?thesis using s(1) x by (cases "thread_step 1 s") auto
qed

text \<open>The writer stores its third version while thread 1 still copies the second.\<close>

theorem version_in_use_is_stable_witness:
  "\<exists>s s' x. scan_reach s \<and> scan_act (Access 0) s s' \<and> holds 0 x (pcs s ! 1)
    \<and> (\<exists>w v i. pcs s ! 0 = Storing w v i)
    \<and> slot_view (shared_snapshot_vector s' ! 0) x = slot_view (shared_snapshot_vector s ! 0) x
    \<and> slot_view (shared_snapshot_vector s ! 0) x \<noteq> None"
proof -
  have "map_option (\<lambda>s. thread_count s = 2 \<and> do_event (Access 0) s \<noteq> None
      \<and> storing (pcs s ! 0) \<and> map_option fst (borrowed_slot (pcs s ! 1)) = Some 0)
    (run_schedule (borrow_events @ [Call 0 (Update_call 9)] @ replicate 6 (Access 0))
      (WaitfreeAtomicSnapshot_new 2)) = Some True"
    by code_simp
  from state_from_start [OF this] obtain s where s: "scan_reach s" "thread_count s = 2"
    "do_event (Access 0) s \<noteq> None" "storing (pcs s ! 0)" "map_option fst (borrowed_slot (pcs s ! 1)) = Some 0"
    by (auto simp del: do_event.simps)
  obtain s' where s': "do_event (Access 0) s = Some s'" using s(3) by blast
  obtain w v i where w: "pcs s ! 0 = Storing w v i" using s(4) storingD by blast
  obtain c acc x where x: "pcs s ! 1 = Borrowing c 0 x acc" using s(5) borrowed_slotD by fastforce
  have act: "scan_act (Access 0) s s'" using s' by (rule do_event_act)
  have "slot_view (shared_snapshot_vector s' ! 0) x = slot_view (shared_snapshot_vector s ! 0) x
    \<and> slot_view (shared_snapshot_vector s ! 0) x \<noteq> None"
    using version_in_use_is_stable [OF s(1) act, of 1 0 x] s(2) x by simp
  moreover have "holds 0 x (pcs s ! 1)" using x by simp
  ultimately show ?thesis using s(1) act w by blast
qed

theorem calls_are_wait_free_witness:
  "\<exists>s s'. pcs s ! 0 \<noteq> Idle \<and> scan_run s (replicate 17 (Access 0)) s' \<and> pcs s' ! 0 = Idle"
proof -
  have "map_option (\<lambda>s. thread_count s = 1 \<and> pcs s ! 0 \<noteq> Idle
      \<and> run_schedule (replicate 17 (Access 0)) s \<noteq> None)
    (run_schedule [Call 0 (Update_call 5)] (WaitfreeAtomicSnapshot_new 1)) = Some True"
    by code_simp
  from state_from_start [OF this] obtain s s' where s: "scan_reach s" "thread_count s = 1" "pcs s ! 0 \<noteq> Idle"
    "run_schedule (replicate 17 (Access 0)) s = Some s'" by auto
  have run: "scan_run s (replicate 17 (Access 0)) s'" using s(4) by (rule run_schedule_run)
  have "count_list (replicate 17 (Access 0)) (Access 0) = 17" by code_simp
  then have "pcs s' ! 0 = Idle" using s by (intro calls_are_wait_free [OF s(1) _ run]) auto
  then show ?thesis using run s(3) by blast
qed

end
