(* ===== verification/Registration.thy ===== *)
theory Registration
  imports ScanProps
begin

text \<open>
  \<open>RegisterTid()\<close> and the entry of \<open>update()\<close> of \<^verbatim>\<open>project2/src/WaitfreeAtomicSnapshot.cpp\<close>: the
  table of thread ids, the index an update uses, and what a call of \<open>update()\<close> through that
  table has written when it is over.
\<close>

section \<open>The table\<close>

record registry =
  tid_to_index :: "nat \<rightharpoonup> i32"
  tid_index :: i32

definition registry_new :: registry where
  "registry_new = \<lparr>tid_to_index = Map.empty, tid_index = 0\<rparr>"

text \<open>\<open>unordered_map::insert\<close> keeps an entry that is already there.\<close>

definition RegisterTid :: "nat \<Rightarrow> registry \<Rightarrow> registry \<times> i32" where
  "RegisterTid tid g =
     (let index = tid_index g in
      (g\<lparr>tid_index := index + 1,
         tid_to_index := (if tid \<in> dom (tid_to_index g) then tid_to_index g
                          else (tid_to_index g)(tid \<mapsto> index))\<rparr>, index))"

text \<open>
  The index \<open>update()\<close> uses: its argument, or for \<open>-1\<close> the table entry, which
  \<open>operator[]\<close> creates with value 0 when there is none.
\<close>

definition update_index :: "nat \<Rightarrow> i32 \<Rightarrow> registry \<Rightarrow> registry \<times> i32" where
  "update_index tid index g =
     (if index = -1
      then (case tid_to_index g tid of
              Some i \<Rightarrow> (g, i)
            | None \<Rightarrow> (g\<lparr>tid_to_index := (tid_to_index g)(tid \<mapsto> 0)\<rparr>, 0))
      else (g, index))"

text \<open>
  The call \<open>update(w, index)\<close> by thread \<open>tid\<close>: the index found, an \<open>int\<close>, is converted to
  \<open>size_t\<close> and selects the writer as which the thread goes on.
\<close>

definition update_call :: "nat \<Rightarrow> i32 \<Rightarrow> i32 \<Rightarrow> registry \<Rightarrow> sys \<Rightarrow> (registry \<times> nat \<times> sys) res" where
  "update_call tid w index g s =
     (let (g', i) = update_index tid index g; k = unat (scast i :: u64) in
      if k < length (shared_snapshot_vector s) then Inr (g', k, call_step k (Update_call w) s)
      else Inl Out_of_range)"

text \<open>Threads that register one after the other, and the indices they are given.\<close>

fun register_all :: "nat list \<Rightarrow> registry \<Rightarrow> registry \<times> i32 list" where
  "register_all [] g = (g, [])"
| "register_all (tid # tids) g =
     (let (g1, index) = RegisterTid tid g; (g2, indices) = register_all tids g1 in (g2, index # indices))"

lemma register_all_table:
  assumes "distinct tids" and "set tids \<inter> dom (tid_to_index g) = {}"
  shows "snd (register_all tids g) = map (\<lambda>k. tid_index g + word_of_nat k) [0..<length tids]
    \<and> (\<forall>k < length tids. tid_to_index (fst (register_all tids g)) (tids ! k) = Some (tid_index g + word_of_nat k))
    \<and> (\<forall>tid. tid \<notin> set tids \<longrightarrow> tid_to_index (fst (register_all tids g)) tid = tid_to_index g tid)"
  using assms
proof (induction tids arbitrary: g)
  case (Cons tid tids)
  define g' where "g' = fst (RegisterTid tid g)"
  have g': "tid_index g' = tid_index g + 1" "tid_to_index g' = (tid_to_index g)(tid \<mapsto> tid_index g)"
    using Cons.prems by (auto simp: g'_def RegisterTid_def Let_def)
  have "set tids \<inter> dom (tid_to_index g') = {}" using Cons.prems by (auto simp: g')
  then have IH: "snd (register_all tids g') = map (\<lambda>k. tid_index g' + word_of_nat k) [0..<length tids]"
    "\<forall>k < length tids. tid_to_index (fst (register_all tids g')) (tids ! k) = Some (tid_index g' + word_of_nat k)"
    "\<forall>u. u \<notin> set tids \<longrightarrow> tid_to_index (fst (register_all tids g')) u = tid_to_index g' u"
    using Cons by simp_all
  have all: "register_all (tid # tids) g = (fst (register_all tids g'), tid_index g # snd (register_all tids g'))"
    by (simp add: g'_def RegisterTid_def Let_def split: prod.splits)
  show ?case unfolding all fst_conv snd_conv
  proof (intro conjI allI impI)
    show "tid_index g # snd (register_all tids g') = map (\<lambda>k. tid_index g + word_of_nat k) [0..<length (tid # tids)]"
      by (simp add: IH(1) g' upt_conv_Cons map_Suc_upt [symmetric] del: upt_Suc)
    show "tid_to_index (fst (register_all tids g')) ((tid # tids) ! k) = Some (tid_index g + word_of_nat k)"
      if "k < length (tid # tids)" for k
      using that IH(2,3) g' Cons.prems(1) by (cases k) auto
  qed (use IH(3) g' in auto)
qed simp

section \<open>What an update writes\<close>

text \<open>The points of a call of \<open>update(w)\<close>, from its start to the write of the register.\<close>

fun updating :: "i32 \<Rightarrow> pc \<Rightarrow> bool" where
  "updating w Idle = False"
| "updating w (Copying c first) = (c = Update_call w)"
| "updating w (Collecting c cc first second same) = (c = Update_call w)"
| "updating w (Acquiring c i) = (c = Update_call w)"
| "updating w (Borrowing c i x acc) = (c = Update_call w)"
| "updating w (Releasing c i x v) = (c = Update_call w)"
| "updating w (Flagging c i x v) = (c = Update_call w)"
| "updating w (Scanned c v) = (c = Update_call w)"
| "updating w (Searching w' v i) = (w' = w)"
| "updating w (Storing w' v i) = (w' = w)"
| "updating w (Swapping w' i) = (w' = w)"
| "updating w (Resetting w' x k) = (w' = w)"
| "updating w (Reflagging w' x) = (w' = w)"
| "updating w (Writing w') = (w' = w)"

lemma updating_step:
  assumes "thread_step t s = Inr s'" and "updating w (pcs s ! t)" and "t < length (pcs s)"
  shows "updating w (pcs s' ! t) \<or> (pcs s' ! t = Idle \<and> reg_read (atomic_register_vector s' ! t) = w)"
proof (cases "pcs s ! t")
  case (Writing w')
  then obtain r where r: "reg_write (atomic_register_vector s ! t) w = Inr r" "t < length (atomic_register_vector s)"
    "s' = goto t Idle (s\<lparr>atomic_register_vector := (atomic_register_vector s)[t := r],
      hist := hist s @ [(atomic_register_vector s)[t := r]]\<rparr>)"
    using assms by (auto simp: thread_step_Inr thread_access_def access_in_range_def write_step_def Let_def split: sum.splits)
  then show ?thesis using read_write [OF r(1)] assms(3) by simp
qed (use assms in \<open>auto simp: thread_step_Inr thread_access_def copy_step_def collect_step_def acquire_step_def borrow_step_def
    release_step_def flag_step_def after_scan_def search_step_def store_step_def swap_step_def reset_step_def Let_def
    split: sum.splits if_splits prod.splits call.splits\<close>)

text \<open>No other thread writes the register.\<close>

lemma register_step_other:
  assumes "thread_step u s = Inr s'" and "u \<noteq> t"
  shows "atomic_register_vector s' ! t = atomic_register_vector s ! t"
  using assms
  by (cases "pcs s ! u")
     (auto simp: thread_step_Inr thread_access_def acquire_step_def borrow_step_def release_step_def flag_step_def
        search_step_def store_step_def swap_step_def reset_step_def write_step_def set_shared_def Let_def
        split: sum.splits if_splits prod.splits)

definition update_done :: "i32 \<Rightarrow> nat \<Rightarrow> sys \<Rightarrow> bool" where
  "update_done w t s \<longleftrightarrow> updating w (pcs s ! t) \<or> (pcs s ! t = Idle \<and> reg_read (atomic_register_vector s ! t) = w)"

lemma update_done_act:
  assumes inv: "scan_inv s" and t: "t < thread_count s" and act: "scan_act e s s'" and e: "\<forall>c. e \<noteq> Call t c"
    and old: "update_done w t s"
  shows "update_done w t s'"
  using act
proof cases
  case (act_call u c)
  then show ?thesis using e old by (cases "u = t") (simp_all add: update_done_def call_step_def)
next
  case (act_access u)
  show ?thesis
  proof (cases "u = t")
    case False
    then show ?thesis using thread_step_other [OF act_access(3)] register_step_other [OF act_access(3)] old
      by (simp add: update_done_def)
  next
    case True
    note f = inv_facts [OF inv t]
    show ?thesis
    proof (cases "updating w (pcs s ! t)")
      case upd: True
      then show ?thesis using updating_step [of t s s' w] act_access(3) True f(2) t by (simp add: update_done_def)
    next
      case False
      then have "s' = s" using old act_access(3) True by (simp add: update_done_def thread_step_Inr thread_access_def)
      then show ?thesis using old by simp
    qed
  qed
qed

lemma update_done_run:
  assumes "scan_run s es s'" and "scan_reach s" and "t < thread_count s" and "\<forall>c. Call t c \<notin> set es" and "update_done w t s"
  shows "update_done w t s'"
  using assms
proof (induction rule: scan_run.induct)
  case (run_cons e s s' es s'')
  have "scan_step s s'" using run_cons.hyps(1) by (auto simp: scan_step_def)
  then have "scan_reach s'" using run_cons.prems(1) by (rule reach_next [rotated])
  moreover have "update_done w t s'"
    using update_done_act [OF scan.always [OF run_cons.prems(1)] run_cons.prems(2) run_cons.hyps(1)] run_cons.prems(3,4) by auto
  moreover have "t < thread_count s'" using act_extends(1) [OF run_cons.hyps(1)] run_cons.prems(2) by simp
  ultimately show ?case using run_cons.IH run_cons.prems(3) by simp
qed

text \<open>A call as writer \<open>k\<close>: once it is over, register \<open>k\<close> holds its value.\<close>

lemma update_by_writer:
  assumes reach: "scan_reach s" and k: "k < thread_count s" "pcs s ! k = Idle"
    and run: "scan_run (call_step k (Update_call w) s) es s'" "\<forall>c. Call k c \<notin> set es" "pcs s' ! k = Idle"
  shows "reg_read (atomic_register_vector s' ! k) = w"
proof -
  let ?s = "call_step k (Update_call w) s"
  have "scan_step s ?s" unfolding scan_step_def using act_call [OF k] by blast
  then have "scan_reach ?s" using reach by (rule reach_next [rotated])
  moreover have "update_done w k ?s"
    using k inv_facts(2) [OF scan.always [OF reach] k(1)] by (simp add: update_done_def call_step_def)
  ultimately have "update_done w k s'" using update_done_run [OF run(1)] k(1) run(2) by (simp add: call_step_def)
  then show ?thesis using run(3) by (auto simp: update_done_def)
qed

lemma update_call_index:
  assumes reach: "scan_reach s" and i: "snd (update_index tid index g) = word_of_nat k" and k: "k < thread_count s"
  shows "update_call tid w index g s = Inr (fst (update_index tid index g), k, call_step k (Update_call w) s)"
proof -
  have inv: "scan_inv s" using reach by (rule scan.always)
  have n: "k < 2 ^ 31" using k inv by (simp add: scan_inv_def shape_ok_def)
  then have "(scast (word_of_nat k :: i32) :: u64) = word_of_nat k" by (simp add: scast_eq sint32_of_nat)
  then have "unat (scast (word_of_nat k :: i32) :: u64) = k"
    using n by (simp add: unat_of_nat take_bit_nat_eq_self)
  then show ?thesis using i k inv_facts(1) [OF inv k]
    by (cases "update_index tid index g") (simp add: update_call_def)
qed

section \<open>Properties\<close>

text \<open>
  C39: threads that register once each get the indices 0, 1, 2, ... in the order of
  registration. A call \<open>update(w, index)\<close> of such a thread with its index, or \<open>update(w)\<close>, which looks the index up,
  leaves the table alone and goes on as the writer of that index; and whenever the call is
  over, whatever the other threads did, this writer's register holds \<open>w\<close>. A thread that
  never registered and calls \<open>update(w)\<close> goes on as writer 0, the first registered thread's.
\<close>

theorem update_writes_registered_index:
  assumes "distinct tids" and "register_all tids registry_new = (g, indices)"
    and "scan_reach s" and "length tids \<le> thread_count s" and "k < length tids" and "index \<in> {-1, indices ! k}"
  shows "indices = map word_of_nat [0..<length tids]
    \<and> update_call (tids ! k) w index g s = Inr (g, k, call_step k (Update_call w) s)
    \<and> (\<forall>es s'. pcs s ! k = Idle \<and> scan_run (call_step k (Update_call w) s) es s' \<and> (\<forall>c. Call k c \<notin> set es)
         \<and> pcs s' ! k = Idle \<longrightarrow> reg_read (atomic_register_vector s' ! k) = w)
    \<and> (\<forall>tid. tid \<notin> set tids \<longrightarrow> (\<exists>g'. update_call tid w (-1) g s = Inr (g', 0, call_step 0 (Update_call w) s)))"
proof -
  have g: "g = fst (register_all tids registry_new)" "indices = snd (register_all tids registry_new)" using assms(2) by simp_all
  note table = register_all_table [OF assms(1), of registry_new, folded g]
  have ind: "indices = map word_of_nat [0..<length tids]" using table by (simp add: registry_new_def)
  have found: "tid_to_index g (tids ! k) = Some (word_of_nat k)" "indices ! k = word_of_nat k"
    using table assms(5) by (simp_all add: registry_new_def ind)
  have k: "k < thread_count s" using assms(4,5) by simp
  have "update_index (tids ! k) index g = (g, word_of_nat k)" using assms(6) found by (auto simp: update_index_def)
  then have call: "update_call (tids ! k) w index g s = Inr (g, k, call_step k (Update_call w) s)"
    using update_call_index [OF assms(3) _ k, of "tids ! k" index g w] by simp
  have "\<exists>g'. update_call tid w (-1) g s = Inr (g', 0, call_step 0 (Update_call w) s)" if "tid \<notin> set tids" for tid
  proof -
    have "tid_to_index g tid = None" using table that by (simp add: registry_new_def)
    then have "snd (update_index tid (-1) g) = word_of_nat 0" by (simp add: update_index_def)
    then show ?thesis using update_call_index [OF assms(3), of tid "-1" g 0 w] k by auto
  qed
  then show ?thesis using ind call update_by_writer [OF assms(3) k] by blast
qed

section \<open>Witness\<close>

text \<open>The second of two registered threads updates without an index.\<close>

theorem update_writes_registered_index_witness:
  "\<exists>g s'. register_all [7, 8] registry_new = (g, [0, 1])
    \<and> update_call 8 5 (-1) g (WaitfreeAtomicSnapshot_new 2) = Inr (g, 1, call_step 1 (Update_call 5) (WaitfreeAtomicSnapshot_new 2))
    \<and> scan_run (call_step 1 (Update_call 5) (WaitfreeAtomicSnapshot_new 2)) (replicate 9 (Access 1)) s'
    \<and> reg_read (atomic_register_vector s' ! 1) = 5"
proof -
  let ?s = "WaitfreeAtomicSnapshot_new 2"
  have new: "scan_reach ?s" "thread_count ?s = 2" "pcs ?s ! 1 = Idle"
    using start_reach [of 2] by (simp_all add: WaitfreeAtomicSnapshot_new_def)
  obtain g where g: "register_all [7, 8] registry_new = (g, [0, 1])"
    by (simp add: RegisterTid_def registry_new_def Let_def)
  have "map_option (\<lambda>s. pcs s ! 1 = Idle) (run_schedule (replicate 9 (Access 1)) (call_step 1 (Update_call 5) ?s)) = Some True"
    by code_simp
  then obtain s' where s': "run_schedule (replicate 9 (Access 1)) (call_step 1 (Update_call 5) ?s) = Some s'" "pcs s' ! 1 = Idle"
    by (auto simp del: run_schedule.simps)
  have run: "scan_run (call_step 1 (Update_call 5) ?s) (replicate 9 (Access 1)) s'" using s'(1) by (rule run_schedule_run)
  have no_call: "\<forall>c. Call 1 c \<notin> set (replicate 9 (Access 1))" by simp
  have "distinct [7, 8 :: nat]" "length [7, 8 :: nat] \<le> thread_count ?s" "1 < length [7, 8 :: nat]" "- 1 \<in> {- 1, [0, 1] ! 1 :: i32}"
    by (simp_all add: new(2))
  note result = update_writes_registered_index [OF this(1) g new(1) this(2-4), of 5]
  have "update_call ([7, 8] ! 1) 5 (-1) g ?s = Inr (g, 1, call_step 1 (Update_call 5) ?s)" using result by blast
  moreover have "reg_read (atomic_register_vector s' ! 1) = 5" using result new(3) run no_call s'(2) by blast
  ultimately show ?thesis using g run by auto
qed

end
