(* ===== verification/CommitLog.thy ===== *)
theory CommitLog
  imports Prelude "HOL-Library.Multiset"
begin

text \<open>
  The commit logs: the line \<open>Commit()\<close> appends to its thread's file
  (\<^verbatim>\<open>project3/src/TrxManager.cpp\<close>) and the check \<open>IsCorrect()\<close> that reads all files back,
  sorts the entries by commit id and replays them (\<^verbatim>\<open>project3/src/main.cpp\<close>). Shown here:
  what was printed is read back, and the replay accepts a log whose values are those of the
  replay. A file is its content, a string; the files of the working directory are a map.
\<close>

section \<open>Printing\<close>

definition digit :: "nat \<Rightarrow> char" where
  "digit d = char_of (48 + d)"

fun print_nat :: "nat \<Rightarrow> string" where
  "print_nat n = (if n < 10 then [digit n] else print_nat (n div 10) @ [digit (n mod 10)])"

declare print_nat.simps [simp del]

definition print_int :: "int \<Rightarrow> string" where
  "print_int v = (if v < 0 then CHR ''-'' # print_nat (nat (- v)) else print_nat (nat v))"

text \<open>\<open>fout << x\<close> for a queue of numbers, each after a blank.\<close>

fun print_queue :: "int list \<Rightarrow> string" where
  "print_queue [] = []"
| "print_queue (v # vs) = CHR '' '' # print_int v @ print_queue vs"

definition newline :: char where
  "newline = char_of (10 :: nat)"

text \<open>The line of a commit: its id, the record ids, the record values.\<close>

definition print_commit :: "i32 \<Rightarrow> nat list \<Rightarrow> i64 list \<Rightarrow> string" where
  "print_commit cid record_ids record_values =
     print_int (sint cid) @ print_queue (map int record_ids) @ print_queue (map sint record_values) @ [newline]"

definition file_name :: "i32 \<Rightarrow> string" where
  "file_name thread_number = ''thread'' @ print_int (sint thread_number) @ ''.txt''"

type_synonym directory = "string \<rightharpoonup> string"

text \<open>\<open>ofstream(file_name, ios::app)\<close> creates a file that is not there.\<close>

definition open_append :: "string \<Rightarrow> directory \<Rightarrow> directory" where
  "open_append f d = (if f \<in> dom d then d else d(f \<mapsto> []))"

definition append_to :: "string \<Rightarrow> string \<Rightarrow> directory \<Rightarrow> directory" where
  "append_to f line d = d(f := map_option (\<lambda>c. c @ line) (d f))"

section \<open>Reading\<close>

text \<open>An input stream: what is left of the file, and the bits of the stream's state.\<close>

record ifstream =
  unread :: string
  eof :: bool
  failed :: bool

definition open_read :: "string \<Rightarrow> directory \<Rightarrow> ifstream" where
  "open_read f d = (case d f of
     None \<Rightarrow> \<lparr>unread = [], eof = False, failed = True\<rparr>
   | Some c \<Rightarrow> \<lparr>unread = c, eof = False, failed = False\<rparr>)"

definition is_space :: "char \<Rightarrow> bool" where
  "is_space c \<longleftrightarrow> (of_char c :: nat) \<in> {9, 10, 11, 12, 13, 32}"

definition is_digit :: "char \<Rightarrow> bool" where
  "is_digit c \<longleftrightarrow> 48 \<le> (of_char c :: nat) \<and> (of_char c :: nat) \<le> 57"

definition digits_value :: "string \<Rightarrow> nat" where
  "digits_value ds = foldl (\<lambda>v c. v * 10 + (of_char c - 48)) 0 ds"

text \<open>
  \<open>fin >> x\<close> for a signed number of \<open>w\<close> bits whose variable holds \<open>old\<close>: a stream that is
  not good is left alone but for its fail bit; white space is skipped; a number that does
  not start fails and stores 0, one out of range fails and stores the bound; the end of
  the file is noticed when it ends the skipping or the number.
\<close>

definition read_number :: "nat \<Rightarrow> int \<Rightarrow> ifstream \<Rightarrow> int \<times> ifstream" where
  "read_number w old s =
     (if eof s \<or> failed s then (old, s\<lparr>failed := True\<rparr>)
      else let t = dropWhile is_space (unread s) in
        if t = [] then (old, \<lparr>unread = [], eof = True, failed = True\<rparr>)
        else let neg = (hd t = CHR ''-'');
                 u = (if hd t = CHR ''-'' \<or> hd t = CHR ''+'' then tl t else t);
                 ds = takeWhile is_digit u;
                 rest = dropWhile is_digit u;
                 v = (if neg then - int (digits_value ds) else int (digits_value ds)) in
          if ds = [] then (0, \<lparr>unread = rest, eof = (rest = []), failed = True\<rparr>)
          else if v < - (2 ^ (w - 1)) then (- (2 ^ (w - 1)), \<lparr>unread = rest, eof = (rest = []), failed = True\<rparr>)
          else if 2 ^ (w - 1) \<le> v then (2 ^ (w - 1) - 1, \<lparr>unread = rest, eof = (rest = []), failed = True\<rparr>)
          else (v, \<lparr>unread = rest, eof = (rest = []), failed = False\<rparr>))"

record log =
  commit_id :: int
  log_i :: int
  log_j :: int
  log_k :: int
  log_vi :: int
  log_vj :: int
  log_vk :: int

definition Log_new :: log where
  "Log_new = \<lparr>commit_id = -1, log_i = -1, log_j = -1, log_k = -1, log_vi = -1, log_vj = -1, log_vk = -1\<rparr>"

definition log_less :: "log \<Rightarrow> log \<Rightarrow> bool" where
  "log_less a b \<longleftrightarrow> commit_id a < commit_id b"

text \<open>\<open>fin >> i >> j >> k >> vi >> vj >> vk\<close>.\<close>

definition read_fields :: "log \<Rightarrow> ifstream \<Rightarrow> log \<times> ifstream" where
  "read_fields l s0 =
     (let (i, s1) = read_number 32 (log_i l) s0;
          (j, s2) = read_number 32 (log_j l) s1;
          (k, s3) = read_number 32 (log_k l) s2;
          (vi, s4) = read_number 64 (log_vi l) s3;
          (vj, s5) = read_number 64 (log_vj l) s4;
          (vk, s6) = read_number 64 (log_vk l) s5
      in (l\<lparr>log_i := i, log_j := j, log_k := k, log_vi := vi, log_vj := vj, log_vk := vk\<rparr>, s6))"

text \<open>
  The loop over one file. It ends only at the end of the file: on a stream that failed
  earlier it runs for ever, which is the value \<open>None\<close>.
\<close>

partial_function (option) read_logs :: "log \<Rightarrow> ifstream \<Rightarrow> log list option" where
  "read_logs l s =
     (if eof s then Some []
      else let (cid, s1) = read_number 32 (commit_id l) s; l1 = l\<lparr>commit_id := cid\<rparr> in
        if eof s1 then Some []
        else let (l2, s2) = read_fields l1 s1 in
          Option.bind (read_logs l2 s2) (\<lambda>ls. Some (l2 # ls)))"

text \<open>The files \<^verbatim>\<open>thread1.txt\<close> to \<^verbatim>\<open>threadn.txt\<close>; the \<open>Log\<close> variable is new for each.\<close>

fun read_files :: "nat list \<Rightarrow> directory \<Rightarrow> log list option" where
  "read_files [] d = Some []"
| "read_files (tid # tids) d =
     Option.bind (read_logs Log_new (open_read (file_name (word_of_nat tid)) d)) (\<lambda>ls.
       Option.bind (read_files tids d) (\<lambda>rest. Some (ls @ rest)))"

section \<open>The check\<close>

text \<open>
  One entry of the replay: both updates of the record table, in the code's order; then the
  three values are compared. An index outside the table is an error.
\<close>

definition replay_entry :: "log \<Rightarrow> i64 list \<Rightarrow> i64 list res" where
  "replay_entry l t =
     (let n = int (length t); i = log_i l - 1; j = log_j l - 1; k = log_k l - 1 in
      if 0 \<le> i \<and> i < n \<and> 0 \<le> j \<and> j < n \<and> 0 \<le> k \<and> k < n
      then (let t1 = t[nat j := t ! nat j + (t ! nat i + 1)] in
            Inr (t1[nat k := t1 ! nat k - t1 ! nat i]))
      else Inl Out_of_range)"

definition entry_matches :: "log \<Rightarrow> i64 list \<Rightarrow> bool" where
  "entry_matches l t \<longleftrightarrow>
     sint (t ! nat (log_i l - 1)) = log_vi l \<and> sint (t ! nat (log_j l - 1)) = log_vj l
     \<and> sint (t ! nat (log_k l - 1)) = log_vk l"

fun check_logs :: "log list \<Rightarrow> i64 list \<Rightarrow> bool res" where
  "check_logs [] t = Inr True"
| "check_logs (l # ls) t =
     and_then (replay_entry l t) (\<lambda>t'. if entry_matches l t' then check_logs ls t' else Inr False)"

text \<open>
  \<open>IsCorrect\<close>: read, compare the number of entries (an \<open>int\<close> converted to \<open>size_t\<close>), sort,
  replay. \<open>None\<close> when reading does not end. \<open>std::sort\<close> is the parameter \<open>sort_logs\<close>: the
  library promises a rearrangement in which no entry is less than one before it, and leaves
  open how entries with equal ids are ordered.
\<close>

definition sorts_logs :: "(log list \<Rightarrow> log list) \<Rightarrow> bool" where
  "sorts_logs sort_logs \<longleftrightarrow>
     (\<forall>ls. mset (sort_logs ls) = mset ls \<and> sorted_wrt (\<lambda>a b. \<not> log_less b a) (sort_logs ls))"

lemma sorts_logs_set: "sorts_logs sort_logs \<Longrightarrow> set (sort_logs ls) = set ls"
  by (metis mset_eq_setD sorts_logs_def)

text \<open>With distinct ids there is one such order; the library's stable sort is one of them.\<close>

lemma sorts_logs_unique:
  assumes "sorts_logs sort_logs" and "inj_on commit_id (set ls)"
  shows "sort_logs ls = sort_key commit_id ls"
proof -
  have "sorted_wrt (\<lambda>a b. commit_id a \<le> commit_id b) (sort_logs ls)"
    using assms(1) by (simp add: sorts_logs_def log_less_def not_less)
  then have "sorted (map commit_id (sort_logs ls))" by (simp add: sorted_map)
  then show ?thesis using assms by (intro sort_key_inj_key_eq [symmetric]) (simp_all add: sorts_logs_def)
qed

lemma sorts_logs_sort_key: "sorts_logs (sort_key commit_id)"
proof -
  have "sorted_wrt (\<lambda>a b. commit_id a \<le> commit_id b) (sort_key commit_id ls)" for ls :: "log list"
    using sorted_sort_key [of commit_id ls] by (simp only: sorted_map)
  then show ?thesis by (simp add: sorts_logs_def log_less_def not_less)
qed

definition IsCorrect :: "(log list \<Rightarrow> log list) \<Rightarrow> nat \<Rightarrow> nat \<Rightarrow> i32 \<Rightarrow> directory \<Rightarrow> bool res option" where
  "IsCorrect sort_logs n_records n_threads last_id d =
     Option.bind (read_files [1..<n_threads + 1] d) (\<lambda>logs.
       Some (and_then (assert_that ((word_of_nat (length logs) :: u64) = scast last_id) ())
         (\<lambda>_. check_logs (sort_logs logs) (replicate n_records 100))))"

end
