(* ===== verification/LogText.thy ===== *)
theory LogText
  imports CommitLog
begin

text \<open>
  Reading the commit logs back: a printed number is read, whatever white space is before
  it, up to the first character that is no digit; a file of commit lines is read as the
  entries that were printed, in their order; the files of all threads one after the other.
\<close>

section \<open>Digits\<close>

lemma digit_code: "d < 10 \<Longrightarrow> (of_char (digit d) :: nat) = 48 + d"
  by (simp add: digit_def)

lemma digit_is_digit: "d < 10 \<Longrightarrow> is_digit (digit d)"
  by (simp add: is_digit_def digit_code)

lemma print_nat_digits: "c \<in> set (print_nat n) \<Longrightarrow> is_digit c"
proof (induction n rule: print_nat.induct)
  case (1 n)
  then show ?case by (cases "n < 10") (auto simp: print_nat.simps [of n] digit_is_digit)
qed

lemma print_nat_nonempty: "print_nat n \<noteq> []"
  by (simp add: print_nat.simps [of n])

lemma digits_value_snoc: "digits_value (ds @ [c]) = digits_value ds * 10 + (of_char c - 48)"
  by (simp add: digits_value_def)

lemma digits_value_print: "digits_value (print_nat n) = n"
proof (induction n rule: print_nat.induct)
  case (1 n)
  show ?case
  proof (cases "n < 10")
    case True
    then show ?thesis by (simp add: print_nat.simps [of n] digits_value_def digit_code)
  next
    case False
    have "digits_value (print_nat n) = digits_value (print_nat (n div 10)) * 10 + n mod 10"
      using False by (simp add: print_nat.simps [of n] digits_value_snoc digit_code)
    then show ?thesis using 1 [OF False] by simp
  qed
qed

lemma print_nat_inject: "print_nat m = print_nat n \<longleftrightarrow> m = n"
  using digits_value_print by metis

lemma digit_no_space: "is_digit c \<Longrightarrow> \<not> is_space c"
  and digit_no_sign: "is_digit c \<Longrightarrow> c \<noteq> CHR ''-'' \<and> c \<noteq> CHR ''+''"
  by (auto simp: is_digit_def is_space_def)

lemma print_int_inject: "print_int v = print_int w \<longleftrightarrow> v = w"
proof
  have sign: "print_nat n \<noteq> CHR ''-'' # xs" "CHR ''-'' # xs \<noteq> print_nat n" for n xs
    using digit_no_sign print_nat_digits by (metis list.set_intros(1))+
  assume eq: "print_int v = print_int w"
  show "v = w"
  proof (cases "v < 0 \<longleftrightarrow> w < 0")
    case True
    then show ?thesis using eq by (auto simp: print_int_def print_nat_inject split: if_splits)
  next
    case False
    then show ?thesis using eq sign by (auto simp: print_int_def split: if_splits)
  qed
qed simp

section \<open>Numbers\<close>

definition good :: "string \<Rightarrow> ifstream" where
  "good c = \<lparr>unread = c, eof = False, failed = False\<rparr>"

lemma span_digits:
  assumes "\<forall>c \<in> set ds. is_digit c" and "rest = [] \<or> \<not> is_digit (hd rest)"
  shows "takeWhile is_digit (ds @ rest) = ds" "dropWhile is_digit (ds @ rest) = rest"
  using assms by (cases rest; simp add: takeWhile_append dropWhile_append)+

lemma read_number_print:
  assumes "\<forall>c \<in> set pre. is_space c" and "rest \<noteq> []" "\<not> is_digit (hd rest)"
    and "- (2 ^ (w - 1)) \<le> v" and "v < 2 ^ (w - 1)"
  shows "read_number w old (good (pre @ print_int v @ rest)) = (v, good rest)"
proof -
  define u where "u = print_nat (nat \<bar>v\<bar>)"
  have d: "\<forall>c \<in> set u. is_digit c" "u \<noteq> []" using print_nat_digits print_nat_nonempty by (auto simp: u_def)
  then have h: "is_digit (hd u)" by simp
  have p: "print_int v = (if v < 0 then CHR ''-'' # u else u)" by (simp add: print_int_def u_def)
  have num: "digits_value u = nat \<bar>v\<bar>" by (simp add: u_def digits_value_print)
  have minus: "\<not> is_space (CHR ''-'')" by (simp add: is_space_def)
  have "\<not> is_space (hd (print_int v))" "print_int v \<noteq> []"
    using h d(2) minus digit_no_space by (simp_all add: p)
  then have skip: "dropWhile is_space (pre @ print_int v @ rest) = print_int v @ rest"
    using assms(1) by (cases "print_int v") (simp_all add: dropWhile_append2)
  show ?thesis
    using assms span_digits [OF d(1), of rest] d(2) h digit_no_sign [OF h] num
    by (simp add: read_number_def good_def skip Let_def) (simp add: p hd_append, meson hd_in_set UnI2)
qed

section \<open>Lines and files\<close>

definition log_line :: "log \<Rightarrow> string" where
  "log_line e = print_int (commit_id e) @ print_queue [log_i e, log_j e, log_k e]
     @ print_queue [log_vi e, log_vj e, log_vk e] @ [newline]"

text \<open>The fields fit the variables they are read into.\<close>

definition log_fits :: "log \<Rightarrow> bool" where
  "log_fits e \<longleftrightarrow> (\<forall>v \<in> {commit_id e, log_i e, log_j e, log_k e}. - (2 ^ 31) \<le> v \<and> v < 2 ^ 31)
     \<and> (\<forall>v \<in> {log_vi e, log_vj e, log_vk e}. - (2 ^ 63) \<le> v \<and> v < 2 ^ 63)"

lemma separators: "is_space (CHR '' '')" "is_space newline" "\<not> is_digit (CHR '' '')" "\<not> is_digit newline"
  by (simp_all add: is_space_def is_digit_def newline_def)

lemma good_fields [simp]: "eof (good c) = False"
  by (simp add: good_def)

lemma read_number_blank:
  assumes "rest \<noteq> []" "\<not> is_digit (hd rest)" and "- (2 ^ (w - 1)) \<le> v" and "v < 2 ^ (w - 1)"
  shows "read_number w old (good (CHR '' '' # print_int v @ rest)) = (v, good rest)"
  using read_number_print [of "[CHR '' '']" rest w v old] assms by (simp add: separators)

lemma read_entry:
  assumes "log_fits e" and "\<forall>c \<in> set pre. is_space c"
  shows "read_number 32 old (good (pre @ log_line e @ rest)) =
      (commit_id e, good (print_queue [log_i e, log_j e, log_k e]
        @ print_queue [log_vi e, log_vj e, log_vk e] @ newline # rest))"
    and "read_fields (l\<lparr>commit_id := commit_id e\<rparr>) (good (print_queue [log_i e, log_j e, log_k e]
        @ print_queue [log_vi e, log_vj e, log_vk e] @ newline # rest)) = (e, good (newline # rest))"
proof -
  note sep = separators
  show "read_number 32 old (good (pre @ log_line e @ rest)) =
      (commit_id e, good (print_queue [log_i e, log_j e, log_k e]
        @ print_queue [log_vi e, log_vj e, log_vk e] @ newline # rest))"
    using read_number_print [of pre _ 32 "commit_id e" old] assms by (simp add: log_line_def log_fits_def sep)
  show "read_fields (l\<lparr>commit_id := commit_id e\<rparr>) (good (print_queue [log_i e, log_j e, log_k e]
        @ print_queue [log_vi e, log_vj e, log_vk e] @ newline # rest)) = (e, good (newline # rest))"
    using assms(1) by (simp add: read_fields_def read_number_blank log_fits_def sep)
qed

lemma read_logs_lines:
  "\<forall>e \<in> set es. log_fits e \<Longrightarrow> \<forall>c \<in> set pre. is_space c \<Longrightarrow>
    read_logs l (good (pre @ concat (map log_line es))) = Some es"
proof (induction es arbitrary: pre l)
  case Nil
  have "dropWhile is_space pre = []" using Nil.prems(2) by simp
  then show ?case by (subst read_logs.simps) (simp add: read_number_def good_def)
next
  case (Cons e es)
  have e: "log_fits e" using Cons.prems(1) by simp
  have ih: "read_logs l' (good (newline # concat (map log_line es))) = Some es" for l'
    using Cons.IH [of "[newline]" l'] Cons.prems(1) by (simp add: separators)
  show ?case
    using read_entry(1) [OF e Cons.prems(2), of "commit_id l" "concat (map log_line es)"]
      read_entry(2) [OF e Cons.prems(2), of l "concat (map log_line es)"] ih
    by (subst read_logs.simps) simp
qed

lemma read_files_lines:
  assumes "\<And>n. n \<in> set ns \<Longrightarrow> d (file_name (word_of_nat n)) = Some (concat (map log_line (f n)))"
    and "\<And>n. n \<in> set ns \<Longrightarrow> \<forall>e \<in> set (f n). log_fits e"
  shows "read_files ns d = Some (concat (map f ns))"
  using assms
proof (induction ns)
  case (Cons n ns)
  have "read_logs Log_new (open_read (file_name (word_of_nat n)) d) = Some (f n)"
    using read_logs_lines [OF Cons.prems(2) [of n], of "[]" Log_new] Cons.prems(1) [of n]
    by (simp add: open_read_def good_def)
  moreover have "read_files ns d = Some (concat (map f ns))"
    using Cons.prems by (intro Cons.IH) (meson list.set_intros(2))+
  ultimately show ?case by simp
qed simp

text \<open>File names of different threads differ.\<close>

lemma file_name_inject: "file_name a = file_name b \<longleftrightarrow> a = b"
  by (auto simp: file_name_def print_int_inject intro: signed_word_eqI)

lemma print_commit_line:
  assumes "sint cid = commit_id e" and "map int rs = [log_i e, log_j e, log_k e]"
    and "map sint vs = [log_vi e, log_vj e, log_vk e]"
  shows "print_commit cid rs vs = log_line e"
  unfolding print_commit_def log_line_def assms by simp

text \<open>
  On a stream that failed without reaching the end of its file, the loop never ends.
\<close>

lemma read_logs_stuck: "\<not> eof s \<Longrightarrow> failed s \<Longrightarrow> read_logs l s = None"
proof -
  have "read_logs l s = Some y \<Longrightarrow> \<not> eof s \<longrightarrow> \<not> failed s" for l s y
    by (rule read_logs.raw_induct [where P = "\<lambda>l s y. \<not> eof s \<longrightarrow> \<not> failed s"])
       (auto simp: read_number_def read_fields_def Let_def split: bind_splits if_splits, fastforce)
  then show "\<not> eof s \<Longrightarrow> failed s \<Longrightarrow> read_logs l s = None" by (cases "read_logs l s") auto
qed

end
