(* ===== verification/Arguments.thy ===== *)
theory Arguments
  imports LogText
begin

text \<open>
  How the two programs read the numbers on their command line: \<open>std::stoi\<close>, and the ways a
  program can end.
\<close>

text \<open>How the program ends: normally, by an exception nobody catches, by a failed check of
  the run time, or not at all.\<close>

datatype ending = Return_zero | Invalid_argument | Out_of_int_range | Bad_array_length | Length_error | Run_failed err | Never_ends

text \<open>\<open>std::stoi\<close>: white space, a sign and digits; what follows them is not looked at.\<close>

definition stoi :: "string \<Rightarrow> ending + i32" where
  "stoi text =
     (let t = dropWhile is_space text;
          u = (if t \<noteq> [] \<and> (hd t = CHR ''-'' \<or> hd t = CHR ''+'') then tl t else t);
          ds = takeWhile is_digit u;
          v = (if t \<noteq> [] \<and> hd t = CHR ''-'' then - int (digits_value ds) else int (digits_value ds))
      in if ds = [] then Inl Invalid_argument
         else if v < - (2 ^ 31) \<or> 2 ^ 31 \<le> v then Inl Out_of_int_range
         else Inr (word_of_int v))"

lemma stoi_print: "stoi (print_int (sint v) @ rest) = Inr v" if "rest = [] \<or> \<not> is_digit (hd rest)"
proof -
  define u where "u = print_nat (nat \<bar>sint v\<bar>)"
  have d: "\<forall>c \<in> set u. is_digit c" "u \<noteq> []" using print_nat_digits print_nat_nonempty by (auto simp: u_def)
  then have h: "is_digit (hd u)" by simp
  have p: "print_int (sint v) = (if sint v < 0 then CHR ''-'' # u else u)" by (simp add: print_int_def u_def)
  have num: "digits_value u = nat \<bar>sint v\<bar>" by (simp add: u_def digits_value_print)
  have minus: "\<not> is_space (CHR ''-'')" by (simp add: is_space_def)
  have first: "\<not> is_space (hd (print_int (sint v)))" "print_int (sint v) \<noteq> []"
    using h d(2) minus digit_no_space by (simp_all add: p)
  then have skip: "dropWhile is_space (print_int (sint v) @ rest) = print_int (sint v) @ rest"
    by (cases "print_int (sint v)") simp_all
  have range: "- (2 ^ 31) \<le> sint v" "sint v < 2 ^ 31" using sint_ge [of v] sint_lt [of v] by simp_all
  show ?thesis
    using range span_digits [OF d(1) that] d(2) h digit_no_sign [OF h] num
    by (simp add: stoi_def skip Let_def) (simp add: p hd_append, linarith)
qed

end
