(* ===== verification/SnapshotDriver.thy ===== *)
theory SnapshotDriver
  imports Registration Arguments
begin

text \<open>
  The program of \<^verbatim>\<open>project2/src/main.cpp\<close>: \<open>main()\<close> starts threads that run \<open>CountUpdate\<close>,
  which registers the thread, updates its register of the snapshot object until a minute is
  over, and adds the number of its updates to a global count. The steps are those of the
  object's machine and the steps of \<open>CountUpdate\<close> around them. When the minute is over and
  which values are written is left open. Shown here: the program uses the object the way
  \<open>ScanMachine\<close> assumes, every thread with a register of its own, and it counts the writes.
\<close>

section \<open>The program\<close>

text \<open>
  Where a thread is in \<open>CountUpdate\<close>, with its locals \<open>index\<close> and \<open>count\<close> (here \<open>n_updates\<close>), and inside
  \<open>update()\<close> the writer as which it runs.
\<close>

datatype count_phase = Unregistered | Looping i32 i32 | Updating i32 nat i32 | Counted i32 i32

record driver =
  object :: sys
  tids :: registry
  phases :: "count_phase list"
  total_count :: i32

definition driver_new :: "nat \<Rightarrow> driver" where
  "driver_new n = \<lparr>object = WaitfreeAtomicSnapshot_new n, tids = registry_new,
     phases = replicate n Unregistered, total_count = 0\<rparr>"

definition at_phase :: "nat \<Rightarrow> count_phase \<Rightarrow> driver \<Rightarrow> driver" where
  "at_phase u p d = d\<lparr>phases := (phases d)[u := p]\<rparr>"

text \<open>
  The events of thread \<open>u\<close>: its registration, the call of an update while time is left, an
  access inside the update (\<open>count++\<close> is done when the update returns), and the end of the
  loop with the \<open>fetch_add\<close>. An event that cannot happen, and an access that fails, is
  \<open>None\<close>.
\<close>

datatype drive_event = Register nat | Call_update nat i32 | Advance nat | Time_over nat

fun drive :: "drive_event \<Rightarrow> driver \<Rightarrow> driver option" where
  "drive (Register u) d =
     (if u < length (phases d) \<and> phases d ! u = Unregistered
      then (let (g, index) = RegisterTid u (tids d) in Some (at_phase u (Looping index 0) (d\<lparr>tids := g\<rparr>)))
      else None)"
| "drive (Call_update u w) d =
     (if u < length (phases d)
      then (case phases d ! u of
              Looping index n_updates \<Rightarrow>
                (case update_call u w index (tids d) (object d) of
                   Inl e \<Rightarrow> None
                 | Inr (g, k, s) \<Rightarrow> Some (at_phase u (Updating index k n_updates) (d\<lparr>object := s, tids := g\<rparr>)))
            | _ \<Rightarrow> None) else None)"
| "drive (Advance u) d =
     (if u < length (phases d)
      then (case phases d ! u of
              Updating index k n_updates \<Rightarrow>
                (case thread_step k (object d) of
                   Inl e \<Rightarrow> None
                 | Inr s \<Rightarrow> Some (at_phase u (if pcs s ! k = Idle then Looping index (n_updates + 1) else Updating index k n_updates)
                     (d\<lparr>object := s\<rparr>)))
            | _ \<Rightarrow> None) else None)"
| "drive (Time_over u) d =
     (if u < length (phases d)
      then (case phases d ! u of
              Looping index n_updates \<Rightarrow>
                Some (at_phase u (Counted index n_updates) (d\<lparr>total_count := total_count d + n_updates\<rparr>))
            | _ \<Rightarrow> None) else None)"

definition drive_step :: "driver \<Rightarrow> driver \<Rightarrow> bool" where
  "drive_step d d' \<longleftrightarrow> (\<exists>e. drive e d = Some d')"

fun run_driver :: "drive_event list \<Rightarrow> driver \<Rightarrow> driver option" where
  "run_driver [] d = Some d"
| "run_driver (e # es) d = (case drive e d of None \<Rightarrow> None | Some d' \<Rightarrow> run_driver es d')"

text \<open>
  \<open>main()\<close>: what is printed before the threads start and the program's end or the state the
  threads start in; the vectors of the object cannot reserve a negative number of entries.
  Then the line printed after the threads are joined.
\<close>

definition snapshot_main_start :: "string list \<Rightarrow> string \<times> (ending + driver)" where
  "snapshot_main_start argv =
     (if length argv < 2 then (''Not enough argument'' @ [newline], Inl Return_zero)
      else case stoi (argv ! 1) of
             Inl e \<Rightarrow> ([], Inl e)
           | Inr n \<Rightarrow> (''Total thread count is '' @ print_int (sint n) @ [newline],
               if n <s 0 then Inl Length_error else Inr (driver_new (nat (sint n)))))"

definition snapshot_main_end :: "driver \<Rightarrow> string" where
  "snapshot_main_end d = ''Total update count is '' @ print_int (sint (total_count d)) @ [newline]"

definition drive_start :: "driver \<Rightarrow> bool" where
  "drive_start d \<longleftrightarrow> (\<exists>n. n < 2 ^ 31 - 1 \<and> d = driver_new n)"

section \<open>The invariant\<close>

fun index_of :: "count_phase \<Rightarrow> nat option" where
  "index_of Unregistered = None"
| "index_of (Looping i c) = Some (unat i)"
| "index_of (Updating i k c) = Some (unat i)"
| "index_of (Counted i c) = Some (unat i)"

fun count_of :: "count_phase \<Rightarrow> i32" where
  "count_of Unregistered = 0"
| "count_of (Looping i c) = c"
| "count_of (Updating i k c) = c"
| "count_of (Counted i c) = c"

fun counted_of :: "count_phase \<Rightarrow> i32" where
  "counted_of (Counted i c) = c"
| "counted_of p = 0"

fun in_update :: "pc \<Rightarrow> bool" where
  "in_update Idle = False"
| "in_update (Copying c f) = (c \<noteq> Scan_call)"
| "in_update (Collecting c cc f g b) = (c \<noteq> Scan_call)"
| "in_update (Acquiring c i) = (c \<noteq> Scan_call)"
| "in_update (Borrowing c i x a) = (c \<noteq> Scan_call)"
| "in_update (Releasing c i x v) = (c \<noteq> Scan_call)"
| "in_update (Flagging c i x v) = (c \<noteq> Scan_call)"
| "in_update (Scanned c v) = (c \<noteq> Scan_call)"
| "in_update p = True"

text \<open>The register \<open>i\<close> is used by a thread in phase \<open>p\<close> as its program counter \<open>q\<close> says.\<close>

definition fits :: "count_phase \<Rightarrow> pc \<Rightarrow> bool" where
  "fits p q \<longleftrightarrow> (case p of Updating i k c \<Rightarrow> in_update q \<and> k = unat i | _ \<Rightarrow> q = Idle)"

definition writes_of :: "sys \<Rightarrow> nat" where
  "writes_of s = length (hist s) - 1"

definition driver_ok :: "driver \<Rightarrow> nat list \<Rightarrow> bool" where
  "driver_ok d us \<longleftrightarrow>
     scan_reach (object d) \<and> thread_count (object d) = length (phases d) \<and> distinct us
     \<and> set us = {u. u < length (phases d) \<and> phases d ! u \<noteq> Unregistered} \<and> tid_index (tids d) = word_of_nat (length us)
     \<and> (\<forall>k < length us. index_of (phases d ! (us ! k)) = Some k \<and> fits (phases d ! (us ! k)) (pcs (object d) ! k))
     \<and> (\<forall>k. length us \<le> k \<longrightarrow> k < length (phases d) \<longrightarrow> pcs (object d) ! k = Idle)
     \<and> (\<Sum>u<length (phases d). count_of (phases d ! u)) = word_of_nat (writes_of (object d))
     \<and> (\<Sum>u<length (phases d). counted_of (phases d ! u)) = total_count d"

lemma sum_upd:
  fixes f :: "count_phase \<Rightarrow> i32"
  assumes "u < length ps"
  shows "(\<Sum>v<length ps. f (ps[u := p] ! v)) = (\<Sum>v<length ps. f (ps ! v)) - f (ps ! u) + f p"
proof -
  have "(\<Sum>v<length ps. f (ps[u := p] ! v)) = f p + (\<Sum>v\<in>{..<length ps} - {u}. f (ps ! v))"
    using assms by (subst sum.remove [of _ u]) (auto intro!: sum.cong)
  moreover have "(\<Sum>v<length ps. f (ps ! v)) = f (ps ! u) + (\<Sum>v\<in>{..<length ps} - {u}. f (ps ! v))"
    using assms by (intro sum.remove) auto
  ultimately show ?thesis by simp
qed

lemma in_update_step:
  assumes "thread_step i s = Inr s'" and "in_update (pcs s ! i)" and "i < length (pcs s)"
  shows "(pcs s' ! i = Idle \<and> length (hist s') = Suc (length (hist s)))
    \<or> (in_update (pcs s' ! i) \<and> hist s' = hist s)"
  using assms
  by (cases "pcs s ! i")
     (auto simp: thread_step_Inr thread_access_def copy_step_def collect_step_def acquire_step_def borrow_step_def release_step_def flag_step_def
        after_scan_def search_step_def store_step_def swap_step_def reset_step_def write_step_def Let_def
        split: sum.splits if_splits prod.splits call.splits)


lemma driver_okD:
  assumes "driver_ok d us" and "u < length (phases d)" and "index_of (phases d ! u) = Some i"
  shows "i < length us" "us ! i = u" "i < thread_count (object d)" "fits (phases d ! u) (pcs (object d) ! i)"
    "length (pcs (object d)) = thread_count (object d)"
proof -
  have "u \<in> set us" using assms by (cases "phases d ! u") (auto simp: driver_ok_def)
  then obtain k where k: "k < length us" "us ! k = u" by (auto simp: in_set_conv_nth)
  then have i: "k = i" using assms(1,3) by (auto simp: driver_ok_def)
  then show us: "i < length us" "us ! i = u" using k by simp_all
  show "fits (phases d ! u) (pcs (object d) ! i)" using assms(1) k i by (auto simp: driver_ok_def)
  have "length us \<le> length (phases d)"
  proof -
    have "length us = card (set us)" by (rule distinct_card [symmetric]) (use assms(1) in \<open>simp add: driver_ok_def\<close>)
    also have "set us \<subseteq> {..<length (phases d)}" using assms(1) by (auto simp: driver_ok_def)
    then have "card (set us) \<le> length (phases d)" by (metis card_lessThan card_mono finite_lessThan)
    finally show ?thesis .
  qed
  then show "i < thread_count (object d)" using us(1) assms(1) by (simp add: driver_ok_def)
  have "scan_inv (object d)" using assms(1) by (simp add: driver_ok_def scan.always)
  then show "length (pcs (object d)) = thread_count (object d)" by (simp add: scan_inv_def shape_ok_def)
qed

text \<open>
  A step of one thread with its index: the phase moves on, the object makes a step at that
  index or none, and the counts keep up with the writes.
\<close>

lemma driver_ok_move:
  assumes ok: "driver_ok d us" and u: "u < length (phases d)" "index_of (phases d ! u) = Some i"
    and p: "index_of p = Some i" "fits p (pcs s ! i)"
    and s: "scan_reach s" "thread_count s = thread_count (object d)" "\<And>j. j \<noteq> i \<Longrightarrow> pcs s ! j = pcs (object d) ! j"
    and w: "word_of_nat (writes_of s) = word_of_nat (writes_of (object d)) - count_of (phases d ! u) + count_of p"
    and c: "c = total_count d - counted_of (phases d ! u) + counted_of p"
  shows "driver_ok (at_phase u p (d\<lparr>object := s, total_count := c\<rparr>)) us"
proof -
  note D = driver_okD [OF ok u]
  have other: "us ! k \<noteq> u" if "k < length us" "k \<noteq> i" for k
    using that D(1,2) ok by (auto simp: driver_ok_def nth_eq_iff_index_eq)
  have "phases d ! u \<noteq> Unregistered" "p \<noteq> Unregistered" using u(2) p(1) by auto
  then have "set us = {v. v < length (phases d) \<and> (phases d)[u := p] ! v \<noteq> Unregistered}"
    using ok u(1) by (auto simp: driver_ok_def nth_upd)
  moreover have "index_of ((phases d)[u := p] ! (us ! k)) = Some k \<and> fits ((phases d)[u := p] ! (us ! k)) (pcs s ! k)"
    if "k < length us" for k
    using that other [OF that] ok p s(3) D(2) u(1) by (cases "k = i") (auto simp: driver_ok_def)
  moreover have "pcs s ! k = Idle" if "length us \<le> k" "k < length (phases d)" for k
    using that D(1) ok s(3) [of k] by (auto simp: driver_ok_def)
  moreover note sum_upd [OF u(1), of count_of p] sum_upd [OF u(1), of counted_of p]
  ultimately show ?thesis using ok s(1,2) w c by (simp add: driver_ok_def at_phase_def)
qed

lemma register_ok:
  assumes ok: "driver_ok d us" and u: "u < length (phases d)" "phases d ! u = Unregistered"
    and reg: "RegisterTid u (tids d) = (g, i)"
  shows "driver_ok (at_phase u (Looping i 0) (d\<lparr>tids := g\<rparr>)) (us @ [u])"
proof -
  have i: "i = word_of_nat (length us)" "tid_index g = word_of_nat (Suc (length us))" using reg ok by (auto simp: RegisterTid_def driver_ok_def Let_def)
  have new: "u \<notin> set us" using ok u by (auto simp: driver_ok_def)
  have "length us < length (phases d)"
  proof -
    have "distinct us" using ok by (simp add: driver_ok_def)
    then have "Suc (length us) = card (insert u (set us))" using new distinct_card [of us] by simp
    also have "insert u (set us) \<subseteq> {..<length (phases d)}" using ok u by (auto simp: driver_ok_def)
    then have "card (insert u (set us)) \<le> length (phases d)" by (metis card_lessThan card_mono finite_lessThan)
    finally show ?thesis by simp
  qed
  moreover have "scan_inv (object d)" using ok by (simp add: driver_ok_def scan.always)
  then have "length (phases d) < 2 ^ 31 - 1" using ok by (simp add: driver_ok_def scan_inv_def shape_ok_def)
  ultimately have ui: "unat i = length us" by (simp add: i(1) unat_of_nat take_bit_nat_eq_self)
  have idle: "pcs (object d) ! length us = Idle" using ok \<open>length us < length (phases d)\<close> by (simp add: driver_ok_def)
  have "set (us @ [u]) = {v. v < length (phases d) \<and> (phases d)[u := Looping i 0] ! v \<noteq> Unregistered}"
    using ok u by (auto simp: driver_ok_def nth_upd)
  moreover have "index_of ((phases d)[u := Looping i 0] ! ((us @ [u]) ! k)) = Some k
      \<and> fits ((phases d)[u := Looping i 0] ! ((us @ [u]) ! k)) (pcs (object d) ! k)" if "k < length (us @ [u])" for k
  proof (cases "k = length us")
    case True
    then show ?thesis using ui u idle by (simp add: fits_def)
  next
    case False
    then have k: "k < length us" "(us @ [u]) ! k = us ! k" using that by (simp_all add: nth_append)
    then have "us ! k \<noteq> u" using new by auto
    then show ?thesis using k ok by (simp add: driver_ok_def)
  qed
  moreover note sum_upd [OF u(1), of count_of "Looping i 0"] sum_upd [OF u(1), of counted_of "Looping i 0"]
  ultimately show ?thesis using ok i u new by (simp add: driver_ok_def at_phase_def)
qed

lemma drive_ok:
  assumes ok: "driver_ok d us" and step: "drive e d = Some d'"
  shows "\<exists>us. driver_ok d' us"
proof (cases e)
  case (Register u)
  then show ?thesis using step register_ok [OF ok] by (auto split: if_splits prod.splits)
next
  case (Call_update u w)
  then obtain i c g k s where u: "u < length (phases d)" "phases d ! u = Looping i c"
    and call: "update_call u w i (tids d) (object d) = Inr (g, k, s)"
    and d': "d' = at_phase u (Updating i k c) (d\<lparr>object := s, tids := g\<rparr>)"
    using step by (auto split: if_splits count_phase.splits sum.splits prod.splits)
  note D = driver_okD [OF ok u(1), of "unat i", unfolded u(2), simplified]
  have reach_d: "scan_reach (object d)" using ok by (simp add: driver_ok_def)
  have "scan_inv (object d)" using reach_d by (rule scan.always)
  then have "unat i < 2 ^ 31 - 1" using D(3) by (simp add: scan_inv_def shape_ok_def)
  then have "i \<noteq> -1" by (auto simp: unsigned_minus_1_eq_mask mask_eq_exp_minus_1)
  then have "update_index u i (tids d) = (tids d, word_of_nat (unat i))" by (simp add: update_index_def)
  then have c: "g = tids d" "k = unat i" "s = call_step (unat i) (Update_call w) (object d)"
    using update_call_index [OF reach_d _ D(3), of u i "tids d" w] call by auto
  have "scan_act (Call (unat i) (Update_call w)) (object d) s"
    unfolding c using D(3,4) by (intro act_call) (simp_all add: fits_def)
  then have "scan_step (object d) s" unfolding scan_step_def by blast
  then have reach: "scan_reach s" using reach_d by (rule reach_next [rotated])
  have "driver_ok (at_phase u (Updating i k c) (d\<lparr>object := s, total_count := total_count d\<rparr>)) us"
    by (rule driver_ok_move [OF ok u(1), where i = "unat i"])
      (use reach D(3,5) in \<open>simp_all add: u(2) c fits_def call_step_def writes_of_def\<close>)
  then show ?thesis unfolding d' c(1) by auto
next
  case (Advance u)
  then obtain j i c s where u: "u < length (phases d)" "phases d ! u = Updating j i c" and s: "thread_step i (object d) = Inr s"
    and d': "d' = at_phase u (if pcs s ! i = Idle then Looping j (c + 1) else Updating j i c) (d\<lparr>object := s\<rparr>)"
    using step by (auto split: if_splits count_phase.splits sum.splits)
  note D = driver_okD [OF ok u(1), of "unat j", unfolded u(2), simplified]
  have ij: "unat j = i" using D(4) by (simp add: fits_def)
  note D = D [unfolded ij]
  have act: "scan_act (Access i) (object d) s" using D(3) s by (rule act_access)
  then have "scan_step (object d) s" unfolding scan_step_def by blast
  then have reach: "scan_reach s" using ok by (auto simp: driver_ok_def intro: reach_next)
  have "scan_inv (object d)" using ok by (simp add: driver_ok_def scan.always)
  then have "hist (object d) \<noteq> []" by (simp add: scan_inv_def shape_ok_def hist_ok_def)
  then obtain m where m: "length (hist (object d)) = Suc m" by (cases "hist (object d)") simp_all
  have in_upd: "in_update (pcs (object d) ! i)" using D(4) ij by (auto simp: fits_def)
  have upd: "(pcs s ! i = Idle \<and> length (hist s) = Suc (length (hist (object d))))
      \<or> (in_update (pcs s ! i) \<and> hist s = hist (object d))"
    using in_update_step [OF s] in_upd D(3,5) by simp
  have other: "pcs s ! j = pcs (object d) ! j" if "j \<noteq> i" for j using thread_step_other [OF s that] by simp
  have "driver_ok (at_phase u (if pcs s ! i = Idle then Looping j (c + 1) else Updating j i c)
      (d\<lparr>object := s, total_count := total_count d\<rparr>)) us"
    by (rule driver_ok_move [OF ok u(1), where i = i])
      (use reach upd thread_count_act [OF act] other m in \<open>auto simp: u(2) ij fits_def writes_of_def\<close>)
  then show ?thesis unfolding d' by auto
next
  case (Time_over u)
  then obtain i c where u: "u < length (phases d)" "phases d ! u = Looping i c"
    and d': "d' = at_phase u (Counted i c) (d\<lparr>total_count := total_count d + c\<rparr>)"
    using step by (auto split: if_splits count_phase.splits)
  note D = driver_okD [OF ok u(1), of "unat i", unfolded u(2), simplified]
  have "driver_ok (at_phase u (Counted i c) (d\<lparr>object := object d, total_count := total_count d + c\<rparr>)) us"
    by (rule driver_ok_move [OF ok u(1), where i = "unat i"])
      (use D ok in \<open>simp_all add: u(2) fits_def driver_ok_def\<close>)
  then show ?thesis unfolding d' by auto
qed

lemma driver_new_ok: "n < 2 ^ 31 - 1 \<Longrightarrow> driver_ok (driver_new n) []"
  using start_reach [of n]
  by (simp add: driver_ok_def driver_new_def WaitfreeAtomicSnapshot_new_def registry_new_def writes_of_def)

interpretation driver: machine_invariant drive_start drive_step "\<lambda>d. \<exists>us. driver_ok d us"
proof unfold_locales
  show "\<exists>us. driver_ok d us" if "drive_start d" for d
    using that driver_new_ok unfolding drive_start_def by blast
  show "\<exists>us. driver_ok d' us" if "\<exists>us. driver_ok d us" "drive_step d d'" for d d'
    using that drive_ok unfolding drive_step_def by blast
qed

section \<open>Properties\<close>

text \<open>
  C30: the program uses its snapshot object as the object's machine assumes: the object is
  always in a state that machine reaches, a thread in its loop is the only one with its
  index, which is one of the registers, and when all threads have added their counts the
  total is the number of writes of registers.
\<close>

theorem program_uses_own_registers:
  assumes "reach drive_start drive_step d" and "u < length (phases d)" and "v < length (phases d)"
    and "index_of (phases d ! u) = Some i" and "index_of (phases d ! v) = Some j"
  shows "scan_reach (object d) \<and> i < thread_count (object d) \<and> (i = j \<longleftrightarrow> u = v)
    \<and> ((\<forall>w < length (phases d). \<exists>k c. phases d ! w = Counted k c) \<longrightarrow>
        total_count d = word_of_nat (length (hist (object d)) - 1))"
proof -
  obtain us where ok: "driver_ok d us" using driver.always [OF assms(1)] by blast
  note U = driver_okD [OF ok assms(2,4)] and V = driver_okD [OF ok assms(3,5)]
  have total: "total_count d = word_of_nat (length (hist (object d)) - 1)"
    if over: "\<forall>w < length (phases d). \<exists>k c. phases d ! w = Counted k c"
  proof -
    have "count_of (phases d ! w) = counted_of (phases d ! w)" if w: "w < length (phases d)" for w
    proof -
      obtain k c where "phases d ! w = Counted k c" using over w by blast
      then show ?thesis by simp
    qed
    then have "(\<Sum>w<length (phases d). count_of (phases d ! w)) = (\<Sum>w<length (phases d). counted_of (phases d ! w))"
      by (intro sum.cong) simp_all
    moreover have "(\<Sum>w<length (phases d). count_of (phases d ! w)) = word_of_nat (writes_of (object d))"
      "(\<Sum>w<length (phases d). counted_of (phases d ! w)) = total_count d" using ok unfolding driver_ok_def by blast+
    ultimately show ?thesis by (simp add: writes_of_def)
  qed
  have one: "i = j \<longleftrightarrow> u = v" using U(2) V(2) assms(4,5) by (metis option.inject)
  have "scan_reach (object d)" using ok unfolding driver_ok_def by blast
  then show ?thesis by (intro conjI impI) (assumption | rule U(3) | rule one | rule total)+
qed

section \<open>Witness\<close>

text \<open>The second thread registers first; both make one update.\<close>

definition two_updates :: "drive_event list" where
  "two_updates = [Register 1, Register 0, Call_update 1 7] @ replicate 9 (Advance 1)
     @ [Call_update 0 5] @ replicate 9 (Advance 0) @ [Time_over 1, Time_over 0]"

lemma run_driver_reach:
  "run_driver es d = Some d' \<Longrightarrow> reach drive_start drive_step d \<Longrightarrow> reach drive_start drive_step d'"
proof (induction es arbitrary: d)
  case (Cons e es)
  then obtain x where x: "drive e d = Some x" "run_driver es x = Some d'" by (auto split: option.splits)
  then have "drive_step d x" unfolding drive_step_def by blast
  then show ?case using Cons.IH [OF x(2)] Cons.prems(2) by (blast intro: reach_next)
qed simp

theorem program_uses_own_registers_witness:
  "\<exists>d. reach drive_start drive_step d \<and> phases d = [Counted 1 1, Counted 0 1] \<and> scan_reach (object d)
    \<and> total_count d = word_of_nat (length (hist (object d)) - 1)"
proof -
  have "map_option (\<lambda>d. phases d = [Counted 1 1, Counted 0 1]) (run_driver two_updates (driver_new 2)) = Some True"
    by code_simp
  then obtain d where d: "run_driver two_updates (driver_new 2) = Some d" "phases d = [Counted 1 1, Counted 0 1]"
    by (auto simp: map_option_case split: option.splits)
  have "drive_start (driver_new 2)" unfolding drive_start_def by (rule exI [of _ 2]) simp
  then have reach: "reach drive_start drive_step d" by (intro run_driver_reach [OF d(1)] reach_start)
  have over: "\<forall>w < length (phases d). \<exists>k c. phases d ! w = Counted k c" by (simp add: d(2) less_Suc_eq)
  have "scan_reach (object d) \<and> 1 < thread_count (object d) \<and> ((1::nat) = 0 \<longleftrightarrow> (0::nat) = 1)
    \<and> ((\<forall>w < length (phases d). \<exists>k c. phases d ! w = Counted k c) \<longrightarrow>
        total_count d = word_of_nat (length (hist (object d)) - 1))"
    by (rule program_uses_own_registers [OF reach]) (simp_all add: d(2))
  then show ?thesis using reach d(2) over by blast
qed

end
