(* ===== verification/LockTable.thy ===== *)
theory LockTable
  imports Prelude
begin

text \<open>
  The data of the lock manager of \<^verbatim>\<open>project3\<close>: \<open>lock_t\<close> (\<^verbatim>\<open>include/Lock.hpp\<close>), the nodes of
  the lock table (\<^verbatim>\<open>include/LockManager.hpp\<close>), the transaction nodes
  (\<^verbatim>\<open>include/TrxNode.hpp\<close>, \<^verbatim>\<open>include/TrxManager.hpp\<close>) and the thread local vectors of
  saved locks, all in one memory. A lock lives in a heap and its address is its index there;
  an address is only ever obtained from an allocation. Locks are never freed.

  The queue of a record is the chain of locks from its head to its tail. The invariant
  \<open>table_inv\<close> says that every record's chain is such a queue and that the locks the head
  has passed are exactly the others.
\<close>

section \<open>Locks, nodes, transactions\<close>

datatype lock_mode = SHARED | EXCLUSIVE

datatype lock_state = ACTIVE | WAIT | OBSOLETE

record lock_t =
  record_id :: nat
  mode :: lock_mode
  lock_id_on_record :: u64
  next_lock :: "nat option"
  thread_id :: nat
  diff :: i64
  state :: lock_state
  id_pass_flag :: bool
  head_pass_flag :: bool
  signal_flag :: bool

definition lock_t_new :: "nat \<Rightarrow> nat \<Rightarrow> lock_t" where
  "lock_t_new rid tid =
     \<lparr>record_id = rid, mode = SHARED, lock_id_on_record = 0xffffffffffffffff, next_lock = None,
      thread_id = tid, diff = 0, state = ACTIVE, id_pass_flag = False, head_pass_flag = False,
      signal_flag = False\<rparr>"

record lock_table_node =
  tail :: "nat option"
  head :: "nat option"
  record_value :: i64
  node_record_id :: nat

definition LockTableNode_new :: "nat \<Rightarrow> lock_table_node" where
  "LockTableNode_new rid = \<lparr>tail = None, head = None, record_value = 100, node_record_id = rid\<rparr>"

text \<open>
  A transaction's condition variable has one waiter at most, its own thread: nobody
  waits, the thread sleeps, or it sleeps and was notified.
\<close>

datatype cond_var = No_waiter | Sleeping | Notified

definition notify_one :: "cond_var \<Rightarrow> cond_var" where
  "notify_one c = (if c = Sleeping then Notified else c)"

record trx_node =
  trx_lock_deque :: "nat list"
  conflict_lock :: "nat option"
  cond :: cond_var
  trx_thread_id :: nat
  trx_thread_number :: i32

definition TrxNode_new :: "nat \<Rightarrow> trx_node" where
  "TrxNode_new tid =
     \<lparr>trx_lock_deque = [], conflict_lock = None, cond = No_waiter, trx_thread_id = tid,
      trx_thread_number = -1\<rparr>"

text \<open>
  The memory: the heap of locks, the globals \<open>lock_manager\<close> and \<open>trx_manager\<close>, and the
  thread local vectors and counters, by thread.
\<close>

record memory =
  heap :: "lock_t list"
  lock_table :: "nat \<rightharpoonup> lock_table_node"
  record_count :: nat
  trx_node_table :: "nat \<rightharpoonup> trx_node"
  thread_number :: i32
  last_global_execution_order :: i32
  global_execution_count :: i32
  lock_saved_vectors :: "nat \<Rightarrow> nat \<Rightarrow> nat list"
  recycled_lock_count :: "nat \<Rightarrow> nat"
  total_created_lock_count :: "nat \<Rightarrow> nat"

abbreviation lk :: "memory \<Rightarrow> nat \<Rightarrow> lock_t" where
  "lk m a \<equiv> heap m ! a"

definition upd_lock :: "nat \<Rightarrow> (lock_t \<Rightarrow> lock_t) \<Rightarrow> memory \<Rightarrow> memory" where
  "upd_lock a f m = m\<lparr>heap := (heap m)[a := f (lk m a)]\<rparr>"

text \<open>\<open>lock_table[id]\<close> of a key that is not there is a null pointer.\<close>

definition get_node :: "nat \<Rightarrow> memory \<Rightarrow> lock_table_node res" where
  "get_node r m = deref (lock_table m r)"

definition upd_node :: "nat \<Rightarrow> (lock_table_node \<Rightarrow> lock_table_node) \<Rightarrow> memory \<Rightarrow> memory" where
  "upd_node r f m = m\<lparr>lock_table := (lock_table m)(r := map_option f (lock_table m r))\<rparr>"

text \<open>
  The global objects as they are constructed, before \<open>InitManagers\<close>.
\<close>

definition memory_new :: memory where
  "memory_new =
     \<lparr>heap = [], lock_table = Map.empty, record_count = 0, trx_node_table = Map.empty,
      thread_number = 1, last_global_execution_order = -1, global_execution_count = 0,
      lock_saved_vectors = (\<lambda>t r. []), recycled_lock_count = (\<lambda>t. 0),
      total_created_lock_count = (\<lambda>t. 0)\<rparr>"

section \<open>The record operations of the lock manager\<close>

definition MakeRecords :: "nat \<Rightarrow> memory \<Rightarrow> memory" where
  "MakeRecords n m =
     m\<lparr>record_count := n,
       lock_table := fold (\<lambda>i tab. if i \<in> dom tab then tab else tab(i \<mapsto> LockTableNode_new i))
         [1..<n + 1] (lock_table m)\<rparr>"

definition GetRecord :: "nat \<Rightarrow> memory \<Rightarrow> i64 res" where
  "GetRecord a m =
     and_then (assert_that (state (lk m a) \<noteq> OBSOLETE) ())
       (\<lambda>_. and_then (get_node (record_id (lk m a)) m) (\<lambda>node. Inr (record_value node)))"

definition ChangeRecord :: "nat \<Rightarrow> i64 \<Rightarrow> memory \<Rightarrow> (memory \<times> i64) res" where
  "ChangeRecord a d m =
     and_then (assert_that (mode (lk m a) = EXCLUSIVE \<and> state (lk m a) \<noteq> OBSOLETE) ())
       (\<lambda>_. and_then (get_node (record_id (lk m a)) m)
         (\<lambda>node. let v = record_value node + d in
           Inr (upd_node (record_id (lk m a)) (\<lambda>n. n\<lparr>record_value := v\<rparr>) m, v)))"

section \<open>The transaction table\<close>

definition trx_of :: "nat \<Rightarrow> memory \<Rightarrow> trx_node" where
  "trx_of tid m = (case trx_node_table m tid of Some x \<Rightarrow> x | None \<Rightarrow> TrxNode_new tid)"

definition upd_trx :: "nat \<Rightarrow> (trx_node \<Rightarrow> trx_node) \<Rightarrow> memory \<Rightarrow> memory" where
  "upd_trx tid f m = m\<lparr>trx_node_table := (trx_node_table m)(tid := map_option f (trx_node_table m tid))\<rparr>"

text \<open>
  The node of a thread, made with the next thread number when it has none. A node is
  named by its thread, so what is returned is the memory in which it exists.
\<close>

definition GetTrxNode :: "nat \<Rightarrow> memory \<Rightarrow> memory" where
  "GetTrxNode tid m =
     (if tid \<in> dom (trx_node_table m) then m
      else m\<lparr>trx_node_table := (trx_node_table m)
               (tid \<mapsto> (TrxNode_new tid)\<lparr>trx_thread_number := thread_number m\<rparr>),
             thread_number := thread_number m + 1\<rparr>)"

definition Begin :: "nat \<Rightarrow> memory \<Rightarrow> memory" where
  "Begin me m =
     upd_trx me (\<lambda>x. x\<lparr>conflict_lock := None, trx_lock_deque := []\<rparr>) (GetTrxNode me m)"

section \<open>The queue of a record\<close>

text \<open>\<open>chain h p qs\<close>: following \<open>next\<close> from \<open>p\<close> gives the locks \<open>qs\<close> and then null.\<close>

fun chain :: "lock_t list \<Rightarrow> nat option \<Rightarrow> nat list \<Rightarrow> bool" where
  "chain h p [] \<longleftrightarrow> p = None"
| "chain h p (a # as) \<longleftrightarrow> p = Some a \<and> a < length h \<and> chain h (next_lock (h ! a)) as"

text \<open>
  The queues \<open>Q\<close> of all records: each starts at the record's head, ends at its tail, and
  holds locks of this record only. The locks in no queue are released and passed by the
  head; those in a queue are not passed.
\<close>

definition queue_ok :: "memory \<Rightarrow> (nat \<Rightarrow> nat list) \<Rightarrow> nat \<Rightarrow> lock_table_node \<Rightarrow> bool" where
  "queue_ok m Q r node \<longleftrightarrow>
     chain (heap m) (head node) (Q r) \<and> distinct (Q r)
     \<and> tail node = (if Q r = [] then None else Some (last (Q r)))
     \<and> (\<forall>a \<in> set (Q r). record_id (lk m a) = r \<and> \<not> head_pass_flag (lk m a))"

definition table_inv :: "memory \<Rightarrow> (nat \<Rightarrow> nat list) \<Rightarrow> bool" where
  "table_inv m Q \<longleftrightarrow>
     (\<forall>r node. lock_table m r = Some node \<longrightarrow> queue_ok m Q r node)
     \<and> (\<forall>r. lock_table m r = None \<longrightarrow> Q r = [])
     \<and> (\<forall>a < length (heap m). a \<notin> set (Q (record_id (lk m a)))
          \<longrightarrow> state (lk m a) = OBSOLETE \<and> head_pass_flag (lk m a))
     \<and> (\<forall>t r. \<forall>a \<in> set (lock_saved_vectors m t r).
          a < length (heap m) \<and> record_id (lk m a) = r \<and> thread_id (lk m a) = t)"

text \<open>Every lock's owner has a node, and a conflict lock is a queued lock of its thread.\<close>

definition trx_inv :: "memory \<Rightarrow> (nat \<Rightarrow> nat list) \<Rightarrow> bool" where
  "trx_inv m Q \<longleftrightarrow>
     (\<forall>a < length (heap m). thread_id (lk m a) \<in> dom (trx_node_table m))
     \<and> (\<forall>t x c. trx_node_table m t = Some x \<and> conflict_lock x = Some c
          \<longrightarrow> c < length (heap m) \<and> thread_id (lk m c) = t \<and> c \<in> set (Q (record_id (lk m c))))"

section \<open>Facts on chains\<close>

lemma chain_in_heap: "chain h p qs \<Longrightarrow> a \<in> set qs \<Longrightarrow> a < length h"
  by (induction h p qs rule: chain.induct) auto

lemma chain_frame:
  "chain h p qs \<Longrightarrow> length h \<le> length h' \<Longrightarrow> (\<And>a. a \<in> set qs \<Longrightarrow> next_lock (h' ! a) = next_lock (h ! a))
    \<Longrightarrow> chain h' p qs"
  by (induction h p qs rule: chain.induct) auto

lemma chain_unique: "chain h p qs \<Longrightarrow> chain h p qs' \<Longrightarrow> qs = qs'"
  by (induction h p qs arbitrary: qs' rule: chain.induct; case_tac qs'; auto)

lemma chain_start: "chain h p qs \<Longrightarrow> p = (if qs = [] then None else Some (hd qs))"
  by (cases qs) auto

lemma chain_next:
  "chain h p (as @ a # b # bs) \<Longrightarrow> next_lock (h ! a) = Some b"
  by (induction as arbitrary: p) auto

lemma chain_last: "chain h p (as @ [a]) \<Longrightarrow> next_lock (h ! a) = None"
  by (induction as arbitrary: p) auto

lemma chain_suffix: "chain h p (as @ a # bs) \<Longrightarrow> chain h (Some a) (a # bs)"
  by (induction as arbitrary: p) auto

text \<open>Appending lock \<open>b\<close> behind the last lock.\<close>

lemma chain_snoc:
  "chain h p qs \<Longrightarrow> distinct qs \<Longrightarrow> b \<notin> set qs \<Longrightarrow> b < length h' \<Longrightarrow> length h \<le> length h' \<Longrightarrow>
    next_lock (h' ! b) = None \<Longrightarrow> (qs \<noteq> [] \<Longrightarrow> next_lock (h' ! last qs) = Some b) \<Longrightarrow>
    (\<And>a. a \<in> set (butlast qs) \<Longrightarrow> next_lock (h' ! a) = next_lock (h ! a)) \<Longrightarrow>
    chain h' (if qs = [] then Some b else p) (qs @ [b])"
proof (induction h p qs rule: chain.induct)
  case (2 h p a as)
  then show ?case by (cases as) (auto split: if_splits)
qed simp

end
