(* ===== verification/Deadlock.thy ===== *)
theory Deadlock
  imports LockTable
begin

text \<open>
  The deadlock check of the global mutex version, \<open>IsDeadlock2\<close> of
  \<^verbatim>\<open>project3/src/Deadlock.cpp\<close>: a breadth first search through the locks ahead of the
  conflict locks. Shown here: it ends, runs into no error, and answers yes exactly when
  the calling thread is reachable in the graph in which a transaction points to the
  owners of the locks ahead of its conflict lock.
\<close>

section \<open>The search\<close>

text \<open>
  The inner loop: collect the locks from \<open>target\<close> to the conflict lock \<open>c\<close>; \<open>None\<close> when a
  lock of the calling thread \<open>me\<close> is among them. Fuel: one unit per lock, and the heap's
  size is enough.
\<close>

fun scan_ahead :: "nat \<Rightarrow> lock_t list \<Rightarrow> nat \<Rightarrow> nat option \<Rightarrow> nat \<Rightarrow> nat list option res" where
  "scan_ahead 0 h me target c = Inl Out_of_fuel"
| "scan_ahead (Suc n) h me target c =
     (if target = Some c then Inr (Some [])
      else and_then (deref target) (\<lambda>a.
        if thread_id (h ! a) = me \<and> state (h ! a) \<noteq> OBSOLETE then Inr None
        else and_then (assert_that (next_lock (h ! a) \<noteq> None) ()) (\<lambda>_.
          and_then (scan_ahead n h me (next_lock (h ! a)) c) (\<lambda>r. Inr (map_option ((#) a) r)))))"

lemma heap_GetTrxNode [simp]: "heap (GetTrxNode t m) = heap m"
  and lock_table_GetTrxNode [simp]: "lock_table (GetTrxNode t m) = lock_table m"
  by (simp_all add: GetTrxNode_def)

lemma pass_grows:
  "a < length h \<Longrightarrow> thread_id (h ! a) \<notin> pass \<Longrightarrow>
    card (thread_id ` set h - insert (thread_id (h ! a)) pass) < card (thread_id ` set h - pass)"
  by (intro psubset_card_mono) auto

text \<open>
  The outer loop over the queue of waited-for locks, with the set of the threads passed.
\<close>

function deadlock_search :: "memory \<Rightarrow> nat \<Rightarrow> nat list \<Rightarrow> nat set \<Rightarrow> (bool \<times> memory) res" where
  "deadlock_search m me [] pass = Inr (False, m)"
| "deadlock_search m me (a # q) pass =
     (if \<not> a < length (heap m) then Inl Out_of_range
      else if thread_id (lk m a) \<in> pass \<or> state (lk m a) = OBSOLETE then deadlock_search m me q pass
      else let t = thread_id (lk m a); m' = GetTrxNode t m in
        case conflict_lock (trx_of t m') of
          None \<Rightarrow> deadlock_search m' me q (insert t pass)
        | Some c \<Rightarrow> and_then (get_node (record_id (lk m' c)) m') (\<lambda>node.
            and_then (scan_ahead (length (heap m') + 1) (heap m') me (head node) c) (\<lambda>r.
              case r of
                None \<Rightarrow> Inr (True, m')
              | Some tmp \<Rightarrow> deadlock_search m' me (q @ tmp) (insert t pass))))"
  by pat_completeness auto
termination
  by (relation "inv_image (less_than <*lex*> less_than)
      (\<lambda>(m, me, q, pass). (card (thread_id ` set (heap m) - pass), length q))")
     (auto simp: pass_grows simp del: card_Diff_insert scan_ahead.simps)

definition IsDeadlock2 :: "nat \<Rightarrow> nat list \<Rightarrow> memory \<Rightarrow> (bool \<times> memory) res" where
  "IsDeadlock2 me waiting_lock_vector m =
     deadlock_search m me (filter (\<lambda>a. state (lk m a) \<noteq> OBSOLETE) (rev waiting_lock_vector)) {}"

section \<open>The waits-behind graph\<close>

definition ahead :: "memory \<Rightarrow> (nat \<Rightarrow> nat list) \<Rightarrow> nat \<Rightarrow> nat list" where
  "ahead m Q c = takeWhile (\<lambda>a. a \<noteq> c) (Q (record_id (lk m c)))"

definition waits_behind :: "memory \<Rightarrow> (nat \<Rightarrow> nat list) \<Rightarrow> (nat \<times> nat) set" where
  "waits_behind m Q =
     {(u, v). \<exists>c a. conflict_lock (trx_of u m) = Some c \<and> a \<in> set (ahead m Q c)
        \<and> state (lk m a) \<noteq> OBSOLETE \<and> thread_id (lk m a) = v}"

section \<open>Correctness\<close>

lemma chain_no_null:
  "chain h p (as @ c # bs) \<Longrightarrow> a \<in> set as \<Longrightarrow> next_lock (h ! a) \<noteq> None"
proof (induction as arbitrary: p)
  case (Cons b as)
  then show ?case by (cases as) auto
qed simp

lemma scan_ahead_result:
  "chain h p (as @ c # bs) \<Longrightarrow> c \<notin> set as \<Longrightarrow> length as < n \<Longrightarrow>
    scan_ahead n h me p c =
      Inr (if \<exists>a \<in> set as. thread_id (h ! a) = me \<and> state (h ! a) \<noteq> OBSOLETE then None else Some as)"
proof (induction as arbitrary: p n)
  case (Cons a as)
  obtain n' where n: "n = Suc n'" using Cons.prems(3) by (cases n) auto
  have "next_lock (h ! a) \<noteq> None" using chain_no_null [OF Cons.prems(1), of a] by simp
  then show ?case using Cons by (auto simp: n)
qed (case_tac n; simp)

lemma chain_length: "chain h p qs \<Longrightarrow> distinct qs \<Longrightarrow> length qs \<le> length h"
proof -
  assume c: "chain h p qs" "distinct qs"
  then have "set qs \<subseteq> {..<length h}" using chain_in_heap by fastforce
  then show ?thesis using card_mono [of "{..<length h}" "set qs"] distinct_card [OF c(2)] by simp
qed

text \<open>The locks ahead of a queued conflict lock are what the inner loop collects.\<close>

lemma scan_ahead_conflict:
  assumes "table_inv m Q" and "c \<in> set (Q (record_id (lk m c)))"
  shows "\<exists>node. lock_table m (record_id (lk m c)) = Some node \<and>
    scan_ahead (length (heap m) + 1) (heap m) me (head node) c =
      Inr (if \<exists>a \<in> set (ahead m Q c). thread_id (lk m a) = me \<and> state (lk m a) \<noteq> OBSOLETE
           then None else Some (ahead m Q c))"
proof -
  define r where "r = record_id (lk m c)"
  obtain node where node: "lock_table m r = Some node" "queue_ok m Q r node"
    using assms by (cases "lock_table m r") (auto simp: table_inv_def r_def)
  have split: "Q r = ahead m Q c @ c # tl (dropWhile (\<lambda>a. a \<noteq> c) (Q r))"
  proof -
    have "dropWhile (\<lambda>a. a \<noteq> c) (Q r) \<noteq> []" using assms(2) by (simp add: r_def dropWhile_eq_Nil_conv)
    moreover from this have "hd (dropWhile (\<lambda>a. a \<noteq> c) (Q r)) = c" using hd_dropWhile by blast
    ultimately have "dropWhile (\<lambda>a. a \<noteq> c) (Q r) = c # tl (dropWhile (\<lambda>a. a \<noteq> c) (Q r))"
      by (metis list.collapse)
    then show ?thesis unfolding ahead_def r_def [symmetric] by (metis takeWhile_dropWhile_id)
  qed
  have chain: "chain (heap m) (head node) (Q r)" "distinct (Q r)"
    using node(2) by (simp_all add: queue_ok_def)
  obtain bs where bs: "Q r = ahead m Q c @ c # bs" using split by blast
  have "chain (heap m) (head node) (ahead m Q c @ c # bs)" using chain(1) bs by simp
  moreover have "c \<notin> set (ahead m Q c)" by (auto simp: ahead_def dest: set_takeWhileD)
  moreover have "length (ahead m Q c) < length (heap m) + 1"
    using chain_length [OF chain] by (simp add: bs)
  ultimately show ?thesis
    using scan_ahead_result node(1) unfolding r_def by blast
qed

text \<open>
  The search answers yes exactly when a path leads from a queued lock's owner to the calling
  thread. \<open>avoiding\<close> leaves out the edges of the threads already passed.
\<close>

definition avoiding :: "(nat \<times> nat) set \<Rightarrow> nat set \<Rightarrow> (nat \<times> nat) set" where
  "avoiding E P = {(u, v). (u, v) \<in> E \<and> u \<notin> P}"

lemma avoiding_mono: "P \<subseteq> P' \<Longrightarrow> (avoiding E P')\<^sup>+ \<subseteq> (avoiding E P)\<^sup>+"
  by (rule subsetI, erule trancl_mono) (auto simp: avoiding_def)

lemma path_past:
  assumes "(u, w) \<in> (avoiding E P)\<^sup>+"
  shows "(u, w) \<in> (avoiding E (insert t P))\<^sup>+
    \<or> (t \<notin> P \<and> (\<exists>v. (t, v) \<in> E \<and> (v, w) \<in> (avoiding E (insert t P))\<^sup>*))"
  using assms
proof (induction rule: converse_trancl_induct)
  case (base y)
  then show ?case by (cases "y = t") (auto simp: avoiding_def)
next
  case (step y z)
  show ?case
  proof (cases "y = t")
    case True
    then have e: "t \<notin> P" "(t, z) \<in> E" using step.hyps(1) by (auto simp: avoiding_def)
    then show ?thesis using step.IH trancl_into_rtrancl by metis
  next
    case False
    then have "(y, z) \<in> avoiding E (insert t P)" using step.hyps(1) by (auto simp: avoiding_def)
    then show ?thesis using step.IH by (blast intro: trancl_into_trancl2)
  qed
qed

lemma trx_of_GetTrxNode: "trx_node_table m t = Some x \<Longrightarrow> GetTrxNode t m = m \<and> trx_of t m = x"
  by (auto simp: GetTrxNode_def trx_of_def)

lemma deadlock_search_correct:
  assumes "table_inv m Q" and "trx_inv m Q" and "set q \<subseteq> {..<length (heap m)}"
  shows "deadlock_search m me q pass = Inr
    (\<exists>a \<in> set q. state (lk m a) \<noteq> OBSOLETE \<and> (thread_id (lk m a), me) \<in> (avoiding (waits_behind m Q) pass)\<^sup>+, m)"
  using assms
proof (induction m me q pass rule: deadlock_search.induct)
  case (2 m me a q pass)
  define t where "t = thread_id (lk m a)"
  define E where "E = waits_behind m Q"
  have a: "a < length (heap m)" and q: "set q \<subseteq> {..<length (heap m)}" using "2.prems"(3) by auto
  obtain x where x: "trx_node_table m t = Some x"
    using "2.prems"(2) a by (auto simp: trx_inv_def t_def)
  have tx: "GetTrxNode t m = m" "trx_of t m = x" using trx_of_GetTrxNode [OF x] by auto
  show ?case
  proof (cases "t \<in> pass \<or> state (lk m a) = OBSOLETE")
    case True
    then have "(t, me) \<notin> (avoiding E pass)\<^sup>+ \<or> state (lk m a) = OBSOLETE"
      by (auto simp: avoiding_def dest!: tranclD)
    then show ?thesis using True a "2.IH"(1) "2.prems"(1,2) q by (auto simp: t_def E_def)
  next
    case go: False
    show ?thesis
    proof (cases "conflict_lock x")
      case None
      have no: "(t, v) \<notin> E" for v using None tx by (auto simp: E_def waits_behind_def)
      have "(u, me) \<in> (avoiding E pass)\<^sup>+ \<longleftrightarrow> (u, me) \<in> (avoiding E (insert t pass))\<^sup>+" for u
        using path_past [of u me E pass t] no avoiding_mono [of pass "insert t pass" E] by blast
      moreover have "(t, me) \<notin> (avoiding E (insert t pass))\<^sup>+"
        by (auto simp: avoiding_def dest!: tranclD)
      ultimately show ?thesis
        using go a None tx "2.IH"(2) "2.prems"(1,2) q by (simp add: t_def [symmetric] E_def [symmetric])
    next
      case (Some c)
      have c: "c < length (heap m)" "thread_id (lk m c) = t" "c \<in> set (Q (record_id (lk m c)))"
        using "2.prems"(2) x Some by (auto simp: trx_inv_def)
      obtain node where node: "lock_table m (record_id (lk m c)) = Some node"
        "scan_ahead (length (heap m) + 1) (heap m) me (head node) c =
          Inr (if \<exists>a \<in> set (ahead m Q c). thread_id (lk m a) = me \<and> state (lk m a) \<noteq> OBSOLETE
               then None else Some (ahead m Q c))"
        using scan_ahead_conflict [OF "2.prems"(1) c(3)] by blast
      have out: "(t, v) \<in> E \<longleftrightarrow> (\<exists>b \<in> set (ahead m Q c). state (lk m b) \<noteq> OBSOLETE \<and> thread_id (lk m b) = v)" for v
        using Some tx by (auto simp: E_def waits_behind_def)
      show ?thesis
      proof (cases "(t, me) \<in> E")
        case True
        then have "(t, me) \<in> (avoiding E pass)\<^sup>+" using go by (auto simp: avoiding_def)
        moreover have "scan_ahead (length (heap m) + 1) (heap m) me (head node) c = Inr None"
          using True node(2) by (auto simp: out)
        ultimately show ?thesis using go a Some tx node(1)
          by (auto simp: t_def [symmetric] E_def [symmetric] get_node_def Let_def simp del: scan_ahead.simps)
      next
        case False
        have scan: "scan_ahead (length (heap m) + 1) (heap m) me (head node) c = Inr (Some (ahead m Q c))"
          using False node(2) by (auto simp: out)
        have sub: "set (q @ ahead m Q c) \<subseteq> {..<length (heap m)}"
        proof -
          have "queue_ok m Q (record_id (lk m c)) node" using "2.prems"(1) node(1) by (simp add: table_inv_def)
          then show ?thesis using q by (auto simp: queue_ok_def ahead_def dest!: set_takeWhileD chain_in_heap)
        qed
        have path: "(\<exists>b \<in> set (q @ ahead m Q c). state (lk m b) \<noteq> OBSOLETE
              \<and> (thread_id (lk m b), me) \<in> (avoiding E (insert t pass))\<^sup>+)
          \<longleftrightarrow> (\<exists>b \<in> set (a # q). state (lk m b) \<noteq> OBSOLETE \<and> (thread_id (lk m b), me) \<in> (avoiding E pass)\<^sup>+)"
          (is "?L \<longleftrightarrow> ?R")
        proof
          assume ?L
          then obtain b where b: "b \<in> set (q @ ahead m Q c)" "state (lk m b) \<noteq> OBSOLETE"
            "(thread_id (lk m b), me) \<in> (avoiding E pass)\<^sup>+"
            using avoiding_mono [of pass "insert t pass" E] by blast
          show ?R
          proof (cases "b \<in> set q")
            case False
            then have "(t, thread_id (lk m b)) \<in> avoiding E pass" using b go by (auto simp: avoiding_def out)
            then have "(t, me) \<in> (avoiding E pass)\<^sup>+" using b(3) by (rule trancl_into_trancl2)
            then show ?thesis using go by (auto simp: t_def)
          qed (use b in auto)
        next
          assume ?R
          then obtain b where b: "b \<in> set (a # q)" "state (lk m b) \<noteq> OBSOLETE"
            "(thread_id (lk m b), me) \<in> (avoiding E pass)\<^sup>+" by blast
          have via: ?L if "(t, v) \<in> E" "(v, me) \<in> (avoiding E (insert t pass))\<^sup>*" for v
          proof -
            note tv = that(1)
            have "v \<noteq> me" using that(1) \<open>(t, me) \<notin> E\<close> by auto
            then have "(v, me) \<in> (avoiding E (insert t pass))\<^sup>+" using that(2) by (auto simp: rtrancl_eq_or_trancl)
            moreover obtain d where d: "d \<in> set (ahead m Q c)" "state (lk m d) \<noteq> OBSOLETE" "thread_id (lk m d) = v"
              using tv out by blast
            ultimately show ?L by (intro bexI [of _ d]) simp_all
          qed
          have nt: "(t, me) \<notin> (avoiding E (insert t pass))\<^sup>+" by (auto simp: avoiding_def dest!: tranclD)
          from path_past [OF b(3), of t] show ?L
          proof (elim disjE conjE exE)
            assume p: "(thread_id (lk m b), me) \<in> (avoiding E (insert t pass))\<^sup>+"
            then have "b \<in> set q" using b(1) nt by (auto simp: t_def)
            then show ?L using p b(2) by auto
          qed (rule via)
        qed
        have "deadlock_search m me (a # q) pass = deadlock_search m me (q @ ahead m Q c) (insert t pass)"
          using go a Some tx node(1) scan
          by (simp add: t_def [symmetric] get_node_def Let_def del: scan_ahead.simps)
        also have "\<dots> = Inr (\<exists>b \<in> set (q @ ahead m Q c). state (lk m b) \<noteq> OBSOLETE
              \<and> (thread_id (lk m b), me) \<in> (avoiding E (insert t pass))\<^sup>+, m)"
          using "2.IH"(3) [OF _ _ t_def refl, of c node "Some (ahead m Q c)" "ahead m Q c"] go a Some tx node(1) scan sub "2.prems"(1,2)
          by (simp add: t_def [symmetric] E_def get_node_def del: scan_ahead.simps)
        finally show ?thesis unfolding E_def [symmetric] path .
      qed
    qed
  qed
qed simp


lemma avoiding_none [simp]: "avoiding E {} = E"
  by (auto simp: avoiding_def)

lemma IsDeadlock2_answer:
  assumes "table_inv m Q" and "trx_inv m Q" and "set w \<subseteq> {..<length (heap m)}"
  shows "IsDeadlock2 me w m = Inr
    (\<exists>a \<in> set w. state (lk m a) \<noteq> OBSOLETE \<and> (thread_id (lk m a), me) \<in> (waits_behind m Q)\<^sup>+, m)"
proof -
  have "set (filter (\<lambda>a. state (lk m a) \<noteq> OBSOLETE) (rev w)) \<subseteq> {..<length (heap m)}" using assms(3) by auto
  from deadlock_search_correct [OF assms(1,2) this, of me "{}"]
  show ?thesis by (simp add: IsDeadlock2_def Bex_def)
qed

text \<open>
  C9: the deadlock check always returns, without error, and answers yes exactly when one of
  the waited-for locks belongs, through the graph of who waits behind whom, to a
  transaction that waits behind the calling one.
\<close>

theorem IsDeadlock2_correct:
  assumes "table_inv m Q" and "trx_inv m Q" and "set w \<subseteq> {..<length (heap m)}"
  shows "IsDeadlock2 me w m = Inr
    (\<exists>a \<in> set w. state (lk m a) \<noteq> OBSOLETE \<and> (thread_id (lk m a), me) \<in> (waits_behind m Q)\<^sup>+, m)"
  using assms by (rule IsDeadlock2_answer)

end
