(* ===== verification/MutexAcquire.thy ===== *)
theory MutexAcquire
  imports Deadlock
begin

text \<open>
  \<open>AcquireLock\<close> with the global mutex, from \<^verbatim>\<open>project3/src/Acquire.cpp\<close>. It runs under the
  mutex, so it is one function on the memory; it gives the mutex back in \<open>cond.wait\<close>, and
  what it does after the wait is \<open>AcquireLock_resume\<close>. The contract at the end says when it
  grants, reports a deadlock or sleeps, and that it only adds a lock to the record's queue.
\<close>

section \<open>AcquireLock\<close>

text \<open>The search of the thread's saved locks of this record for one that can be recycled.\<close>

fun find_saved :: "lock_t list \<Rightarrow> nat list \<Rightarrow> nat option" where
  "find_saved h [] = None"
| "find_saved h (a # as) =
     (if state (h ! a) = OBSOLETE \<and> head_pass_flag (h ! a) then Some a else find_saved h as)"

definition take_lock :: "nat \<Rightarrow> nat \<Rightarrow> memory \<Rightarrow> nat \<times> memory" where
  "take_lock me r m =
     (case find_saved (heap m) (lock_saved_vectors m me r) of
        Some a \<Rightarrow>
          (a, (upd_lock a (\<lambda>l. l\<lparr>state := ACTIVE, next_lock := None, diff := 0,
                head_pass_flag := False, signal_flag := False\<rparr>) m)
              \<lparr>recycled_lock_count := (recycled_lock_count m)(me := recycled_lock_count m me + 1)\<rparr>)
      | None \<Rightarrow>
          (let a = length (heap m) in
           (a, m\<lparr>heap := heap m @ [lock_t_new r me],
                 lock_saved_vectors := (lock_saved_vectors m)
                   (me := (lock_saved_vectors m me)(r := lock_saved_vectors m me r @ [a]))\<rparr>)))"

definition count_lock :: "nat \<Rightarrow> memory \<Rightarrow> memory" where
  "count_lock me m = m\<lparr>total_created_lock_count :=
     (total_created_lock_count m)(me := total_created_lock_count m me + 1)\<rparr>"

text \<open>Insert behind the tail, or as the first lock of the record.\<close>

definition link_lock :: "nat \<Rightarrow> nat \<Rightarrow> memory \<Rightarrow> memory res" where
  "link_lock r a m =
     and_then (get_node r m) (\<lambda>node.
       let m' = (case tail node of
           Some prev_tail \<Rightarrow> upd_lock prev_tail (\<lambda>l. l\<lparr>next_lock := Some a\<rparr>) m
         | None \<Rightarrow> upd_node r (\<lambda>n. n\<lparr>head := Some a\<rparr>) m)
       in Inr (upd_node r (\<lambda>n. n\<lparr>tail := Some a\<rparr>) m'))"

text \<open>The locks from \<open>target\<close> up to the new lock; one unit of fuel per lock.\<close>

fun collect_locks :: "nat \<Rightarrow> lock_t list \<Rightarrow> nat option \<Rightarrow> nat \<Rightarrow> nat list res" where
  "collect_locks 0 h target a = Inl Out_of_fuel"
| "collect_locks (Suc n) h target a =
     (if target = Some a then Inr []
      else and_then (deref target) (\<lambda>b.
        and_then (collect_locks n h (next_lock (h ! b)) a) (\<lambda>bs. Inr (b # bs))))"

text \<open>The compatibility loop, over the collected locks from the last to the first.\<close>

fun conflicts :: "lock_t list \<Rightarrow> lock_mode \<Rightarrow> nat list \<Rightarrow> bool" where
  "conflicts h md [] = False"
| "conflicts h md (b # bs) =
     (if state (h ! b) = OBSOLETE then conflicts h md bs
      else if md = EXCLUSIVE \<or> mode (h ! b) = EXCLUSIVE then True
      else conflicts h md bs)"

datatype acquired = Granted nat | Deadlocked | Blocked nat

definition insert_lock :: "nat \<Rightarrow> lock_mode \<Rightarrow> nat \<Rightarrow> memory \<Rightarrow> (nat \<times> memory) res" where
  "insert_lock me md r m =
     (let (a, m1) = take_lock me r m;
          m2 = upd_lock a (\<lambda>l. l\<lparr>mode := md\<rparr>) (count_lock me m1);
          m3 = upd_trx me (\<lambda>x. x\<lparr>trx_lock_deque := trx_lock_deque x @ [a]\<rparr>) m2
      in and_then (link_lock r a m3) (\<lambda>m4.
           and_then (assert_that (conflict_lock (trx_of me m4) = None) ()) (\<lambda>_.
             Inr (a, upd_trx me (\<lambda>x. x\<lparr>conflict_lock := Some a\<rparr>) m4))))"

definition AcquireLock_mutex :: "nat \<Rightarrow> lock_mode \<Rightarrow> nat \<Rightarrow> memory \<Rightarrow> (acquired \<times> memory) res" where
  "AcquireLock_mutex me md r m =
     and_then (assert_that (trx_thread_id (trx_of me m) = me) ()) (\<lambda>_.
     and_then (insert_lock me md r m) (\<lambda>(a, m1).
     and_then (get_node r m1) (\<lambda>node.
     and_then (assert_that (head node \<noteq> None) ()) (\<lambda>_.
     and_then (collect_locks (length (heap m1) + 1) (heap m1) (head node) a) (\<lambda>waiting.
       if conflicts (heap m1) md (rev waiting)
       then (let m2 = upd_lock a (\<lambda>l. l\<lparr>state := WAIT\<rparr>) m1 in
             and_then (IsDeadlock2 me waiting m2) (\<lambda>(found, m3).
               if found
               then Inr (Deadlocked, upd_trx me (\<lambda>x. x\<lparr>conflict_lock := None\<rparr>)
                      (upd_lock a (\<lambda>l. l\<lparr>state := OBSOLETE\<rparr>) m3))
               else if \<not> signal_flag (lk m3 a)
               then Inr (Blocked a, upd_trx me (\<lambda>x. x\<lparr>cond := Sleeping\<rparr>) m3)
               else Inr (Granted a, upd_trx me (\<lambda>x. x\<lparr>conflict_lock := None\<rparr>)
                      (upd_lock a (\<lambda>l. l\<lparr>state := ACTIVE\<rparr>) m3))))
       else Inr (Granted a, upd_trx me (\<lambda>x. x\<lparr>conflict_lock := None\<rparr>) m1))))))"

text \<open>What follows the return of \<open>cond.wait\<close>, with the mutex held again.\<close>

definition AcquireLock_resume :: "nat \<Rightarrow> nat \<Rightarrow> memory \<Rightarrow> memory" where
  "AcquireLock_resume me a m =
     upd_trx me (\<lambda>x. x\<lparr>conflict_lock := None, cond := No_waiter\<rparr>)
       (upd_lock a (\<lambda>l. l\<lparr>state := ACTIVE\<rparr>) m)"

section \<open>What each update leaves alone\<close>

lemma heap_updates [simp]:
  "heap (upd_lock a f m) = (heap m)[a := f (lk m a)]" "heap (upd_node r g m) = heap m"
  "heap (upd_trx t k m) = heap m" "heap (count_lock t m) = heap m"
  by (simp_all add: upd_lock_def upd_node_def upd_trx_def count_lock_def)

lemma table_updates [simp]:
  "lock_table (upd_lock a f m) = lock_table m"
  "lock_table (upd_node r g m) = (lock_table m)(r := map_option g (lock_table m r))"
  "lock_table (upd_trx t k m) = lock_table m" "lock_table (count_lock t m) = lock_table m"
  by (simp_all add: upd_lock_def upd_node_def upd_trx_def count_lock_def)

lemma trx_updates [simp]:
  "trx_node_table (upd_lock a f m) = trx_node_table m" "trx_node_table (upd_node r g m) = trx_node_table m"
  "trx_node_table (upd_trx t k m) = (trx_node_table m)(t := map_option k (trx_node_table m t))"
  "trx_node_table (count_lock t m) = trx_node_table m"
  by (simp_all add: upd_lock_def upd_node_def upd_trx_def count_lock_def)

lemma saved_updates [simp]:
  "lock_saved_vectors (upd_lock a f m) = lock_saved_vectors m" "lock_saved_vectors (upd_node r g m) = lock_saved_vectors m"
  "lock_saved_vectors (upd_trx t k m) = lock_saved_vectors m" "lock_saved_vectors (count_lock t m) = lock_saved_vectors m"
  by (simp_all add: upd_lock_def upd_node_def upd_trx_def count_lock_def)

text \<open>
  \<open>core\<close> is what a lock says about its holder, without its place in the list; \<open>globals\<close>
  are the fields no lock operation touches.
\<close>

definition core :: "lock_t \<Rightarrow> nat \<times> lock_mode \<times> nat \<times> i64 \<times> lock_state \<times> bool" where
  "core l = (record_id l, mode l, thread_id l, diff l, state l, signal_flag l)"

definition globals :: "memory \<Rightarrow> nat \<times> i32 \<times> i32 \<times> i32" where
  "globals m = (record_count m, thread_number m, last_global_execution_order m, global_execution_count m)"

definition values_of :: "memory \<Rightarrow> nat \<Rightarrow> i64 option" where
  "values_of m r = map_option record_value (lock_table m r)"

lemma globals_updates [simp]:
  "globals (upd_lock a f m) = globals m" "globals (upd_node r g m) = globals m"
  "globals (upd_trx t k m) = globals m" "globals (count_lock t m) = globals m"
  by (simp_all add: upd_lock_def upd_node_def upd_trx_def count_lock_def globals_def)

section \<open>Insertion\<close>

lemma queue_of_record:
  "table_inv m Q \<Longrightarrow> a \<in> set (Q r) \<Longrightarrow>
    a < length (heap m) \<and> record_id (lk m a) = r \<and> \<not> head_pass_flag (lk m a)"
proof -
  assume a: "table_inv m Q" "a \<in> set (Q r)"
  then obtain node where "lock_table m r = Some node" by (cases "lock_table m r") (auto simp: table_inv_def)
  then have "queue_ok m Q r node" using a(1) by (simp add: table_inv_def)
  then show ?thesis using a(2) by (auto simp: queue_ok_def dest: chain_in_heap)
qed

lemma find_saved_Some:
  "find_saved h as = Some a \<Longrightarrow> a \<in> set as \<and> state (h ! a) = OBSOLETE \<and> head_pass_flag (h ! a)"
  by (induction as) (auto split: if_splits)

definition taken :: "nat \<Rightarrow> nat \<Rightarrow> memory \<Rightarrow> (nat \<Rightarrow> nat list) \<Rightarrow> nat \<Rightarrow> memory \<Rightarrow> bool" where
  "taken me r m Q a m' \<longleftrightarrow>
     (\<forall>r'. a \<notin> set (Q r')) \<and> a < length (heap m') \<and> length (heap m) \<le> length (heap m')
     \<and> (\<forall>b < length (heap m'). b \<noteq> a \<longrightarrow> b < length (heap m) \<and> lk m' b = lk m b)
     \<and> (a < length (heap m) \<longrightarrow> state (lk m a) = OBSOLETE \<and> record_id (lk m a) = r \<and> thread_id (lk m a) = me)
     \<and> record_id (lk m' a) = r \<and> thread_id (lk m' a) = me \<and> state (lk m' a) = ACTIVE
     \<and> diff (lk m' a) = 0 \<and> \<not> signal_flag (lk m' a) \<and> \<not> head_pass_flag (lk m' a)
     \<and> next_lock (lk m' a) = None
     \<and> lock_table m' = lock_table m \<and> trx_node_table m' = trx_node_table m \<and> globals m' = globals m
     \<and> (\<forall>t r'. set (lock_saved_vectors m' t r') \<subseteq>
          set (lock_saved_vectors m t r') \<union> (if t = me \<and> r' = r then {a} else {}))"

lemma take_lock_taken:
  assumes "table_inv m Q" and "take_lock me r m = (a, m')"
  shows "taken me r m Q a m'"
proof (cases "find_saved (heap m) (lock_saved_vectors m me r)")
  case None
  have "a \<notin> set (Q r')" for r'
    using queue_of_record [OF assms(1), of a r'] assms(2) None by (auto simp: take_lock_def Let_def)
  then show ?thesis using assms(2) None
    by (auto simp: take_lock_def Let_def taken_def lock_t_new_def globals_def nth_append split: if_splits)
next
  case (Some b)
  have b: "b \<in> set (lock_saved_vectors m me r)" "state (lk m b) = OBSOLETE" "head_pass_flag (lk m b)"
    using find_saved_Some [OF Some] by auto
  have in_heap: "b < length (heap m) \<and> record_id (lk m b) = r \<and> thread_id (lk m b) = me"
    using assms(1) b(1) by (simp add: table_inv_def)
  have "b \<notin> set (Q r')" for r' using queue_of_record [OF assms(1), of b r'] b(3) by auto
  then show ?thesis using assms(2) Some b in_heap
    by (auto simp: take_lock_def taken_def globals_def upd_lock_def)
qed

definition inserted :: "nat \<Rightarrow> lock_mode \<Rightarrow> nat \<Rightarrow> memory \<Rightarrow> (nat \<Rightarrow> nat list) \<Rightarrow> nat \<Rightarrow> memory \<Rightarrow> bool" where
  "inserted me md r m Q a m' \<longleftrightarrow>
     (\<forall>r'. a \<notin> set (Q r')) \<and> a < length (heap m') \<and> length (heap m) \<le> length (heap m')
     \<and> (\<forall>b < length (heap m'). b \<noteq> a \<longrightarrow> b < length (heap m) \<and> core (lk m' b) = core (lk m b))
     \<and> (a < length (heap m) \<longrightarrow> state (lk m a) = OBSOLETE \<and> record_id (lk m a) = r \<and> thread_id (lk m a) = me)
     \<and> core (lk m' a) = (r, md, me, 0, ACTIVE, False)
     \<and> trx_node_table m' = (trx_node_table m)(me := map_option
          (\<lambda>x. x\<lparr>trx_lock_deque := trx_lock_deque x @ [a], conflict_lock := Some a\<rparr>) (trx_node_table m me))
     \<and> values_of m' = values_of m \<and> globals m' = globals m
     \<and> table_inv m' (Q(r := Q r @ [a]))"

lemma core_fields:
  "core l = (x1, x2, x3, x4, x5, x6) \<longleftrightarrow>
     record_id l = x1 \<and> mode l = x2 \<and> thread_id l = x3 \<and> diff l = x4 \<and> state l = x5 \<and> signal_flag l = x6"
  by (simp add: core_def)

lemma core_eq:
  "core l = core l' \<longleftrightarrow> record_id l = record_id l' \<and> mode l = mode l' \<and> thread_id l = thread_id l'
     \<and> diff l = diff l' \<and> state l = state l' \<and> signal_flag l = signal_flag l'"
  by (auto simp: core_def)

text \<open>Linking keeps every queue a chain and puts the lock at the end of its record's queue.\<close>

lemma link_lock_ok:
  assumes "taken me r m Q a m1" and "table_inv m Q" and "lock_table m r = Some node"
    and "heap m3 = (heap m1)[a := (lk m1 a)\<lparr>mode := md\<rparr>]" and "lock_table m3 = lock_table m1"
    and "lock_saved_vectors m3 = lock_saved_vectors m1"
  shows "\<exists>m4. link_lock r a m3 = Inr m4 \<and> table_inv m4 (Q(r := Q r @ [a]))
    \<and> length (heap m4) = length (heap m1) \<and> (\<forall>b. core (lk m4 b) = core (lk m3 b))
    \<and> trx_node_table m4 = trx_node_table m3 \<and> values_of m4 = values_of m3 \<and> globals m4 = globals m3"
proof -
  note tk = assms(1) [unfolded taken_def]
  have len: "length (heap m3) = length (heap m1)" using assms(4) by simp
  have tab: "lock_table m3 = lock_table m" using assms(5) tk by simp
  have ok: "queue_ok m Q r' n" if "lock_table m r' = Some n" for r' n
    using assms(2) that by (simp add: table_inv_def)
  note okr = ok [OF assms(3), unfolded queue_ok_def]
  define m' where "m' = (case tail node of
      Some p \<Rightarrow> upd_lock p (\<lambda>l. l\<lparr>next_lock := Some a\<rparr>) m3
    | None \<Rightarrow> upd_node r (\<lambda>n. n\<lparr>head := Some a\<rparr>) m3)"
  define m4 where "m4 = upd_node r (\<lambda>n. n\<lparr>tail := Some a\<rparr>) m'"
  have link: "link_lock r a m3 = Inr m4"
    using assms(3) tab by (simp add: link_lock_def get_node_def m4_def m'_def Let_def)
  have heap4: "heap m4 = (if Q r = [] then heap m3
      else (heap m3)[last (Q r) := (lk m3 (last (Q r)))\<lparr>next_lock := Some a\<rparr>])"
    using okr by (simp add: m4_def m'_def)
  have node4: "lock_table m4 = (lock_table m)(r \<mapsto> node\<lparr>tail := Some a,
      head := (if Q r = [] then Some a else head node)\<rparr>)"
    using okr assms(3) tab by (auto simp: m4_def m'_def fun_eq_iff)
  have old: "b < length (heap m3)" "b \<noteq> a" "lk m3 b = lk m b" "record_id (lk m b) = r'" "\<not> head_pass_flag (lk m b)"
    if "b \<in> set (Q r')" for b r'
  proof -
    have b: "b < length (heap m)" "record_id (lk m b) = r'" "\<not> head_pass_flag (lk m b)"
      using queue_of_record [OF assms(2) that] by auto
    show "b \<noteq> a" using tk that by auto
    show "b < length (heap m3)" using b(1) tk len by simp
    then show "lk m3 b = lk m b" using tk assms(4) len \<open>b \<noteq> a\<close> by simp
  qed (use queue_of_record [OF assms(2) that] in auto)
  have lk4: "lk m4 b = (if Q r \<noteq> [] \<and> b = last (Q r) then (lk m3 b)\<lparr>next_lock := Some a\<rparr> else lk m3 b)" for b
    using old(1) [of "last (Q r)" r] by (simp add: heap4 nth_list_update)
  have len4: "length (heap m4) = length (heap m1)" by (simp add: heap4 len)
  have core4: "core (lk m4 b) = core (lk m3 b)" for b by (simp add: lk4 core_def)
  have fields4: "record_id (lk m4 b) = record_id (lk m3 b)" "state (lk m4 b) = state (lk m3 b)"
    "thread_id (lk m4 b) = thread_id (lk m3 b)" "head_pass_flag (lk m4 b) = head_pass_flag (lk m3 b)" for b
    by (simp_all add: lk4)
  have newlk: "lk m4 a = (lk m1 a)\<lparr>mode := md\<rparr>"
  proof -
    have "a \<noteq> last (Q r)" if "Q r \<noteq> []" using old(2) [of "last (Q r)" r] that by auto
    then show ?thesis using tk by (auto simp: lk4 assms(4))
  qed
  have keep: "lk m4 b = lk m b" if "b \<in> set (Q r')" "r' \<noteq> r \<or> b \<noteq> last (Q r)" for b r'
    using that old [OF that(1)] old(4) [of "last (Q r)" r] by (auto simp: lk4)
  have "table_inv m4 (Q(r := Q r @ [a]))"
    unfolding table_inv_def
  proof (intro conjI allI impI ballI)
    fix r' n assume n: "lock_table m4 r' = Some n"
    show "queue_ok m4 (Q(r := Q r @ [a])) r' n"
    proof (cases "r' = r")
      case True
      have last: "last (Q r) \<notin> set (butlast (Q r))" if "Q r \<noteq> []"
        using okr that by (metis append_butlast_last_id distinct_butlast not_distinct_conv_prefix distinct_append disjoint_insert(1) list.simps(15) distinct.simps(2))
      have "chain (heap m4) (if Q r = [] then Some a else head node) (Q r @ [a])"
      proof (rule chain_snoc [of "heap m"])
        show "next_lock (lk m4 (last (Q r))) = Some a" if "Q r \<noteq> []" using that by (simp add: lk4)
        show "next_lock (lk m4 b) = next_lock (lk m b)" if b: "b \<in> set (butlast (Q r))" for b
        proof -
          have "Q r \<noteq> []" using b by auto
          then have "b \<noteq> last (Q r)" using b last by auto
          then show ?thesis using keep [of b r] b by (auto dest: in_set_butlastD)
        qed
      qed (use okr tk len4 newlk in auto)
      moreover have "record_id (lk m4 b) = r \<and> \<not> head_pass_flag (lk m4 b)" if "b \<in> set (Q r)" for b
        using old [OF that] by (auto simp: lk4)
      ultimately show ?thesis using True n okr tk newlk by (auto simp: queue_ok_def node4)
    next
      case False
      then have q: "queue_ok m Q r' n" using ok n by (simp add: node4)
      have same: "lk m4 b = lk m b" if "b \<in> set (Q r')" for b using keep [OF that] False by simp
      have "chain (heap m4) (head n) (Q r')"
      proof (rule chain_frame)
        show "chain (heap m) (head n) (Q r')" using q by (simp add: queue_ok_def)
        show "length (heap m) \<le> length (heap m4)" using tk len4 by simp
      qed (simp add: same)
      then show ?thesis using q False by (simp add: queue_ok_def same)
    qed
  next
    fix r' assume "lock_table m4 r' = None"
    then show "(Q(r := Q r @ [a])) r' = []" using assms(2) by (auto simp: node4 table_inv_def split: if_splits)
  next
    fix b assume b: "b < length (heap m4)" "b \<notin> set ((Q(r := Q r @ [a])) (record_id (lk m4 b)))"
    have "record_id (lk m4 a) = r" using newlk tk by simp
    then have ba: "b \<noteq> a" using b(2) by auto
    have "b < length (heap m1)" using b(1) len4 by simp
    then have lk3: "b < length (heap m)" "lk m3 b = lk m b" using tk assms(4) ba by simp_all
    have "record_id (lk m4 b) = record_id (lk m b)" by (simp add: fields4 lk3(2))
    then have "b \<notin> set (Q (record_id (lk m b)))" using b(2) by (auto split: if_splits)
    then have "state (lk m b) = OBSOLETE \<and> head_pass_flag (lk m b)" using assms(2) lk3(1) by (simp add: table_inv_def)
    then show "state (lk m4 b) = OBSOLETE" "head_pass_flag (lk m4 b)" by (simp_all add: fields4 lk3(2))
  next
    fix t r' b assume b: "b \<in> set (lock_saved_vectors m4 t r')"
    have "lock_saved_vectors m4 = lock_saved_vectors m1" using assms(6) by (simp add: m4_def m'_def split: option.splits)
    moreover have "set (lock_saved_vectors m1 t r') \<subseteq>
        set (lock_saved_vectors m t r') \<union> (if t = me \<and> r' = r then {a} else {})" using tk by blast
    ultimately have "b \<in> set (lock_saved_vectors m t r') \<or> (t = me \<and> r' = r \<and> b = a)"
      using b by (auto split: if_splits)
    then have "b < length (heap m4) \<and> record_id (lk m3 b) = r' \<and> thread_id (lk m3 b) = t"
    proof
      assume "b \<in> set (lock_saved_vectors m t r')"
      then have "b < length (heap m)" "record_id (lk m b) = r'" "thread_id (lk m b) = t"
        using assms(2) by (auto simp: table_inv_def)
      then show ?thesis using tk assms(4) len4 by (cases "b = a") auto
    qed (use tk assms(4) len4 in auto)
    then show "b < length (heap m4)" "record_id (lk m4 b) = r'" "thread_id (lk m4 b) = t"
      by (simp_all add: fields4)
  qed
  moreover have "trx_node_table m4 = trx_node_table m3" "globals m4 = globals m3"
    by (simp_all add: m4_def m'_def split: option.splits)
  moreover have "values_of m4 = values_of m3"
    using assms(3) tab by (auto simp: values_of_def node4 fun_eq_iff)
  ultimately show ?thesis using link len4 core4 by blast
qed

lemma insert_lock_ok:
  assumes "table_inv m Q" and "lock_table m r \<noteq> None" and "trx_node_table m me = Some x"
    and "conflict_lock x = None"
  shows "\<exists>a m'. insert_lock me md r m = Inr (a, m') \<and> inserted me md r m Q a m'"
proof -
  obtain a m1 where take: "take_lock me r m = (a, m1)" by fastforce
  note tk = take_lock_taken [OF assms(1) take]
  obtain node where node: "lock_table m r = Some node" using assms(2) by blast
  define m3 where "m3 = upd_trx me (\<lambda>x. x\<lparr>trx_lock_deque := trx_lock_deque x @ [a]\<rparr>)
    (upd_lock a (\<lambda>l. l\<lparr>mode := md\<rparr>) (count_lock me m1))"
  have m3: "heap m3 = (heap m1)[a := (lk m1 a)\<lparr>mode := md\<rparr>]" "lock_table m3 = lock_table m1"
    "lock_saved_vectors m3 = lock_saved_vectors m1" "globals m3 = globals m1"
    "trx_node_table m3 = (trx_node_table m1)(me := map_option
        (\<lambda>x. x\<lparr>trx_lock_deque := trx_lock_deque x @ [a]\<rparr>) (trx_node_table m1 me))"
    by (simp_all add: m3_def)
  obtain m4 where m4: "link_lock r a m3 = Inr m4" "table_inv m4 (Q(r := Q r @ [a]))"
    "length (heap m4) = length (heap m1)" "\<And>b. core (lk m4 b) = core (lk m3 b)"
    "trx_node_table m4 = trx_node_table m3" "values_of m4 = values_of m3" "globals m4 = globals m3"
    using link_lock_ok [OF tk assms(1) node m3(1-3)] by blast
  define m' where "m' = upd_trx me (\<lambda>x. x\<lparr>conflict_lock := Some a\<rparr>) m4"
  have "conflict_lock (trx_of me m4) = None"
    using m4(5) m3(5) tk assms(3,4) by (simp add: trx_of_def taken_def)
  then have ins: "insert_lock me md r m = Inr (a, m')"
    using m4(1) by (simp add: insert_lock_def take m3_def m'_def Let_def)
  have "table_inv m' (Q(r := Q r @ [a]))"
    using m4(2) by (simp add: table_inv_def queue_ok_def m'_def)
  moreover have "core (lk m' b) = core (if b = a then (lk m1 a)\<lparr>mode := md\<rparr> else lk m1 b)"
    if "b < length (heap m1)" for b
    using m4(4) [of b] that by (simp add: m'_def m3(1) nth_list_update)
  moreover have "values_of m' = values_of m" using m4(6) m3(2) tk by (simp add: m'_def values_of_def taken_def fun_eq_iff)
  ultimately have "inserted me md r m Q a m'"
    using tk m4(3,5,7) m3(4,5) assms(3)
    by (auto simp: inserted_def taken_def m'_def core_fields core_eq fun_eq_iff option.map_comp)
  then show ?thesis using ins by blast
qed

section \<open>What AcquireLock does\<close>

text \<open>
  The new lock must wait when a lock that is not released and not compatible is queued, and
  waiting would close a cycle when the owner of a queued lock waits behind the caller.
\<close>

definition must_wait :: "memory \<Rightarrow> (nat \<Rightarrow> nat list) \<Rightarrow> lock_mode \<Rightarrow> nat \<Rightarrow> bool" where
  "must_wait m Q md r \<longleftrightarrow>
     (\<exists>b \<in> set (Q r). state (lk m b) \<noteq> OBSOLETE \<and> (md = EXCLUSIVE \<or> mode (lk m b) = EXCLUSIVE))"

definition closes_cycle :: "memory \<Rightarrow> (nat \<Rightarrow> nat list) \<Rightarrow> nat \<Rightarrow> nat \<Rightarrow> bool" where
  "closes_cycle m Q me r \<longleftrightarrow>
     (\<exists>b \<in> set (Q r). state (lk m b) \<noteq> OBSOLETE \<and> (thread_id (lk m b), me) \<in> (waits_behind m Q)\<^sup>*)"

definition acquired_as ::
  "nat \<Rightarrow> lock_mode \<Rightarrow> nat \<Rightarrow> memory \<Rightarrow> (nat \<Rightarrow> nat list) \<Rightarrow> nat \<Rightarrow> lock_state \<Rightarrow> nat option \<Rightarrow> cond_var \<Rightarrow> memory \<Rightarrow> bool"
where
  "acquired_as me md r m Q a st cl cn m' \<longleftrightarrow>
     (\<forall>r'. a \<notin> set (Q r')) \<and> a < length (heap m') \<and> length (heap m) \<le> length (heap m')
     \<and> (\<forall>b < length (heap m'). b \<noteq> a \<longrightarrow> b < length (heap m) \<and> core (lk m' b) = core (lk m b))
     \<and> (a < length (heap m) \<longrightarrow> state (lk m a) = OBSOLETE \<and> record_id (lk m a) = r \<and> thread_id (lk m a) = me)
     \<and> core (lk m' a) = (r, md, me, 0, st, False)
     \<and> trx_node_table m' = (trx_node_table m)(me := map_option
          (\<lambda>x. x\<lparr>trx_lock_deque := trx_lock_deque x @ [a], conflict_lock := cl, cond := cn\<rparr>) (trx_node_table m me))
     \<and> values_of m' = values_of m \<and> globals m' = globals m
     \<and> table_inv m' (Q(r := Q r @ [a])) \<and> trx_inv m' (Q(r := Q r @ [a]))"

lemma conflicts_iff:
  "conflicts h md bs \<longleftrightarrow> (\<exists>b \<in> set bs. state (h ! b) \<noteq> OBSOLETE \<and> (md = EXCLUSIVE \<or> mode (h ! b) = EXCLUSIVE))"
  by (induction h md bs rule: conflicts.induct) auto

lemma collect_locks_result:
  "chain h p (as @ a # bs) \<Longrightarrow> a \<notin> set as \<Longrightarrow> length as < n \<Longrightarrow> collect_locks n h p a = Inr as"
proof (induction as arbitrary: p n)
  case (Cons b as)
  then show ?case by (cases n) auto
qed (case_tac n; simp)

text \<open>What the table's invariant depends on.\<close>

lemma chain_cong:
  "length h' = length h \<Longrightarrow> (\<And>b. b < length h \<Longrightarrow> next_lock (h' ! b) = next_lock (h ! b)) \<Longrightarrow>
    chain h' p qs \<longleftrightarrow> chain h p qs"
  by (induction h p qs rule: chain.induct) auto

lemma table_inv_frame:
  assumes inv: "table_inv m Q" and len: "length (heap m') = length (heap m)"
    and nodes: "\<And>r. map_option (\<lambda>n. (head n, tail n)) (lock_table m' r) = map_option (\<lambda>n. (head n, tail n)) (lock_table m r)"
    and saved: "lock_saved_vectors m' = lock_saved_vectors m"
    and same: "\<And>b. b < length (heap m) \<Longrightarrow> next_lock (lk m' b) = next_lock (lk m b) \<and> record_id (lk m' b) = record_id (lk m b)
        \<and> thread_id (lk m' b) = thread_id (lk m b) \<and> head_pass_flag (lk m' b) = head_pass_flag (lk m b)"
    and states: "\<And>b. b < length (heap m) \<Longrightarrow> b \<notin> set (Q (record_id (lk m b))) \<Longrightarrow> state (lk m' b) = OBSOLETE"
  shows "table_inv m' Q"
  unfolding table_inv_def
proof (intro conjI allI impI ballI)
  fix r n assume "lock_table m' r = Some n"
  then obtain n' where n': "lock_table m r = Some n'" "head n = head n'" "tail n = tail n'"
    using nodes [of r] by (cases "lock_table m r") auto
  have ok: "queue_ok m Q r n'" using inv n'(1) by (simp add: table_inv_def)
  have "chain (heap m') p (Q r) \<longleftrightarrow> chain (heap m) p (Q r)" for p
    by (rule chain_cong [OF len]) (simp add: same)
  moreover have "record_id (lk m' b) = r \<and> \<not> head_pass_flag (lk m' b)" if "b \<in> set (Q r)" for b
    using queue_of_record [OF inv that] same [of b] by simp
  ultimately show "queue_ok m' Q r n" using ok n' by (simp add: queue_ok_def)
next
  fix r assume "lock_table m' r = None"
  then show "Q r = []" using nodes [of r] inv by (simp add: table_inv_def)
next
  fix b assume b: "b < length (heap m')" "b \<notin> set (Q (record_id (lk m' b)))"
  then have b': "b < length (heap m)" "b \<notin> set (Q (record_id (lk m b)))" using same [of b] by (simp_all add: len)
  then show "state (lk m' b) = OBSOLETE" by (rule states)
  show "head_pass_flag (lk m' b)" using inv b' same [of b] by (simp add: table_inv_def)
next
  fix t r b assume "b \<in> set (lock_saved_vectors m' t r)"
  then have "b < length (heap m)" "record_id (lk m b) = r" "thread_id (lk m b) = t"
    using inv by (auto simp: saved table_inv_def)
  then show "b < length (heap m')" "record_id (lk m' b) = r" "thread_id (lk m' b) = t"
    using same [of b] by (simp_all add: len)
qed

text \<open>Changing the state of a queued lock.\<close>

lemma table_inv_state:
  assumes "table_inv m Q" and "a \<in> set (Q (record_id (lk m a)))"
  shows "table_inv (upd_lock a (\<lambda>l. l\<lparr>state := st\<rparr>) m) Q"
proof (rule table_inv_frame [OF assms(1)])
  fix b assume "b < length (heap m)" "b \<notin> set (Q (record_id (lk m b)))"
  then show "state (lk (upd_lock a (\<lambda>l. l\<lparr>state := st\<rparr>) m) b) = OBSOLETE"
    using assms by (cases "b = a") (auto simp: table_inv_def)
qed (simp_all add: nth_upd)

lemma waits_behind_iff:
  "(u, v) \<in> waits_behind m Q \<longleftrightarrow> (\<exists>c. conflict_lock (trx_of u m) = Some c
    \<and> (\<exists>a \<in> set (ahead m Q c). state (lk m a) \<noteq> OBSOLETE \<and> thread_id (lk m a) = v))"
  by (auto simp: waits_behind_def)

text \<open>A new last lock adds the edges from its owner to the owners of the live queued locks.\<close>

definition live_owners :: "memory \<Rightarrow> nat list \<Rightarrow> nat set" where
  "live_owners m qs = {v. \<exists>b \<in> set qs. state (lk m b) \<noteq> OBSOLETE \<and> thread_id (lk m b) = v}"

lemma waits_after_append:
  assumes "trx_inv m Q" and new: "\<And>r'. a \<notin> set (Q r')" and rec: "record_id (lk m2 a) = r"
    and same: "\<And>b r'. b \<in> set (Q r') \<Longrightarrow> state (lk m2 b) = state (lk m b) \<and> thread_id (lk m2 b) = thread_id (lk m b)
      \<and> record_id (lk m2 b) = record_id (lk m b)"
    and conf: "\<And>u. conflict_lock (trx_of u m2) = (if u = me then cl else conflict_lock (trx_of u m))"
    and none: "conflict_lock (trx_of me m) = None" and cl: "cl = None \<or> cl = Some a"
  shows "waits_behind m2 (Q(r := Q r @ [a])) =
    waits_behind m Q \<union> (if cl = None then {} else {me} \<times> live_owners m (Q r))"
proof -
  have ahead_a: "ahead m2 (Q(r := Q r @ [a])) a = Q r"
    using new by (auto simp: ahead_def rec takeWhile_append intro!: takeWhile_eq_all_conv [THEN iffD2])
  have ahead_c: "ahead m2 (Q(r := Q r @ [a])) c = ahead m Q c" if "c \<in> set (Q (record_id (lk m c)))" for c
    using that same [OF that] by (auto simp: ahead_def takeWhile_append)
  have edge: "(u, v) \<in> waits_behind m2 (Q(r := Q r @ [a])) \<longleftrightarrow> (u, v) \<in> waits_behind m Q" if "u \<noteq> me" for u v
  proof (cases "conflict_lock (trx_of u m)")
    case (Some c)
    then have c: "c \<in> set (Q (record_id (lk m c)))"
      using assms(1) by (auto simp: trx_inv_def trx_of_def TrxNode_new_def split: option.splits)
    have "b \<in> set (Q (record_id (lk m c)))" if "b \<in> set (ahead m Q c)" for b
      using that by (auto simp: ahead_def dest: set_takeWhileD)
    then have "state (lk m2 b) = state (lk m b) \<and> thread_id (lk m2 b) = thread_id (lk m b)"
      if "b \<in> set (ahead m Q c)" for b
      using that same [of b] by blast
    then show ?thesis using Some that conf by (simp add: waits_behind_iff ahead_c [OF c] cong: bex_cong)
  qed (use that conf in \<open>simp add: waits_behind_iff\<close>)
  have edge_me: "(me, v) \<in> waits_behind m2 (Q(r := Q r @ [a])) \<longleftrightarrow> cl \<noteq> None \<and> v \<in> live_owners m (Q r)" for v
  proof -
    have "state (lk m2 b) = state (lk m b) \<and> thread_id (lk m2 b) = thread_id (lk m b)" if "b \<in> set (Q r)" for b
      using same [OF that] by blast
    then show ?thesis using conf cl by (auto simp: waits_behind_iff ahead_a live_owners_def)
  qed
  have "(me, v) \<notin> waits_behind m Q" for v using none by (simp add: waits_behind_def)
  then have "(u, v) \<in> waits_behind m2 (Q(r := Q r @ [a])) \<longleftrightarrow> (u, v) \<in> waits_behind m Q \<or>
      u = me \<and> cl \<noteq> None \<and> v \<in> live_owners m (Q r)" for u v
    using edge edge_me by (cases "u = me") simp_all
  then show ?thesis by auto
qed

lemma trx_inv_inserted:
  assumes ins: "inserted me md r m Q a m1" and "table_inv m Q" and "trx_inv m Q"
    and "trx_node_table m me = Some x"
    and m2: "length (heap m2) = length (heap m1)" "\<And>b. b \<noteq> a \<Longrightarrow> core (lk m2 b) = core (lk m1 b)"
      "record_id (lk m2 a) = r" "thread_id (lk m2 a) = me"
    and trx: "\<And>t. t \<noteq> me \<Longrightarrow> trx_node_table m2 t = trx_node_table m t"
      "trx_node_table m2 me = Some y" "conflict_lock y = None \<or> conflict_lock y = Some a"
  shows "trx_inv m2 (Q(r := Q r @ [a]))"
  unfolding trx_inv_def
proof (intro conjI allI impI)
  note i = ins [unfolded inserted_def]
  have same: "b < length (heap m) \<and> thread_id (lk m2 b) = thread_id (lk m b) \<and> record_id (lk m2 b) = record_id (lk m b)"
    if "b < length (heap m2)" "b \<noteq> a" for b
    using i m2(1) m2(2) [of b] that by (simp add: core_eq)
  fix b assume b: "b < length (heap m2)"
  show "thread_id (lk m2 b) \<in> dom (trx_node_table m2)"
  proof (cases "b = a")
    case False
    then have "thread_id (lk m2 b) \<in> dom (trx_node_table m)"
      using same [OF b] assms(3) by (auto simp: trx_inv_def)
    then show ?thesis using trx by (cases "thread_id (lk m2 b) = me") auto
  qed (use m2(4) trx(2) in auto)
next
  note i = ins [unfolded inserted_def]
  fix t x c assume a: "trx_node_table m2 t = Some x \<and> conflict_lock x = Some c"
  have "c < length (heap m2) \<and> thread_id (lk m2 c) = t \<and> c \<in> set ((Q(r := Q r @ [a])) (record_id (lk m2 c)))"
  proof (cases "t = me")
    case True
    then have "c = a" using a trx(2,3) by auto
    then show ?thesis using True i m2 by simp
  next
    case False
    then have c: "c < length (heap m)" "thread_id (lk m c) = t" "c \<in> set (Q (record_id (lk m c)))"
      using a trx(1) assms(3) by (auto simp: trx_inv_def)
    then have "c \<noteq> a" using i by auto
    moreover have "c < length (heap m2)" using c(1) i m2(1) by simp
    ultimately have "thread_id (lk m2 c) = thread_id (lk m c) \<and> record_id (lk m2 c) = record_id (lk m c)"
      using i m2(1) m2(2) [of c] by (simp add: core_eq)
    then show ?thesis using c \<open>c < length (heap m2)\<close> by auto
  qed
  then show "c < length (heap m2)" "thread_id (lk m2 c) = t" "c \<in> set ((Q(r := Q r @ [a])) (record_id (lk m2 c)))"
    by auto
qed

lemma inserted_queued:
  assumes "inserted me md r m Q a m1" and "table_inv m Q" and "b \<in> set (Q r')"
  shows "b < length (heap m) \<and> b \<noteq> a \<and> core (lk m1 b) = core (lk m b)"
proof -
  have b: "b < length (heap m)" using queue_of_record [OF assms(2,3)] by simp
  moreover have "b \<noteq> a" using assms(1,3) by (auto simp: inserted_def)
  moreover have "b < length (heap m1)" using b assms(1) by (simp add: inserted_def)
  ultimately show ?thesis using assms(1) by (simp add: inserted_def)
qed

lemma path_to_new_edges:
  "(\<exists>u \<in> V. (u, me) \<in> (E \<union> {me} \<times> V)\<^sup>+) \<longleftrightarrow> (\<exists>u \<in> V. (u, me) \<in> E\<^sup>*)"
proof -
  have "(u, me) \<in> E\<^sup>*" if "(u, me) \<in> (E \<union> {me} \<times> V)\<^sup>+" for u
    using that by (induction rule: converse_trancl_induct) (auto intro: converse_rtrancl_into_rtrancl)
  moreover have "(u, me) \<in> (E \<union> {me} \<times> V)\<^sup>+" if "u \<in> V" "(u, me) \<in> E\<^sup>*" for u
  proof (cases "u = me")
    case False
    then have "(u, me) \<in> E\<^sup>+" using that(2) by (simp add: rtrancl_eq_or_trancl)
    then show ?thesis by (rule trancl_mono) blast
  qed (use that(1) in blast)
  ultimately show ?thesis by blast
qed

text \<open>
  The contract of \<open>AcquireLock\<close>: without a conflict the lock is granted; with one, the
  call reports a deadlock exactly when waiting would close a cycle, and otherwise sleeps.
\<close>

lemma AcquireLock_mutex_ok:
  assumes inv: "table_inv m Q" "trx_inv m Q" and r: "lock_table m r \<noteq> None"
    and me: "trx_node_table m me = Some x" "conflict_lock x = None" "trx_thread_id x = me"
  shows "\<exists>a m'. AcquireLock_mutex me md r m =
      Inr (if \<not> must_wait m Q md r then Granted a else if closes_cycle m Q me r then Deadlocked else Blocked a, m')
    \<and> (if \<not> must_wait m Q md r then acquired_as me md r m Q a ACTIVE None (cond x) m'
       else if closes_cycle m Q me r then acquired_as me md r m Q a OBSOLETE None (cond x) m'
       else acquired_as me md r m Q a WAIT (Some a) Sleeping m')"
proof -
  obtain a m1 where ins: "insert_lock me md r m = Inr (a, m1)" "inserted me md r m Q a m1"
    using insert_lock_ok [OF inv(1) r me(1,2)] by blast
  note i = ins(2) [unfolded inserted_def]
  let ?Q = "Q(r := Q r @ [a])"
  have inv1: "table_inv m1 ?Q" using i by simp
  obtain node where node: "lock_table m1 r = Some node"
    using i r by (metis map_option_is_None not_None_eq values_of_def)
  have ok: "queue_ok m1 ?Q r node" using inv1 node by (simp add: table_inv_def)
  have chain: "chain (heap m1) (head node) (Q r @ [a])" "distinct (Q r @ [a])" using ok by (simp_all add: queue_ok_def)
  have collect: "collect_locks (Suc (length (heap m1))) (heap m1) (head node) a = Inr (Q r)"
    by (rule collect_locks_result [of _ _ _ _ "[]"]) (use chain chain_length [OF chain] in auto)
  have head: "assert_that (head node \<noteq> None) () = Inr ()" using chain_start [OF chain(1)] by simp
  have queued: "b < length (heap m) \<and> b \<noteq> a \<and> core (lk m1 b) = core (lk m b)" if "b \<in> set (Q r)" for b
    using ins(2) inv(1) that by (rule inserted_queued)
  have conf: "conflicts (heap m1) md (rev (Q r)) \<longleftrightarrow> must_wait m Q md r"
    using queued by (auto simp: conflicts_iff must_wait_def core_eq)
  have x1: "trx_node_table m1 me = Some (x\<lparr>trx_lock_deque := trx_lock_deque x @ [a], conflict_lock := Some a\<rparr>)"
    using i me(1) by simp
  have pre: "assert_that (trx_thread_id (trx_of me m) = me) () = Inr ()" using me by (simp add: trx_of_def)
  note code = AcquireLock_mutex_def pre ins(1) get_node_def node head collect conf
  have core_a: "core (lk m1 a) = (r, md, me, 0, ACTIVE, False)" "a < length (heap m1)" using i by auto
  have post: "acquired_as me md r m Q a st cl cn m'"
    if h: "heap m' = (heap m1)[a := (lk m1 a)\<lparr>state := st\<rparr>]"
      and t: "trx_node_table m' = (trx_node_table m1)(me \<mapsto> x\<lparr>trx_lock_deque := trx_lock_deque x @ [a], conflict_lock := cl, cond := cn\<rparr>)"
      and o: "lock_table m' = lock_table m1" "lock_saved_vectors m' = lock_saved_vectors m1" "globals m' = globals m1"
      and cl: "cl = None \<or> cl = Some a"
    for st cl cn m'
  proof -
    have lk: "lk m' b = (if b = a then (lk m1 a)\<lparr>state := st\<rparr> else lk m1 b)" for b
      using core_a(2) by (simp add: h nth_upd)
    have tab: "table_inv m' ?Q"
    proof (rule table_inv_frame [OF inv1])
      fix b assume "b < length (heap m1)" "b \<notin> set (?Q (record_id (lk m1 b)))"
      then show "state (lk m' b) = OBSOLETE"
        using inv1 core_a by (cases "b = a") (auto simp: lk table_inv_def core_fields)
    qed (simp_all add: h o nth_upd)
    have trx: "trx_inv m' ?Q"
    proof (rule trx_inv_inserted [OF ins(2) inv me(1)])
      show "trx_node_table m' me = Some (x\<lparr>trx_lock_deque := trx_lock_deque x @ [a], conflict_lock := cl, cond := cn\<rparr>)"
        by (simp add: t)
    qed (use core_a i cl in \<open>auto simp: h t lk core_fields\<close>)
    show ?thesis
      using i core_a tab trx o
      by (auto simp: acquired_as_def h lk core_fields t me(1) values_of_def fun_eq_iff)
  qed
  show ?thesis
  proof (cases "must_wait m Q md r")
    case False
    define m' where "m' = upd_trx me (\<lambda>x. x\<lparr>conflict_lock := None\<rparr>) m1"
    have "(heap m1)[a := (lk m1 a)\<lparr>state := ACTIVE\<rparr>] = heap m1"
      using core_a by (simp add: core_fields list_update_same_conv)
    then have "acquired_as me md r m Q a ACTIVE None (cond x) m'"
      by (intro post) (simp_all add: m'_def x1)
    moreover have "AcquireLock_mutex me md r m = Inr (Granted a, m')"
      using False by (simp add: code m'_def del: collect_locks.simps and_then_Inr not_None_eq)
    ultimately show ?thesis using False by auto
  next
    case True
    define m2 where "m2 = upd_lock a (\<lambda>l. l\<lparr>state := WAIT\<rparr>) m1"
    define V where "V = live_owners m (Q r)"
    have tab2: "table_inv m2 ?Q" unfolding m2_def
      by (rule table_inv_state [OF inv1]) (use core_a in \<open>simp add: core_fields\<close>)
    have trx2: "trx_inv m2 ?Q"
    proof (rule trx_inv_inserted [OF ins(2) inv me(1)])
      show "trx_node_table m2 me = Some (x\<lparr>trx_lock_deque := trx_lock_deque x @ [a], conflict_lock := Some a\<rparr>)"
        by (simp add: m2_def x1)
    qed (use core_a i in \<open>auto simp: m2_def core_fields nth_upd\<close>)
    have E2: "waits_behind m2 ?Q = waits_behind m Q \<union> {me} \<times> V"
    proof -
      have "conflict_lock (trx_of u m2) = (if u = me then Some a else conflict_lock (trx_of u m))" for u
        using i me(1) by (auto simp: trx_of_def m2_def)
      then have "waits_behind m2 ?Q = waits_behind m Q \<union> (if Some a = None then {} else {me} \<times> live_owners m (Q r))"
        using core_a i inserted_queued [OF ins(2) inv(1)] me(1,2)
        by (intro waits_after_append [OF inv(2)]) (auto simp: m2_def nth_upd core_fields core_eq trx_of_def)
      then show ?thesis by (simp add: V_def)
    qed
    have same2: "state (lk m2 b) = state (lk m b) \<and> thread_id (lk m2 b) = thread_id (lk m b)" if "b \<in> set (Q r)" for b
      using queued [OF that] by (simp add: m2_def nth_upd core_eq)
    have found: "IsDeadlock2 me (Q r) m2 = Inr (closes_cycle m Q me r, m2)"
    proof -
      have "length (heap m) \<le> length (heap m2)" using i by (simp add: m2_def)
      then have "set (Q r) \<subseteq> {..<length (heap m2)}" using queued by fastforce
      from IsDeadlock2_answer [OF tab2 trx2 this, of me]
      have "IsDeadlock2 me (Q r) m2 = Inr (\<exists>u \<in> V. (u, me) \<in> (waits_behind m2 ?Q)\<^sup>+, m2)"
        using same2 by (auto simp: V_def live_owners_def)
      also have "(\<exists>u \<in> V. (u, me) \<in> (waits_behind m2 ?Q)\<^sup>+) \<longleftrightarrow> closes_cycle m Q me r"
        unfolding E2 path_to_new_edges by (auto simp: V_def live_owners_def closes_cycle_def)
      finally show ?thesis .
    qed
    show ?thesis
    proof (cases "closes_cycle m Q me r")
      case cyc: True
      define m' where "m' = upd_trx me (\<lambda>x. x\<lparr>conflict_lock := None\<rparr>) (upd_lock a (\<lambda>l. l\<lparr>state := OBSOLETE\<rparr>) m2)"
      have "acquired_as me md r m Q a OBSOLETE None (cond x) m'"
        using core_a by (intro post) (simp_all add: m'_def m2_def x1)
      moreover have "AcquireLock_mutex me md r m = Inr (Deadlocked, m')"
        using True cyc found by (simp add: code m'_def m2_def Let_def del: collect_locks.simps and_then_Inr not_None_eq)
      ultimately show ?thesis using True cyc by auto
    next
      case cyc: False
      define m' where "m' = upd_trx me (\<lambda>x. x\<lparr>cond := Sleeping\<rparr>) m2"
      have "\<not> signal_flag (lk m2 a)" using core_a by (simp add: m2_def core_fields)
      then have "AcquireLock_mutex me md r m = Inr (Blocked a, m')"
        using True cyc found by (simp add: code m'_def m2_def Let_def del: collect_locks.simps and_then_Inr not_None_eq)
      moreover have "acquired_as me md r m Q a WAIT (Some a) Sleeping m'"
        by (intro post) (simp_all add: m'_def m2_def x1)
      ultimately show ?thesis using True cyc by auto
    qed
  qed
qed

end
