(* ===== verification/MutexRelease.thy ===== *)
theory MutexRelease
  imports MutexAcquire
begin

text \<open>
  \<open>ReleaseLock\<close> with the global mutex, from \<^verbatim>\<open>project3/src/Release.cpp\<close>, one function on the
  memory. Its contract: the released lock is obsolete, the queue loses its leading
  obsolete locks (but never its last one), and if that moved the head to a live lock, this
  lock and, when it is shared, the shared locks behind it are woken.
\<close>

section \<open>ReleaseLock\<close>

text \<open>The loop that moves the head past released locks; \<open>None\<close> at the end of the list.\<close>

fun move_head :: "nat \<Rightarrow> nat \<Rightarrow> nat \<Rightarrow> memory \<Rightarrow> (nat option \<times> memory) res" where
  "move_head 0 r prev m = Inl Out_of_fuel"
| "move_head (Suc n) r prev m =
     (case next_lock (lk m prev) of
        None \<Rightarrow> Inr (None, m)
      | Some target \<Rightarrow>
          (let m' = upd_lock prev (\<lambda>l. l\<lparr>head_pass_flag := True\<rparr>)
                (upd_node r (\<lambda>n. n\<lparr>head := Some target\<rparr>) m)
           in if state (lk m' target) = OBSOLETE then move_head n r target m'
              else Inr (Some target, m')))"

definition wake :: "nat \<Rightarrow> memory \<Rightarrow> memory" where
  "wake a m =
     (let t = thread_id (lk m a);
          m1 = GetTrxNode t m;
          m2 = (if state (lk m1 a) = WAIT then upd_trx t (\<lambda>x. x\<lparr>cond := notify_one (cond x)\<rparr>) m1 else m1)
      in upd_lock a (\<lambda>l. l\<lparr>signal_flag := True\<rparr>) m2)"

fun wake_readers :: "nat \<Rightarrow> nat option \<Rightarrow> memory \<Rightarrow> memory res" where
  "wake_readers 0 target m = Inl Out_of_fuel"
| "wake_readers (Suc n) target m =
     (case target of
        None \<Rightarrow> Inr m
      | Some a \<Rightarrow>
          if state (lk m a) = OBSOLETE then wake_readers n (next_lock (lk m a)) m
          else if mode (lk m a) = EXCLUSIVE then Inr m
          else (let m' = wake a m in wake_readers n (next_lock (lk m' a)) m'))"

definition ReleaseLock_mutex :: "nat \<Rightarrow> memory \<Rightarrow> memory res" where
  "ReleaseLock_mutex a m =
     (let r = record_id (lk m a); m1 = upd_lock a (\<lambda>l. l\<lparr>state := OBSOLETE\<rparr>) m in
      and_then (get_node r m1) (\<lambda>node.
        case head node of
          None \<Rightarrow> Inl Assert_failed
        | Some target \<Rightarrow>
            if state (lk m1 target) \<noteq> OBSOLETE then Inr m1
            else and_then (move_head (length (heap m1) + 1) r target m1) (\<lambda>(new_head, m2).
              case new_head of
                None \<Rightarrow> Inr m2
              | Some f \<Rightarrow>
                  and_then (get_node r m2) (\<lambda>node2.
                  and_then (assert_that (head node2 = Some f) ()) (\<lambda>_.
                    let m3 = wake f m2 in
                    if mode (lk m3 f) = SHARED
                    then wake_readers (length (heap m3) + 1) (next_lock (lk m3 f)) m3
                    else Inr m3)))))"

section \<open>Moving the head\<close>

lemma head_step:
  assumes inv: "table_inv m Q" and q: "Q r = prev # t # rest" and obs: "state (lk m prev) = OBSOLETE"
  defines "m' \<equiv> upd_lock prev (\<lambda>l. l\<lparr>head_pass_flag := True\<rparr>) (upd_node r (\<lambda>n. n\<lparr>head := Some t\<rparr>) m)"
  shows "table_inv m' (Q(r := t # rest))"
proof -
  obtain node where node: "lock_table m r = Some node" using inv q by (cases "lock_table m r") (auto simp: table_inv_def)
  have ok: "queue_ok m Q r node" using inv node by (simp add: table_inv_def)
  have lk: "lk m' b = (if b = prev then (lk m b)\<lparr>head_pass_flag := True\<rparr> else lk m b)" for b
    using ok by (auto simp: m'_def nth_upd queue_ok_def q)
  have len: "length (heap m') = length (heap m)" by (simp add: m'_def)
  have chain: "chain (heap m') p qs \<longleftrightarrow> chain (heap m) p qs" for p qs
    by (rule chain_cong [OF len]) (simp add: lk)
  have tab: "lock_table m' = (lock_table m)(r \<mapsto> node\<lparr>head := Some t\<rparr>)" by (simp add: m'_def node)
  have prev: "prev \<notin> set (Q r')" if "r' \<noteq> r" for r'
    using queue_of_record [OF inv, of prev r'] queue_of_record [OF inv, of prev r] that by (auto simp: q)
  have rec: "record_id (lk m prev) = r" using queue_of_record [OF inv, of prev r] by (simp add: q)
  show ?thesis
    unfolding table_inv_def
  proof (intro conjI allI impI ballI)
    fix r' n assume n: "lock_table m' r' = Some n"
    show "queue_ok m' (Q(r := t # rest)) r' n"
    proof (cases "r' = r")
      case True
      then show ?thesis using n ok by (auto simp: queue_ok_def tab chain q lk len)
    next
      case False
      then have "queue_ok m Q r' n" using inv n by (simp add: table_inv_def tab)
      then show ?thesis using False prev [OF False] by (auto simp: queue_ok_def chain lk)
    qed
  next
    fix b assume b: "b < length (heap m')" "b \<notin> set ((Q(r := t # rest)) (record_id (lk m' b)))"
    show "state (lk m' b) = OBSOLETE" "head_pass_flag (lk m' b)"
      using b inv obs rec by (auto simp: lk len q table_inv_def split: if_splits)
  qed (use inv node in \<open>auto simp: table_inv_def tab m'_def nth_upd split: if_splits\<close>)
qed

definition settle :: "nat list \<Rightarrow> nat list \<Rightarrow> nat list" where
  "settle qs rest = (if rest = [] then [last qs] else rest)"

lemma move_head_result:
  assumes "table_inv m Q" and "Q r = prev # rest" and "state (lk m prev) = OBSOLETE" and "length rest < n"
  shows "\<exists>m'. move_head n r prev m =
      Inr (case dropWhile (\<lambda>b. state (lk m b) = OBSOLETE) rest of [] \<Rightarrow> None | f # _ \<Rightarrow> Some f, m')
    \<and> table_inv m' (Q(r := settle (Q r) (dropWhile (\<lambda>b. state (lk m b) = OBSOLETE) rest)))
    \<and> length (heap m') = length (heap m) \<and> (\<forall>b. core (lk m' b) = core (lk m b))
    \<and> trx_node_table m' = trx_node_table m \<and> values_of m' = values_of m \<and> globals m' = globals m"
  using assms
proof (induction rest arbitrary: prev m Q n)
  case Nil
  obtain node where node: "lock_table m r = Some node"
    using Nil.prems by (cases "lock_table m r") (auto simp: table_inv_def)
  then have "queue_ok m Q r node" using Nil.prems(1) by (simp add: table_inv_def)
  then have "next_lock (lk m prev) = None" using Nil.prems(2) by (simp add: queue_ok_def)
  moreover obtain n' where "n = Suc n'" using Nil.prems(4) by (cases n) auto
  ultimately show ?case using Nil.prems(1,2) by (simp add: settle_def fun_upd_idem)
next
  case (Cons t rest)
  obtain n' where n': "n = Suc n'" using Cons.prems(4) by (cases n) auto
  obtain node where node: "lock_table m r = Some node"
    using Cons.prems by (cases "lock_table m r") (auto simp: table_inv_def)
  then have ok: "queue_ok m Q r node" using Cons.prems(1) by (simp add: table_inv_def)
  then have nxt: "next_lock (lk m prev) = Some t" using Cons.prems(2) by (simp add: queue_ok_def)
  define m1 where "m1 = upd_lock prev (\<lambda>l. l\<lparr>head_pass_flag := True\<rparr>) (upd_node r (\<lambda>n. n\<lparr>head := Some t\<rparr>) m)"
  have inv1: "table_inv m1 (Q(r := t # rest))"
    unfolding m1_def by (rule head_step [OF Cons.prems(1-3)])
  have lk1: "core (lk m1 b) = core (lk m b)" for b by (simp add: m1_def nth_upd core_def)
  then have st1: "state (lk m1 b) = state (lk m b)" for b by (simp add: core_eq)
  have rest1: "length (heap m1) = length (heap m)" "trx_node_table m1 = trx_node_table m"
    "values_of m1 = values_of m" "globals m1 = globals m"
    by (auto simp: m1_def values_of_def fun_eq_iff option.map_comp comp_def intro!: option.map_cong)
  have step: "move_head n r prev m = (if state (lk m t) = OBSOLETE then move_head n' r t m1 else Inr (Some t, m1))"
    using st1 [of t] by (simp add: n' nxt m1_def Let_def)
  show ?case
  proof (cases "state (lk m t) = OBSOLETE")
    case True
    have "length rest < n'" using Cons.prems(4) n' by simp
    from Cons.IH [OF inv1 _ _ this, of t]
    obtain m' where "move_head n' r t m1 =
        Inr (case dropWhile (\<lambda>b. state (lk m b) = OBSOLETE) rest of [] \<Rightarrow> None | f # _ \<Rightarrow> Some f, m')"
      "table_inv m' (Q(r := settle (t # rest) (dropWhile (\<lambda>b. state (lk m b) = OBSOLETE) rest)))"
      "length (heap m') = length (heap m)" "\<forall>b. core (lk m' b) = core (lk m b)"
      "trx_node_table m' = trx_node_table m" "values_of m' = values_of m" "globals m' = globals m"
      using True rest1 lk1 by (auto simp: st1 simp del: fun_upd_apply simp add: fun_upd_same)
    moreover have "settle (Q r) X = settle (t # rest) X" for X using Cons.prems(2) by (simp add: settle_def)
    ultimately show ?thesis using True step by (auto simp del: fun_upd_apply)
  next
    case False
    then show ?thesis using step inv1 lk1 rest1 by (auto simp: settle_def simp del: fun_upd_apply)
  qed
qed

section \<open>Waking\<close>

text \<open>The shared locks in front of the first live exclusive one.\<close>

fun readers_run :: "lock_t list \<Rightarrow> nat list \<Rightarrow> nat list" where
  "readers_run h [] = []"
| "readers_run h (b # bs) =
     (if state (h ! b) = OBSOLETE then readers_run h bs
      else if mode (h ! b) = EXCLUSIVE then []
      else b # readers_run h bs)"

lemma readers_run_subset: "set (readers_run h bs) \<subseteq> set bs"
  by (induction h bs rule: readers_run.induct) auto

lemma readers_run_live: "b \<in> set (readers_run h bs) \<Longrightarrow> state (h ! b) \<noteq> OBSOLETE \<and> mode (h ! b) = SHARED"
  by (induction h bs rule: readers_run.induct) (auto split: if_splits intro: lock_mode.exhaust)

lemma readers_run_cong:
  "(\<And>b. b \<in> set bs \<Longrightarrow> state (h' ! b) = state (h ! b) \<and> mode (h' ! b) = mode (h ! b)) \<Longrightarrow>
    readers_run h' bs = readers_run h bs"
  by (induction bs) auto

lemma wake_lock: "lk (wake a m) b = (if b = a \<and> a < length (heap m) then (lk m b)\<lparr>signal_flag := True\<rparr> else lk m b)"
  by (simp add: wake_def Let_def nth_upd)

lemma wake_frame [simp]: "length (heap (wake a m)) = length (heap m)" "lock_table (wake a m) = lock_table m"
  by (simp_all add: wake_def Let_def)

lemma wake_saved [simp]: "lock_saved_vectors (wake a m) = lock_saved_vectors m"
  by (simp add: wake_def Let_def GetTrxNode_def)

lemma wake_trx:
  "thread_id (lk m a) \<in> dom (trx_node_table m) \<Longrightarrow>
    trx_node_table (wake a m) = (trx_node_table m)(thread_id (lk m a) := map_option
      (\<lambda>x. x\<lparr>cond := (if state (lk m a) = WAIT then notify_one (cond x) else cond x)\<rparr>)
      (trx_node_table m (thread_id (lk m a)))) \<and> globals (wake a m) = globals m"
  by (auto simp: wake_def Let_def GetTrxNode_def fun_eq_iff)

lemma chain_wake: "chain (heap (wake a m)) p qs \<longleftrightarrow> chain (heap m) p qs"
  by (rule chain_cong) (simp_all add: wake_lock)

lemma wake_readers_result:
  "chain (heap m) target rest \<Longrightarrow> length rest < n \<Longrightarrow>
    wake_readers n target m = Inr (fold wake (readers_run (heap m) rest) m)"
proof (induction rest arbitrary: target m n)
  case Nil
  then show ?case by (cases n) auto
next
  case (Cons b rest)
  obtain n' where n: "n = Suc n'" using Cons.prems(2) by (cases n) auto
  have run: "readers_run (heap (wake b m)) rest = readers_run (heap m) rest"
    by (rule readers_run_cong) (simp add: wake_lock)
  have "chain (heap (wake b m)) (next_lock (lk (wake b m) b)) rest"
    using Cons.prems(1) by (simp add: chain_wake wake_lock)
  then have "wake_readers n' (next_lock (lk (wake b m) b)) (wake b m)
      = Inr (fold wake (readers_run (heap m) rest) (wake b m))"
    using Cons.IH Cons.prems(2) n run by simp
  then show ?case using Cons by (auto simp: n Let_def)
qed

text \<open>The effect of a list of wake-ups.\<close>

definition woken :: "nat list \<Rightarrow> memory \<Rightarrow> memory \<Rightarrow> bool" where
  "woken ws m m' \<longleftrightarrow>
     length (heap m') = length (heap m) \<and> lock_table m' = lock_table m
     \<and> lock_saved_vectors m' = lock_saved_vectors m \<and> globals m' = globals m
     \<and> (\<forall>b. lk m' b = (if b \<in> set ws \<and> b < length (heap m) then (lk m b)\<lparr>signal_flag := True\<rparr> else lk m b))
     \<and> (\<forall>t. trx_node_table m' t = map_option
          (\<lambda>x. x\<lparr>cond := (if \<exists>b \<in> set ws. thread_id (lk m b) = t \<and> state (lk m b) = WAIT
                         then notify_one (cond x) else cond x)\<rparr>) (trx_node_table m t))"

lemma notify_one_twice [simp]: "notify_one (notify_one c) = notify_one c"
  by (simp add: notify_one_def)

lemma fold_wake_woken:
  assumes "\<forall>b \<in> set ws. thread_id (lk m b) \<in> dom (trx_node_table m)"
  shows "woken ws m (fold wake ws m)"
  using assms
proof (induction ws arbitrary: m)
  case Nil
  then show ?case by (simp add: woken_def option.map_ident)
next
  case (Cons a ws)
  have a: "trx_node_table (wake a m) = (trx_node_table m)(thread_id (lk m a) := map_option
      (\<lambda>x. x\<lparr>cond := (if state (lk m a) = WAIT then notify_one (cond x) else cond x)\<rparr>)
      (trx_node_table m (thread_id (lk m a))))" "globals (wake a m) = globals m"
    using wake_trx [of m a] Cons.prems by auto
  have dom: "dom (trx_node_table (wake a m)) = dom (trx_node_table m)" by (auto simp: a)
  have "woken ws (wake a m) (fold wake ws (wake a m))"
    by (rule Cons.IH) (use Cons.prems in \<open>simp add: dom wake_lock\<close>)
  then show ?case
    by (auto simp: woken_def a wake_lock option.map_comp comp_def intro!: option.map_cong)
qed

section \<open>What ReleaseLock does\<close>

definition live :: "lock_t list \<Rightarrow> nat list \<Rightarrow> nat list" where
  "live h qs = dropWhile (\<lambda>b. state (h ! b) = OBSOLETE) qs"

definition wake_list :: "lock_t list \<Rightarrow> nat list \<Rightarrow> nat list" where
  "wake_list h qs =
     (if state (h ! hd qs) \<noteq> OBSOLETE then []
      else case live h qs of
          [] \<Rightarrow> []
        | f # bs \<Rightarrow> f # (if mode (h ! f) = SHARED then readers_run h bs else []))"

definition heap_released :: "nat \<Rightarrow> memory \<Rightarrow> lock_t list" where
  "heap_released a m = (heap m)[a := (lk m a)\<lparr>state := OBSOLETE\<rparr>]"

definition released_as :: "nat \<Rightarrow> memory \<Rightarrow> (nat \<Rightarrow> nat list) \<Rightarrow> (nat \<Rightarrow> nat list) \<Rightarrow> memory \<Rightarrow> bool" where
  "released_as a m Q Q' m' \<longleftrightarrow>
     (let r = record_id (lk m a); h = heap_released a m; ws = wake_list h (Q r) in
      Q' = Q(r := settle (Q r) (live h (Q r))) \<and> length (heap m') = length (heap m)
      \<and> (\<forall>b < length (heap m). core (lk m' b) = core ((h ! b)\<lparr>signal_flag := signal_flag (h ! b) \<or> b \<in> set ws\<rparr>))
      \<and> (\<forall>t. trx_node_table m' t = map_option
           (\<lambda>x. x\<lparr>cond := (if \<exists>b \<in> set ws. thread_id (lk m b) = t \<and> state (lk m b) = WAIT
                          then notify_one (cond x) else cond x)\<rparr>) (trx_node_table m t))
      \<and> values_of m' = values_of m \<and> globals m' = globals m
      \<and> table_inv m' Q' \<and> trx_inv m' Q')"

lemma live_keeps: "c \<in> set qs \<Longrightarrow> state (h ! c) \<noteq> OBSOLETE \<Longrightarrow> c \<in> set (live h qs)"
  unfolding live_def by (induction qs) auto

lemma live_keeps_settle: "c \<in> set qs \<Longrightarrow> state (h ! c) \<noteq> OBSOLETE \<Longrightarrow> c \<in> set (settle qs (live h qs))"
  using live_keeps [of c qs h] by (auto simp: settle_def)

lemma live_subset: "set (live h qs) \<subseteq> set qs"
  by (auto simp: live_def dest: set_dropWhileD)

lemma live_head: "live h qs = f # bs \<Longrightarrow> state (h ! f) \<noteq> OBSOLETE"
  by (simp add: live_def dropWhile_eq_Cons_conv)

lemma wake_list_subset: "set (wake_list h qs) \<subseteq> set qs"
proof (cases "live h qs")
  case (Cons f bs)
  have "set (f # bs) \<subseteq> set qs" using live_subset [of h qs] Cons by simp
  moreover have "set (wake_list h qs) \<subseteq> set (f # bs)"
    using readers_run_subset [of h bs] by (auto simp: wake_list_def Cons)
  ultimately show ?thesis by blast
qed (simp add: wake_list_def)

lemma wake_list_live: "b \<in> set (wake_list h qs) \<Longrightarrow> state (h ! b) \<noteq> OBSOLETE"
proof -
  assume b: "b \<in> set (wake_list h qs)"
  then obtain f bs where l: "live h qs = f # bs" by (auto simp: wake_list_def split: list.splits if_splits)
  then have "state (h ! f) \<noteq> OBSOLETE" by (rule live_head)
  then show ?thesis using b l by (auto simp: wake_list_def dest: readers_run_live split: if_splits)
qed

lemma trx_inv_frame:
  assumes "trx_inv m Q" and "length (heap m') = length (heap m)"
    and "\<And>b. b < length (heap m) \<Longrightarrow> thread_id (lk m' b) = thread_id (lk m b) \<and> record_id (lk m' b) = record_id (lk m b)"
    and "\<And>t. map_option conflict_lock (trx_node_table m' t) = map_option conflict_lock (trx_node_table m t)"
    and "\<And>t x c. trx_node_table m t = Some x \<Longrightarrow> conflict_lock x = Some c \<Longrightarrow> c \<in> set (Q (record_id (lk m c)))
        \<Longrightarrow> c \<in> set (Q' (record_id (lk m c)))"
  shows "trx_inv m' Q'"
  unfolding trx_inv_def
proof (intro conjI allI impI)
  fix b assume b: "b < length (heap m')"
  then have "trx_node_table m (thread_id (lk m' b)) \<noteq> None"
    using assms(1,2) assms(3) [of b] by (auto simp: trx_inv_def)
  then show "thread_id (lk m' b) \<in> dom (trx_node_table m')"
    using assms(4) [of "thread_id (lk m' b)"] by (auto simp: dom_def)
next
  fix t x c assume a: "trx_node_table m' t = Some x \<and> conflict_lock x = Some c"
  then obtain y where y: "trx_node_table m t = Some y" "conflict_lock y = Some c"
    using assms(4) [of t] by (cases "trx_node_table m t") auto
  then have "c < length (heap m)" "thread_id (lk m c) = t" "c \<in> set (Q (record_id (lk m c)))"
    using assms(1) by (auto simp: trx_inv_def)
  then show "c < length (heap m')" "thread_id (lk m' c) = t" "c \<in> set (Q' (record_id (lk m' c)))"
    using assms(2) assms(3) [of c] assms(5) [OF y] by auto
qed

lemma ReleaseLock_mutex_ok:
  assumes inv: "table_inv m Q" "trx_inv m Q" and a: "a < length (heap m)" "Q (record_id (lk m a)) \<noteq> []"
    and waiters: "\<And>t x c. trx_node_table m t = Some x \<Longrightarrow> conflict_lock x = Some c \<Longrightarrow> state (lk m c) = WAIT \<and> c \<noteq> a"
  shows "\<exists>Q' m'. ReleaseLock_mutex a m = Inr m' \<and> released_as a m Q Q' m'"
proof -
  define r where "r = record_id (lk m a)"
  define h where "h = heap_released a m"
  define m1 where "m1 = upd_lock a (\<lambda>l. l\<lparr>state := OBSOLETE\<rparr>) m"
  define Q' where "Q' = Q(r := settle (Q r) (live h (Q r)))"
  have heap1: "heap m1 = h" by (simp add: m1_def h_def heap_released_def)
  have lk1: "lk m1 b = (if b = a then (lk m b)\<lparr>state := OBSOLETE\<rparr> else lk m b)" for b
    using a(1) by (simp add: m1_def nth_upd)
  have len1: "length (heap m1) = length (heap m)" by (simp add: m1_def)
  have same1: "trx_node_table m1 = trx_node_table m" "values_of m1 = values_of m" "globals m1 = globals m"
    by (simp_all add: m1_def values_of_def fun_eq_iff)
  have tab1: "table_inv m1 Q"
    by (rule table_inv_frame [OF inv(1)]) (use inv(1) in \<open>auto simp: lk1 len1 m1_def nth_upd table_inv_def\<close>)
  obtain t0 qs where q: "Q r = t0 # qs" using a(2) by (cases "Q r") (auto simp: r_def)
  obtain node where node: "lock_table m1 r = Some node" using tab1 q by (cases "lock_table m1 r") (auto simp: table_inv_def)
  have ok: "queue_ok m1 Q r node" using tab1 node by (simp add: table_inv_def)
  have head: "head node = Some t0" using ok q by (simp add: queue_ok_def)
  have fuel: "length qs < Suc (length (heap m1))"
    using chain_length [of "heap m1" "head node" "Q r"] ok q by (simp add: queue_ok_def)
  have finish: "released_as a m Q Q' m'"
    if t: "table_inv m' Q'" "length (heap m') = length (heap m)" "values_of m' = values_of m" "globals m' = globals m"
      and c: "\<And>b. b < length (heap m) \<Longrightarrow> core (lk m' b) =
          core ((h ! b)\<lparr>signal_flag := signal_flag (h ! b) \<or> b \<in> set (wake_list h (Q r))\<rparr>)"
      and x: "\<And>t. trx_node_table m' t = map_option
           (\<lambda>x. x\<lparr>cond := (if \<exists>b \<in> set (wake_list h (Q r)). thread_id (lk m b) = t \<and> state (lk m b) = WAIT
                          then notify_one (cond x) else cond x)\<rparr>) (trx_node_table m t)" for m'
  proof -
    have hb: "h ! b = (if b = a then (lk m b)\<lparr>state := OBSOLETE\<rparr> else lk m b)" for b using lk1 heap1 by simp
    have "trx_inv m' Q'"
    proof (rule trx_inv_frame [OF inv(2) t(2)])
      fix b assume "b < length (heap m)"
      then show "thread_id (lk m' b) = thread_id (lk m b) \<and> record_id (lk m' b) = record_id (lk m b)"
        using c [of b] by (auto simp: core_eq hb split: if_splits)
    next
      fix t show "map_option conflict_lock (trx_node_table m' t) = map_option conflict_lock (trx_node_table m t)"
        by (simp add: x option.map_comp comp_def)
    next
      fix t y c assume y: "trx_node_table m t = Some y" "conflict_lock y = Some c" "c \<in> set (Q (record_id (lk m c)))"
      have "state (h ! c) = WAIT" using waiters [OF y(1,2)] by (simp add: hb)
      then show "c \<in> set (Q' (record_id (lk m c)))"
        using y(3) live_keeps_settle [of c "Q r" h] by (auto simp: Q'_def)
    qed
    then show ?thesis using t c x by (simp add: released_as_def Let_def r_def [symmetric] h_def [symmetric] Q'_def [symmetric])
  qed
  show ?thesis
  proof (cases "state (lk m1 t0) = OBSOLETE")
    case False
    then have l: "live h (Q r) = Q r" "wake_list h (Q r) = []" by (simp_all add: live_def wake_list_def q heap1 [symmetric])
    have "Q r \<noteq> []" by (simp add: q)
    then have "Q' = Q" by (simp add: Q'_def settle_def l)
    moreover have "ReleaseLock_mutex a m = Inr m1"
      using False node head by (simp add: ReleaseLock_mutex_def Let_def m1_def [symmetric] r_def [symmetric] get_node_def)
    moreover have "released_as a m Q Q' m1"
      unfolding \<open>Q' = Q\<close>
      by (rule finish [unfolded \<open>Q' = Q\<close>])
         (use tab1 in \<open>simp_all add: l heap1 len1 [unfolded heap1] same1 option.map_ident\<close>)
    ultimately show ?thesis by blast
  next
    case obs: True
    have live: "live h (Q r) = dropWhile (\<lambda>b. state (lk m1 b) = OBSOLETE) qs"
      using obs by (simp add: live_def q heap1)
    obtain m2 where m2: "move_head (Suc (length (heap m1))) r t0 m1 =
        Inr (case live h (Q r) of [] \<Rightarrow> None | f # _ \<Rightarrow> Some f, m2)" "table_inv m2 Q'"
      "length (heap m2) = length (heap m1)" "\<And>b. core (lk m2 b) = core (lk m1 b)"
      "trx_node_table m2 = trx_node_table m1" "values_of m2 = values_of m1" "globals m2 = globals m1"
      using move_head_result [OF tab1 q obs fuel] unfolding live [symmetric] Q'_def by blast
    note code = ReleaseLock_mutex_def Let_def m1_def [symmetric] r_def [symmetric] get_node_def node head obs m2(1)
    show ?thesis
    proof (cases "live h (Q r)")
      case Nil
      then have "wake_list h (Q r) = []" by (simp add: wake_list_def)
      then have "released_as a m Q Q' m2"
        using m2 by (intro finish) (simp_all add: len1 len1 [unfolded heap1] core_eq heap1 same1 option.map_ident)
      moreover have "ReleaseLock_mutex a m = Inr m2" by (simp add: code Nil del: move_head.simps and_then_Inr)
      ultimately show ?thesis by blast
    next
      case (Cons f bs)
      have Q'r: "Q' r = f # bs" by (simp add: Q'_def settle_def Cons)
      obtain node2 where node2: "lock_table m2 r = Some node2"
        using m2(2) Q'r by (cases "lock_table m2 r") (auto simp: table_inv_def)
      have ok2: "queue_ok m2 Q' r node2" using m2(2) node2 by (simp add: table_inv_def)
      then have head2: "head node2 = Some f" "chain (heap m2) (next_lock (lk m2 f)) bs"
        by (simp_all add: queue_ok_def Q'r)
      have fuel2: "length bs < length (heap m2) + 1"
        using chain_length [of "heap m2" "head node2" "Q' r"] ok2 Q'r by (simp add: queue_ok_def)
      have lk2: "state (lk m2 b) = state (h ! b)" "mode (lk m2 b) = mode (h ! b)" for b
        using m2(4) [of b] by (simp_all add: core_eq heap1)
      define m3 where "m3 = wake f m2"
      have lk3: "state (lk m3 b) = state (h ! b)" "mode (lk m3 b) = mode (h ! b)" for b
        by (simp_all add: m3_def wake_lock lk2)
      have "wake_readers (length (heap m3) + 1) (next_lock (lk m3 f)) m3 = Inr (fold wake (readers_run (heap m3) bs) m3)"
        by (rule wake_readers_result) (use head2 fuel2 in \<open>simp_all add: m3_def chain_wake wake_lock\<close>)
      moreover have "readers_run (heap m3) bs = readers_run h bs" by (rule readers_run_cong) (simp add: lk3)
      ultimately have readers: "wake_readers (Suc (length (heap m3))) (next_lock (lk m3 f)) m3
          = Inr (fold wake (readers_run h bs) m3)" by simp
      define ws where "ws = wake_list h (Q r)"
      have obs': "state (h ! hd (Q r)) = OBSOLETE" using obs by (simp add: q heap1)
      have ws: "ws = f # (if mode (h ! f) = SHARED then readers_run h bs else [])"
        by (simp add: ws_def wake_list_def obs' Cons)
      define m' where "m' = fold wake ws m2"
      have code': "ReleaseLock_mutex a m = Inr m'"
        using readers Cons node2 head2(1) lk3(2) [of f]
        by (simp add: code m3_def [symmetric] m'_def ws del: move_head.simps wake_readers.simps and_then_Inr)
      have "thread_id (lk m2 b) \<in> dom (trx_node_table m2)" if "b \<in> set ws" for b
      proof -
        have "b < length (heap m)"
          using that wake_list_subset [of h "Q r"] queue_of_record [OF inv(1), of b r] by (auto simp: ws_def)
        moreover have "thread_id (lk m2 b) = thread_id (lk m b)" using m2(4) [of b] by (simp add: core_eq lk1)
        ultimately show ?thesis using inv(2) m2(5) by (simp add: trx_inv_def same1)
      qed
      then have wk: "woken ws m2 m'" unfolding m'_def by (intro fold_wake_woken) blast
      note w = wk [unfolded woken_def]
      have lkm: "lk m2 b = lk m2 b" for b ..
      have th2: "thread_id (lk m2 b) = thread_id (lk m b)" "b \<in> set ws \<Longrightarrow> state (lk m2 b) = state (lk m b)" for b
        using m2(4) [of b] wake_list_live [of b h "Q r"] by (auto simp: core_eq lk1 ws_def heap1 [symmetric])
      have "released_as a m Q Q' m'"
      proof (rule finish)
        show "table_inv m' Q'"
          by (rule table_inv_frame [OF m2(2)]) (use w m2(2) in \<open>auto simp: table_inv_def\<close>)
        show "core (lk m' b) = core ((h ! b)\<lparr>signal_flag := signal_flag (h ! b) \<or> b \<in> set (wake_list h (Q r))\<rparr>)"
          if "b < length (heap m)" for b
          using w m2(3) m2(4) [of b] that by (auto simp: core_eq heap1 ws_def len1 len1 [unfolded heap1])
        show "trx_node_table m' t = map_option
           (\<lambda>x. x\<lparr>cond := (if \<exists>b \<in> set (wake_list h (Q r)). thread_id (lk m b) = t \<and> state (lk m b) = WAIT
                          then notify_one (cond x) else cond x)\<rparr>) (trx_node_table m t)" for t
        proof -
          have "(\<exists>b \<in> set ws. thread_id (lk m2 b) = t \<and> state (lk m2 b) = WAIT)
              \<longleftrightarrow> (\<exists>b \<in> set ws. thread_id (lk m b) = t \<and> state (lk m b) = WAIT)" using th2 by auto
          then show ?thesis using w m2(5) by (simp add: ws_def [symmetric] same1)
        qed
      qed (use w m2 in \<open>simp_all add: len1 len1 [unfolded heap1] same1 values_of_def fun_eq_iff\<close>)
      then show ?thesis using code' by blast
    qed
  qed
qed

end
