(* ===== verification/TrxMachine.thy ===== *)
theory TrxMachine
  imports MutexRelease CommitLog
begin

text \<open>
  The transactions of \<^verbatim>\<open>project3\<close> with the global mutex, as an interleaved machine: threads
  run \<open>RepeatTrx2\<close> (\<^verbatim>\<open>src/main.cpp\<close>), which calls \<open>Begin\<close>, \<open>Find\<close>, \<open>Update\<close>, \<open>Commit\<close> and
  \<open>Abort\<close> (\<^verbatim>\<open>src/TrxManager.cpp\<close>). A step is one critical section under the mutex, or one
  access outside it: a read or change of a record's value, the fetch_add of the commit id,
  the append to a log file. Which records a transaction works on is chosen freely, as the
  random generator may. A sleeping thread goes on when it was notified; the event
  \<open>Spurious\<close> lets it go on without, which \<open>std::condition_variable\<close> allows. The fields
  \<open>committed\<close> and \<open>writers\<close> are history: the commits in the order of their ids.
\<close>

section \<open>State\<close>

text \<open>The three calls of a transaction: \<open>Find(i)\<close>, \<open>Update(j)\<close>, \<open>Update(k)\<close>.\<close>

datatype stage = Find_i | Update_j | Update_k

text \<open>Where a thread is. \<open>Undoing f n\<close>: at lock \<open>n\<close> of the rollback loop, of \<open>Commit\<close> if \<open>f\<close>.\<close>

datatype tpc =
    Picking
  | Calling stage
  | Waiting stage nat                              \<comment> \<open>in \<open>cond.wait\<close>, with its new lock\<close>
  | Using stage nat                                \<comment> \<open>\<open>AcquireLock\<close> returned this lock\<close>
  | Commit_call
  | Reading_back i32 nat "nat list" "i64 list"     \<comment> \<open>commit id, loop index, the two queues\<close>
  | Releasing i32 nat "nat list" "i64 list"
  | Publishing i32 "nat list" "i64 list"
  | Undoing bool nat
  | Undo_release bool nat
  | Finished

text \<open>The locals of \<open>RepeatTrx2\<close>.\<close>

record locals =
  rec_i :: nat
  rec_j :: nat
  rec_k :: nat
  record_i :: i64
  record_j :: i64
  record_k :: i64

definition locals_new :: locals where
  "locals_new = \<lparr>rec_i = 0, rec_j = 0, rec_k = 0, record_i = 0, record_j = 0, record_k = 0\<rparr>"

record trx_sys =
  mem :: memory
  tpcs :: "tpc list"
  locs :: "locals list"
  files :: directory
  global_recycled_lock_count :: nat
  global_total_created_lock_count :: nat
  committed :: "log list"
  writers :: "nat list"

abbreviation n_threads :: "trx_sys \<Rightarrow> nat" where
  "n_threads s \<equiv> length (tpcs s)"

text \<open>\<open>InitManagers\<close> and the start of the threads.\<close>

definition InitManagers :: "i32 \<Rightarrow> nat \<Rightarrow> memory \<Rightarrow> memory" where
  "InitManagers last_id n m = (MakeRecords n m)\<lparr>last_global_execution_order := last_id\<rparr>"

definition trx_sys_new :: "nat \<Rightarrow> nat \<Rightarrow> i32 \<Rightarrow> directory \<Rightarrow> trx_sys" where
  "trx_sys_new n_thr n_rec last_id d =
     \<lparr>mem = InitManagers last_id n_rec memory_new, tpcs = replicate n_thr Picking,
      locs = replicate n_thr locals_new, files = d, global_recycled_lock_count = 0,
      global_total_created_lock_count = 0, committed = [], writers = []\<rparr>"

definition go :: "nat \<Rightarrow> tpc \<Rightarrow> memory \<Rightarrow> trx_sys \<Rightarrow> trx_sys" where
  "go t p m s = s\<lparr>tpcs := (tpcs s)[t := p], mem := m\<rparr>"

definition deque :: "nat \<Rightarrow> memory \<Rightarrow> nat list" where
  "deque t m = trx_lock_deque (trx_of t m)"

section \<open>Find and Update\<close>

fun stage_mode :: "stage \<Rightarrow> lock_mode" where
  "stage_mode Find_i = SHARED"
| "stage_mode Update_j = EXCLUSIVE"
| "stage_mode Update_k = EXCLUSIVE"

fun stage_record :: "stage \<Rightarrow> locals \<Rightarrow> nat" where
  "stage_record Find_i l = rec_i l"
| "stage_record Update_j l = rec_j l"
| "stage_record Update_k l = rec_k l"

text \<open>
  A rollback loop at index \<open>n\<close>; \<open>Abort\<close> goes back to the top of \<open>RepeatTrx2\<close>'s loop, the
  rollback of \<open>Commit\<close> returns -1, which leaves it.
\<close>

definition undo_from :: "bool \<Rightarrow> nat \<Rightarrow> nat list \<Rightarrow> tpc" where
  "undo_from final n locks =
     (if n < length locks then Undoing final n else if final then Finished else Picking)"

text \<open>The call of \<open>AcquireLock\<close>; on a null pointer the transaction calls \<open>Abort\<close>.\<close>

definition acquire_call :: "nat \<Rightarrow> stage \<Rightarrow> trx_sys \<Rightarrow> trx_sys res" where
  "acquire_call t st s =
     and_then (AcquireLock_mutex t (stage_mode st) (stage_record st (locs s ! t)) (GetTrxNode t (mem s)))
       (\<lambda>(out, m). Inr (case out of
          Granted a \<Rightarrow> go t (Using st a) m s
        | Blocked a \<Rightarrow> go t (Waiting st a) m s
        | Deadlocked \<Rightarrow> go t (undo_from False 0 (deque t m)) m s))"

definition wake_up :: "nat \<Rightarrow> stage \<Rightarrow> nat \<Rightarrow> trx_sys \<Rightarrow> trx_sys" where
  "wake_up t st a s = go t (Using st a) (AcquireLock_resume t a (mem s)) s"

text \<open>\<open>*ret = ChangeRecord(lock, diff)\<close> and \<open>lock->diff = diff\<close>.\<close>

definition change_and_note :: "nat \<Rightarrow> i64 \<Rightarrow> memory \<Rightarrow> (memory \<times> i64) res" where
  "change_and_note a d m =
     and_then (ChangeRecord a d m) (\<lambda>(m', v). Inr (upd_lock a (\<lambda>l. l\<lparr>diff := d\<rparr>) m', v))"

text \<open>What \<open>Find\<close> and \<open>Update\<close> do with the lock, and the next call of the transaction.\<close>

definition use_lock :: "nat \<Rightarrow> stage \<Rightarrow> nat \<Rightarrow> trx_sys \<Rightarrow> trx_sys res" where
  "use_lock t st a s =
     (let l = locs s ! t; set_locals = (\<lambda>l'. s\<lparr>locs := (locs s)[t := l']\<rparr>) in
      case st of
        Find_i \<Rightarrow> and_then (GetRecord a (mem s)) (\<lambda>v.
          Inr (go t (Calling Update_j) (mem s) (set_locals (l\<lparr>record_i := v\<rparr>))))
      | Update_j \<Rightarrow> and_then (change_and_note a (record_i l + 1) (mem s)) (\<lambda>(m, v).
          Inr (go t (Calling Update_k) m (set_locals (l\<lparr>record_j := v\<rparr>))))
      | Update_k \<Rightarrow> and_then (change_and_note a (- record_i l) (mem s)) (\<lambda>(m, v).
          Inr (go t Commit_call m (set_locals (l\<lparr>record_k := v\<rparr>)))))"

section \<open>Commit and Abort\<close>

text \<open>The loop of a commit at index \<open>n\<close>.\<close>

definition commit_from :: "i32 \<Rightarrow> nat \<Rightarrow> nat list \<Rightarrow> i64 list \<Rightarrow> nat list \<Rightarrow> tpc" where
  "commit_from cid n rs vs locks = (if n < length locks then Reading_back cid n rs vs else Publishing cid rs vs)"

definition thread_file :: "nat \<Rightarrow> memory \<Rightarrow> string" where
  "thread_file t m = file_name (trx_thread_number (trx_of t m))"

text \<open>
  The start of \<open>Commit\<close>: the log file is opened, the commit id taken; beyond the last
  one the transaction is rolled back. A commit within it is noted in the history with the
  values its records have.
\<close>

definition take_commit_id :: "nat \<Rightarrow> trx_sys \<Rightarrow> trx_sys" where
  "take_commit_id t s =
     (let m = (mem s)\<lparr>global_execution_count := global_execution_count (mem s) + 1\<rparr>;
          cid = global_execution_count m;
          l = locs s ! t;
          s' = s\<lparr>files := open_append (thread_file t m) (files s)\<rparr>;
          val = (\<lambda>r. case lock_table m r of Some node \<Rightarrow> sint (record_value node) | None \<Rightarrow> 0)
      in if last_global_execution_order m <s cid
         then go t (undo_from True 0 (deque t m)) m s'
         else go t (commit_from cid 0 [] [] (deque t m)) m
           (s'\<lparr>committed := committed s @
                 [\<lparr>commit_id = sint cid, log_i = int (rec_i l), log_j = int (rec_j l), log_k = int (rec_k l),
                   log_vi = val (rec_i l), log_vj = val (rec_j l), log_vk = val (rec_k l)\<rparr>],
               writers := writers s @ [t]\<rparr>))"

definition read_back :: "nat \<Rightarrow> i32 \<Rightarrow> nat \<Rightarrow> nat list \<Rightarrow> i64 list \<Rightarrow> trx_sys \<Rightarrow> trx_sys res" where
  "read_back t cid n rs vs s =
     (let a = deque t (mem s) ! n in
      and_then (GetRecord a (mem s)) (\<lambda>v.
        Inr (go t (Releasing cid n (rs @ [record_id (lk (mem s) a)]) (vs @ [v])) (mem s) s)))"

definition release_next :: "nat \<Rightarrow> i32 \<Rightarrow> nat \<Rightarrow> nat list \<Rightarrow> i64 list \<Rightarrow> trx_sys \<Rightarrow> trx_sys res" where
  "release_next t cid n rs vs s =
     and_then (ReleaseLock_mutex (deque t (mem s) ! n) (mem s)) (\<lambda>m.
       Inr (go t (commit_from cid (Suc n) rs vs (deque t m)) m s))"

definition publish :: "nat \<Rightarrow> i32 \<Rightarrow> nat list \<Rightarrow> i64 list \<Rightarrow> trx_sys \<Rightarrow> trx_sys" where
  "publish t cid rs vs s =
     go t Picking (mem s)
       (s\<lparr>files := append_to (thread_file t (mem s)) (print_commit cid rs vs) (files s)\<rparr>)"

definition undo_next :: "nat \<Rightarrow> bool \<Rightarrow> nat \<Rightarrow> trx_sys \<Rightarrow> trx_sys res" where
  "undo_next t final n s =
     (let m = mem s; a = deque t m ! n in
      if mode (lk m a) = EXCLUSIVE \<and> state (lk m a) \<noteq> OBSOLETE
      then and_then (ChangeRecord a (- diff (lk m a)) m) (\<lambda>(m', v). Inr (go t (Undo_release final n) m' s))
      else Inr (go t (Undo_release final n) m s))"

text \<open>The end of the thread adds its counters to the global ones.\<close>

definition finish_thread :: "nat \<Rightarrow> tpc \<Rightarrow> trx_sys \<Rightarrow> trx_sys" where
  "finish_thread t p s =
     (if p = Finished
      then s\<lparr>global_recycled_lock_count := global_recycled_lock_count s + recycled_lock_count (mem s) t,
             global_total_created_lock_count :=
               global_total_created_lock_count s + total_created_lock_count (mem s) t\<rparr>
      else s)"

definition undo_release :: "nat \<Rightarrow> bool \<Rightarrow> nat \<Rightarrow> trx_sys \<Rightarrow> trx_sys res" where
  "undo_release t final n s =
     and_then (ReleaseLock_mutex (deque t (mem s) ! n) (mem s)) (\<lambda>m.
       let p = undo_from final (Suc n) (deque t m) in
       Inr (go t p m (finish_thread t p (s\<lparr>mem := m\<rparr>))))"

section \<open>The machine\<close>

text \<open>The next access of a thread; a sleeping thread and one that has finished have none.\<close>

definition trx_access :: "nat \<Rightarrow> trx_sys \<Rightarrow> trx_sys res" where
  "trx_access t s =
     (case tpcs s ! t of
        Picking \<Rightarrow> Inr s
      | Calling st \<Rightarrow> acquire_call t st s
      | Waiting st a \<Rightarrow> Inr (wake_up t st a s)
      | Using st a \<Rightarrow> use_lock t st a s
      | Commit_call \<Rightarrow> Inr (take_commit_id t s)
      | Reading_back cid n rs vs \<Rightarrow> read_back t cid n rs vs s
      | Releasing cid n rs vs \<Rightarrow> release_next t cid n rs vs s
      | Publishing cid rs vs \<Rightarrow> Inr (publish t cid rs vs s)
      | Undoing final n \<Rightarrow> undo_next t final n s
      | Undo_release final n \<Rightarrow> undo_release t final n s
      | Finished \<Rightarrow> Inr s)"

text \<open>Whether a thread has an access to make.\<close>

definition can_go :: "nat \<Rightarrow> trx_sys \<Rightarrow> bool" where
  "can_go t s \<longleftrightarrow>
     (case tpcs s ! t of
        Picking \<Rightarrow> False
      | Waiting st a \<Rightarrow> cond (trx_of t (mem s)) = Notified
      | Finished \<Rightarrow> False
      | _ \<Rightarrow> True)"

text \<open>The pick of three different records, and \<open>Begin\<close>.\<close>

definition pick_step :: "nat \<Rightarrow> nat \<Rightarrow> nat \<Rightarrow> nat \<Rightarrow> trx_sys \<Rightarrow> trx_sys" where
  "pick_step t i j k s =
     go t (Calling Find_i) (Begin t (mem s))
       (s\<lparr>locs := (locs s)[t := (locs s ! t)\<lparr>rec_i := i, rec_j := j, rec_k := k\<rparr>]\<rparr>)"

definition can_pick :: "nat \<Rightarrow> nat \<Rightarrow> nat \<Rightarrow> nat \<Rightarrow> trx_sys \<Rightarrow> bool" where
  "can_pick t i j k s \<longleftrightarrow>
     tpcs s ! t = Picking \<and> {i, j, k} \<subseteq> {1..record_count (mem s)} \<and> i \<noteq> j \<and> i \<noteq> k \<and> j \<noteq> k"

datatype trx_event = Pick nat nat nat nat | Go nat | Spurious nat

inductive trx_act :: "trx_event \<Rightarrow> trx_sys \<Rightarrow> trx_sys \<Rightarrow> bool" where
  act_pick: "t < n_threads s \<Longrightarrow> can_pick t i j k s \<Longrightarrow> trx_act (Pick t i j k) s (pick_step t i j k s)"
| act_go: "t < n_threads s \<Longrightarrow> can_go t s \<Longrightarrow> trx_access t s = Inr s' \<Longrightarrow> trx_act (Go t) s s'"
| act_spurious: "t < n_threads s \<Longrightarrow> tpcs s ! t = Waiting st a \<Longrightarrow> trx_act (Spurious t) s (wake_up t st a s)"

text \<open>The machine without spurious wake-ups, and the one with them.\<close>

definition trx_step :: "trx_sys \<Rightarrow> trx_sys \<Rightarrow> bool" where
  "trx_step s s' \<longleftrightarrow> (\<exists>e. (\<forall>t. e \<noteq> Spurious t) \<and> trx_act e s s')"

definition trx_step_spurious :: "trx_sys \<Rightarrow> trx_sys \<Rightarrow> bool" where
  "trx_step_spurious s s' \<longleftrightarrow> (\<exists>e. trx_act e s s')"

text \<open>
  A start: some threads and records, fewer than the counters of the loops over them can
  hold, no log files left over, and a last commit id that leaves room for one failed commit
  of each thread below the largest \<open>int\<close>.
\<close>

definition sizes_ok :: "nat \<Rightarrow> nat \<Rightarrow> i32 \<Rightarrow> bool" where
  "sizes_ok n_thr n_rec last_id \<longleftrightarrow>
     0 \<le>s last_id \<and> sint last_id + int n_thr < 2 ^ 31 - 1 \<and> n_rec < 2 ^ 31 - 1"

definition trx_start :: "trx_sys \<Rightarrow> bool" where
  "trx_start s \<longleftrightarrow> (\<exists>n_thr n_rec last_id. sizes_ok n_thr n_rec last_id
     \<and> s = trx_sys_new n_thr n_rec last_id Map.empty)"

abbreviation trx_reach :: "trx_sys \<Rightarrow> bool" where
  "trx_reach \<equiv> reach trx_start trx_step"

text \<open>The same runs as a function, for concrete inputs.\<close>

fun do_trx_event :: "trx_event \<Rightarrow> trx_sys \<Rightarrow> trx_sys option" where
  "do_trx_event (Pick t i j k) s =
     (if t < n_threads s \<and> can_pick t i j k s then Some (pick_step t i j k s) else None)"
| "do_trx_event (Go t) s =
     (if t < n_threads s \<and> can_go t s
      then (case trx_access t s of Inl e \<Rightarrow> None | Inr s' \<Rightarrow> Some s') else None)"
| "do_trx_event (Spurious t) s =
     (if t < n_threads s
      then (case tpcs s ! t of Waiting st a \<Rightarrow> Some (wake_up t st a s) | _ \<Rightarrow> None) else None)"

fun run_trx :: "trx_event list \<Rightarrow> trx_sys \<Rightarrow> trx_sys option" where
  "run_trx [] s = Some s"
| "run_trx (e # es) s = (case do_trx_event e s of None \<Rightarrow> None | Some s' \<Rightarrow> run_trx es s')"

end
