(* ===== verification/TrxInv.thy ===== *)
theory TrxInv
  imports TrxMachine
begin

text \<open>
  The invariant of the locking layer: which locks each thread holds at each point of its
  transaction, that the live locks are exactly those not yet released, that granted locks
  are compatible with the live locks ahead of them (\<open>compatible\<close>), that a sleeping thread
  which was not woken has an unreleased lock ahead of its own (\<open>awaited\<close>), and that the
  graph of who waits behind whom has no cycle. One lemma per kind of step shows it kept.
\<close>

section \<open>The invariant\<close>

fun stage_no :: "stage \<Rightarrow> nat" where
  "stage_no Find_i = 0"
| "stage_no Update_j = 1"
| "stage_no Update_k = 2"

text \<open>The index in a thread's deque of the first lock it has not released.\<close>

fun live_from :: "tpc \<Rightarrow> nat \<Rightarrow> nat" where
  "live_from (Calling st) len = 0"
| "live_from (Waiting st a) len = 0"
| "live_from (Using st a) len = 0"
| "live_from Commit_call len = 0"
| "live_from (Reading_back cid n rs vs) len = n"
| "live_from (Releasing cid n rs vs) len = n"
| "live_from (Undoing f n) len = n"
| "live_from (Undo_release f n) len = n"
| "live_from p len = len"

definition unreleased :: "memory \<Rightarrow> tpc list \<Rightarrow> nat \<Rightarrow> nat list" where
  "unreleased m ps t = drop (live_from (ps ! t) (length (deque t m))) (deque t m)"

fun count_ok :: "tpc \<Rightarrow> nat \<Rightarrow> bool" where
  "count_ok (Calling st) len \<longleftrightarrow> len = stage_no st"
| "count_ok (Waiting st a) len \<longleftrightarrow> len = Suc (stage_no st)"
| "count_ok (Using st a) len \<longleftrightarrow> len = Suc (stage_no st)"
| "count_ok Commit_call len \<longleftrightarrow> len = 3"
| "count_ok (Reading_back cid n rs vs) len \<longleftrightarrow> len = 3 \<and> n < 3"
| "count_ok (Releasing cid n rs vs) len \<longleftrightarrow> len = 3 \<and> n < 3"
| "count_ok (Undoing f n) len \<longleftrightarrow> n < len \<and> len \<le> 3 \<and> (f \<longrightarrow> len = 3)"
| "count_ok (Undo_release f n) len \<longleftrightarrow> n < len \<and> len \<le> 3 \<and> (f \<longrightarrow> len = 3)"
| "count_ok p len \<longleftrightarrow> True"

text \<open>The state of the lock at index \<open>p\<close>; the last one of an aborting transaction was refused.\<close>

fun expected :: "tpc \<Rightarrow> nat \<Rightarrow> nat \<Rightarrow> lock_state" where
  "expected (Waiting st a) len p = (if Suc p = len then WAIT else ACTIVE)"
| "expected (Undoing False n) len p = (if Suc p = len then OBSOLETE else ACTIVE)"
| "expected (Undo_release False n) len p = (if Suc p = len then OBSOLETE else ACTIVE)"
| "expected q len p = ACTIVE"

fun last_lock :: "tpc \<Rightarrow> nat option" where
  "last_lock (Waiting st a) = Some a"
| "last_lock (Using st a) = Some a"
| "last_lock p = None"

fun conflict_of :: "tpc \<Rightarrow> nat option" where
  "conflict_of (Waiting st a) = Some a"
| "conflict_of p = None"

fun cond_of :: "memory \<Rightarrow> tpc \<Rightarrow> cond_var" where
  "cond_of m (Waiting st a) = (if signal_flag (lk m a) then Notified else Sleeping)"
| "cond_of m p = No_waiter"

definition wanted :: "locals \<Rightarrow> (nat \<times> lock_mode) list" where
  "wanted l = [(rec_i l, SHARED), (rec_j l, EXCLUSIVE), (rec_k l, EXCLUSIVE)]"

definition idle_pc :: "tpc \<Rightarrow> bool" where
  "idle_pc p \<longleftrightarrow> p = Picking \<or> p = Finished \<or> (\<exists>cid rs vs. p = Publishing cid rs vs)"

definition records_ok :: "memory \<Rightarrow> locals \<Rightarrow> bool" where
  "records_ok m l \<longleftrightarrow> distinct (map fst (wanted l)) \<and> (\<forall>r \<in> fst ` set (wanted l). lock_table m r \<noteq> None)"

definition slot_fine :: "memory \<Rightarrow> tpc \<Rightarrow> locals \<Rightarrow> nat \<Rightarrow> nat list \<Rightarrow> nat \<Rightarrow> bool" where
  "slot_fine m p l t ds k \<longleftrightarrow>
     ds ! k < length (heap m) \<and> thread_id (lk m (ds ! k)) = t
     \<and> state (lk m (ds ! k)) = expected p (length ds) k
     \<and> (record_id (lk m (ds ! k)), mode (lk m (ds ! k))) = wanted l ! k"

definition node_fine :: "memory \<Rightarrow> tpc \<Rightarrow> locals \<Rightarrow> nat \<Rightarrow> trx_node \<Rightarrow> bool" where
  "node_fine m p l t x \<longleftrightarrow>
     trx_thread_id x = t \<and> conflict_lock x = conflict_of p \<and> cond x = cond_of m p
     \<and> count_ok p (length (trx_lock_deque x))
     \<and> (last_lock p \<noteq> None \<longrightarrow> last_lock p = Some (last (trx_lock_deque x)))
     \<and> (\<not> idle_pc p \<longrightarrow> records_ok m l)
     \<and> (\<forall>k < length (trx_lock_deque x). live_from p (length (trx_lock_deque x)) \<le> k
          \<longrightarrow> slot_fine m p l t (trx_lock_deque x) k)"

definition thread_fine :: "memory \<Rightarrow> tpc \<Rightarrow> locals \<Rightarrow> nat \<Rightarrow> bool" where
  "thread_fine m p l t \<longleftrightarrow>
     (case trx_node_table m t of None \<Rightarrow> p = Picking | Some x \<Rightarrow> node_fine m p l t x)"

lemma node_fine_slot:
  "node_fine m p l t x \<Longrightarrow> live_from p (length (trx_lock_deque x)) \<le> k \<Longrightarrow> k < length (trx_lock_deque x)
    \<Longrightarrow> slot_fine m p l t (trx_lock_deque x) k"
  by (simp add: node_fine_def)

lemma node_fine_records: "node_fine m p l t x \<Longrightarrow> \<not> idle_pc p \<Longrightarrow> records_ok m l"
  and node_fine_thread: "node_fine m p l t x \<Longrightarrow> trx_thread_id x = t"
  by (simp_all add: node_fine_def)

lemma records_ok_cong: "(\<And>r. lock_table m' r = None \<longleftrightarrow> lock_table m r = None) \<Longrightarrow> records_ok m' l \<longleftrightarrow> records_ok m l"
  by (simp add: records_ok_def)

text \<open>The unreleased locks of a thread are different: they are on different records.\<close>

lemma count_ok_le: "count_ok p len \<Longrightarrow> \<not> idle_pc p \<Longrightarrow> len \<le> 3"
proof -
  have "stage_no st \<le> 2" for st by (cases st) simp_all
  then show "count_ok p len \<Longrightarrow> \<not> idle_pc p \<Longrightarrow> len \<le> 3"
    by (cases p) (fastforce simp: idle_pc_def le_Suc_eq numeral_eq_Suc)+
qed

lemma deque_indices_eq:
  assumes "node_fine m p l t x" and "\<not> idle_pc p"
    and "live_from p (length (trx_lock_deque x)) \<le> k" "k < length (trx_lock_deque x)"
    and "live_from p (length (trx_lock_deque x)) \<le> k'" "k' < length (trx_lock_deque x)"
    and "trx_lock_deque x ! k = trx_lock_deque x ! k'"
  shows "k = k'"
proof -
  have fine: "slot_fine m p l t (trx_lock_deque x) k" "slot_fine m p l t (trx_lock_deque x) k'"
    using assms(1,3-6) by (simp_all add: node_fine_def)
  have "length (trx_lock_deque x) \<le> 3" using assms(1,2) count_ok_le by (auto simp: node_fine_def)
  then have le: "k < length (wanted l)" "k' < length (wanted l)" using assms(4,6) by (simp_all add: wanted_def)
  have "wanted l ! k = wanted l ! k'" using fine assms(7) by (simp add: slot_fine_def)
  then have "map fst (wanted l) ! k = map fst (wanted l) ! k'" using le by simp
  moreover have "distinct (map fst (wanted l))" using assms(1,2) by (simp add: node_fine_def records_ok_def)
  ultimately show ?thesis using le nth_eq_iff_index_eq [of "map fst (wanted l)" k k'] by simp
qed

text \<open>A granted lock is compatible with the live lock ahead of it.\<close>

definition granted :: "lock_t \<Rightarrow> bool" where
  "granted l \<longleftrightarrow> state l = ACTIVE \<or> (state l = WAIT \<and> signal_flag l)"

definition compatible :: "lock_t list \<Rightarrow> nat \<Rightarrow> nat \<Rightarrow> bool" where
  "compatible h b c \<longleftrightarrow>
     (state (h ! b) \<noteq> OBSOLETE \<and> granted (h ! c) \<longrightarrow> mode (h ! b) = SHARED \<and> mode (h ! c) = SHARED)"

definition awaited :: "memory \<Rightarrow> tpc list \<Rightarrow> nat list \<Rightarrow> bool" where
  "awaited m ps qs \<longleftrightarrow>
     (\<forall>xs c ys. qs = xs @ c # ys \<and> state (lk m c) = WAIT \<and> \<not> signal_flag (lk m c)
        \<longrightarrow> (\<exists>b \<in> set xs. b \<in> set (unreleased m ps (thread_id (lk m b)))))"

lemma awaitedD:
  "awaited m ps (xs @ c # ys) \<Longrightarrow> state (lk m c) = WAIT \<Longrightarrow> \<not> signal_flag (lk m c)
    \<Longrightarrow> \<exists>b \<in> set xs. b \<in> set (unreleased m ps (thread_id (lk m b)))"
  by (simp add: awaited_def)

lemma awaited_mono:
  assumes "awaited m ps qs"
    and "\<And>c. c \<in> set qs \<Longrightarrow> state (lk m' c) = WAIT \<Longrightarrow> \<not> signal_flag (lk m' c)
      \<Longrightarrow> state (lk m c) = WAIT \<and> \<not> signal_flag (lk m c)"
    and "\<And>b. b \<in> set qs \<Longrightarrow> b \<in> set (unreleased m ps (thread_id (lk m b)))
      \<Longrightarrow> b \<in> set (unreleased m' ps' (thread_id (lk m' b)))"
  shows "awaited m' ps' qs"
  unfolding awaited_def
proof (intro allI impI, elim conjE)
  fix xs c ys assume q: "qs = xs @ c # ys" and c: "state (lk m' c) = WAIT" "\<not> signal_flag (lk m' c)"
  then have "state (lk m c) = WAIT" "\<not> signal_flag (lk m c)" using assms(2) [of c] by auto
  then obtain b where "b \<in> set xs" "b \<in> set (unreleased m ps (thread_id (lk m b)))"
    using awaitedD assms(1) unfolding q by blast
  then show "\<exists>b \<in> set xs. b \<in> set (unreleased m' ps' (thread_id (lk m' b)))"
    using assms(3) [of b] q by auto
qed

lemma waits_behind_mono:
  assumes "\<And>u c. conflict_lock (trx_of u m') = Some c \<Longrightarrow>
      conflict_lock (trx_of u m) = Some c \<and> set (ahead m' Q' c) \<subseteq> set (ahead m Q c)"
    and "\<And>b r. b \<in> set (Q r) \<Longrightarrow> state (lk m' b) \<noteq> OBSOLETE \<Longrightarrow>
      state (lk m b) \<noteq> OBSOLETE \<and> thread_id (lk m' b) = thread_id (lk m b)"
  shows "waits_behind m' Q' \<subseteq> waits_behind m Q"
proof (rule subrelI)
  fix u v assume "(u, v) \<in> waits_behind m' Q'"
  then obtain c b where c: "conflict_lock (trx_of u m') = Some c" "b \<in> set (ahead m' Q' c)"
    "state (lk m' b) \<noteq> OBSOLETE" "thread_id (lk m' b) = v" by (auto simp: waits_behind_iff)
  then have b: "conflict_lock (trx_of u m) = Some c" "b \<in> set (ahead m Q c)" using assms(1) by blast+
  then have "b \<in> set (Q (record_id (lk m c)))" by (auto simp: ahead_def dest: set_takeWhileD)
  then show "(u, v) \<in> waits_behind m Q" using assms(2) b c by (auto simp: waits_behind_iff)
qed

definition lock_inv :: "memory \<Rightarrow> tpc list \<Rightarrow> locals list \<Rightarrow> (nat \<Rightarrow> nat list) \<Rightarrow> bool" where
  "lock_inv m ps ls Q \<longleftrightarrow>
     table_inv m Q \<and> trx_inv m Q
     \<and> (\<forall>a < length (heap m). Q (record_id (lk m a)) \<noteq> [])
     \<and> length ls = length ps \<and> dom (trx_node_table m) \<subseteq> {..<length ps}
     \<and> (\<forall>t < length ps. thread_fine m (ps ! t) (ls ! t) t)
     \<and> (\<forall>a < length (heap m). state (lk m a) \<noteq> OBSOLETE \<longrightarrow> a \<in> set (unreleased m ps (thread_id (lk m a))))
     \<and> (\<forall>r. sorted_wrt (compatible (heap m)) (Q r))
     \<and> (\<forall>r. awaited m ps (Q r))
     \<and> acyclic (waits_behind m Q)"

section \<open>Reading the invariant\<close>

lemma lock_inv_parts:
  assumes "lock_inv m ps ls Q"
  shows "table_inv m Q" "trx_inv m Q" "length ls = length ps" "dom (trx_node_table m) \<subseteq> {..<length ps}"
    "acyclic (waits_behind m Q)"
    "a < length (heap m) \<Longrightarrow> Q (record_id (lk m a)) \<noteq> []"
    "t < length ps \<Longrightarrow> thread_fine m (ps ! t) (ls ! t) t"
    "a < length (heap m) \<Longrightarrow> state (lk m a) \<noteq> OBSOLETE \<Longrightarrow> a \<in> set (unreleased m ps (thread_id (lk m a)))"
    "sorted_wrt (compatible (heap m)) (Q r)" "awaited m ps (Q r)"
  using assms by (auto simp: lock_inv_def)

lemma node_of_thread:
  assumes "lock_inv m ps ls Q" and "t < length ps" and "ps ! t \<noteq> Picking"
  obtains x where "trx_node_table m t = Some x" and "node_fine m (ps ! t) (ls ! t) t x"
    and "trx_of t m = x" and "deque t m = trx_lock_deque x"
proof -
  have "thread_fine m (ps ! t) (ls ! t) t" using assms(1,2) by (simp add: lock_inv_def)
  then show thesis using assms(3) that
    by (auto simp: thread_fine_def deque_def trx_of_def split: option.splits)
qed

lemma owner_in_range:
  assumes "lock_inv m ps ls Q" and "a < length (heap m)"
  shows "thread_id (lk m a) < length ps"
proof -
  have "thread_id (lk m a) \<in> dom (trx_node_table m)"
    using lock_inv_parts(2) [OF assms(1)] assms(2) by (simp add: trx_inv_def)
  then show ?thesis using lock_inv_parts(4) [OF assms(1)] by blast
qed

text \<open>An unreleased lock, found by its owner and index.\<close>

lemma unreleased_index:
  assumes "a \<in> set (unreleased m ps t)"
  obtains k where "live_from (ps ! t) (length (deque t m)) \<le> k" "k < length (deque t m)" "deque t m ! k = a"
proof -
  let ?n = "live_from (ps ! t) (length (deque t m))"
  obtain i where "i < length (deque t m) - ?n" "drop ?n (deque t m) ! i = a"
    using assms by (auto simp: unreleased_def in_set_conv_nth)
  then show thesis using that [of "?n + i"] by simp
qed

lemma unreleased_fine:
  assumes "lock_inv m ps ls Q" and "t < length ps" and "a \<in> set (unreleased m ps t)"
  shows "\<exists>x k. trx_node_table m t = Some x \<and> node_fine m (ps ! t) (ls ! t) t x \<and> k < length (trx_lock_deque x)
    \<and> live_from (ps ! t) (length (trx_lock_deque x)) \<le> k \<and> trx_lock_deque x ! k = a
    \<and> slot_fine m (ps ! t) (ls ! t) t (trx_lock_deque x) k"
proof -
  obtain k where k: "live_from (ps ! t) (length (deque t m)) \<le> k" "k < length (deque t m)" "deque t m ! k = a"
    using assms(3) by (rule unreleased_index)
  have "ps ! t \<noteq> Picking" using k by auto
  from node_of_thread [OF assms(1,2) this] obtain x where
    x: "trx_node_table m t = Some x" "node_fine m (ps ! t) (ls ! t) t x" "deque t m = trx_lock_deque x" by metis
  then show ?thesis using k by (auto simp: node_fine_def)
qed

text \<open>A live lock of a thread that is not waiting is granted; that of a waiting one is its last.\<close>

lemma wait_lock_owner:
  assumes inv: "lock_inv m ps ls Q" and a: "a < length (heap m)" "state (lk m a) = WAIT" and t: "thread_id (lk m a) = t"
  shows "\<exists>st. ps ! t = Waiting st a"
proof -
  have un: "a \<in> set (unreleased m ps t)" using lock_inv_parts(8) [OF inv a(1)] a t by simp
  have lt: "t < length ps" using owner_in_range [OF inv a(1)] t by simp
  obtain x k where x: "node_fine m (ps ! t) (ls ! t) t x" "k < length (trx_lock_deque x)"
    "trx_lock_deque x ! k = a" "slot_fine m (ps ! t) (ls ! t) t (trx_lock_deque x) k"
    using unreleased_fine [OF inv lt un] by blast
  then have "expected (ps ! t) (length (trx_lock_deque x)) k = WAIT" using a by (simp add: slot_fine_def)
  then obtain st b where p: "ps ! t = Waiting st b" "Suc k = length (trx_lock_deque x)"
    by (cases "(ps ! t, length (trx_lock_deque x), k)" rule: expected.cases) (auto split: if_splits)
  moreover have "b = last (trx_lock_deque x)" using x(1) p(1) by (simp add: node_fine_def)
  ultimately have "b = a" using x(3) by (metis diff_Suc_1 last_conv_nth length_greater_0_conv zero_less_Suc)
  then show ?thesis using p(1) by auto
qed

lemma waiting_lock:
  assumes "lock_inv m ps ls Q" and "t < length ps" and "ps ! t = Waiting st a"
  shows "a < length (heap m)" "thread_id (lk m a) = t" "state (lk m a) = WAIT"
proof -
  obtain x where x: "node_fine m (ps ! t) (ls ! t) t x"
    using node_of_thread [OF assms(1,2)] assms(3) by auto
  then have l: "length (trx_lock_deque x) = Suc (stage_no st)" "a = last (trx_lock_deque x)"
    using assms(3) by (auto simp: node_fine_def)
  then have "trx_lock_deque x \<noteq> []" by auto
  then have "a = trx_lock_deque x ! stage_no st" using l by (simp add: last_conv_nth)
  moreover have "slot_fine m (ps ! t) (ls ! t) t (trx_lock_deque x) (stage_no st)"
    using x l assms(3) by (auto simp: node_fine_def)
  ultimately show "a < length (heap m)" "thread_id (lk m a) = t" "state (lk m a) = WAIT"
    using assms(3) l(1) by (auto simp: slot_fine_def)
qed

lemma conflict_waits:
  assumes inv: "lock_inv m ps ls Q" and x: "trx_node_table m t = Some x" "conflict_lock x = Some c"
  shows "c < length (heap m) \<and> state (lk m c) = WAIT \<and> thread_id (lk m c) = t"
proof -
  have t: "t < length ps" using lock_inv_parts(4) [OF inv] x(1) by auto
  have "thread_fine m (ps ! t) (ls ! t) t" using lock_inv_parts(7) [OF inv t] .
  then have "conflict_of (ps ! t) = Some c" using x by (simp add: thread_fine_def node_fine_def)
  then obtain st where "ps ! t = Waiting st c" by (cases "ps ! t" rule: conflict_of.cases) auto
  then show ?thesis using waiting_lock [OF inv t] by auto
qed

section \<open>Steps that leave the locks as they are\<close>

text \<open>Changes of values, of \<open>diff\<close>, of counters: nothing the locking layer looks at.\<close>

definition same_locks :: "memory \<Rightarrow> memory \<Rightarrow> bool" where
  "same_locks m m' \<longleftrightarrow>
     length (heap m') = length (heap m)
     \<and> (\<forall>b < length (heap m). lk m' b = (lk m b)\<lparr>diff := diff (lk m' b)\<rparr>)
     \<and> (\<forall>r. map_option (\<lambda>n. (head n, tail n)) (lock_table m' r) = map_option (\<lambda>n. (head n, tail n)) (lock_table m r))
     \<and> lock_saved_vectors m' = lock_saved_vectors m \<and> trx_node_table m' = trx_node_table m"

lemma same_locks_fields:
  assumes "same_locks m m'" and "b < length (heap m)"
  shows "next_lock (lk m' b) = next_lock (lk m b)" "record_id (lk m' b) = record_id (lk m b)"
    "thread_id (lk m' b) = thread_id (lk m b)" "state (lk m' b) = state (lk m b)" "mode (lk m' b) = mode (lk m b)"
    "signal_flag (lk m' b) = signal_flag (lk m b)" "head_pass_flag (lk m' b) = head_pass_flag (lk m b)"
proof -
  have "lk m' b = (lk m b)\<lparr>diff := diff (lk m' b)\<rparr>" using assms by (simp add: same_locks_def)
  then obtain d where "lk m' b = (lk m b)\<lparr>diff := d\<rparr>" by blast
  then show "next_lock (lk m' b) = next_lock (lk m b)" "record_id (lk m' b) = record_id (lk m b)"
    "thread_id (lk m' b) = thread_id (lk m b)" "state (lk m' b) = state (lk m b)" "mode (lk m' b) = mode (lk m b)"
    "signal_flag (lk m' b) = signal_flag (lk m b)" "head_pass_flag (lk m' b) = head_pass_flag (lk m b)" by simp_all
qed

lemma queued_in_heap: "lock_inv m ps ls Q \<Longrightarrow> b \<in> set (Q r) \<Longrightarrow> b < length (heap m) \<and> record_id (lk m b) = r"
  using queue_of_record by (blast dest: lock_inv_parts(1))

lemma deque_same: "trx_node_table m' = trx_node_table m \<Longrightarrow> deque t m' = deque t m \<and> trx_of t m' = trx_of t m"
  by (simp add: deque_def trx_of_def)

lemma lock_inv_same:
  assumes inv: "lock_inv m ps ls Q" and same: "same_locks m m'"
  shows "lock_inv m' ps ls Q"
proof -
  note f = same_locks_fields [OF same]
  have len: "length (heap m') = length (heap m)" and trx: "trx_node_table m' = trx_node_table m"
    and nodes: "map_option (\<lambda>n. (head n, tail n)) (lock_table m' r) = map_option (\<lambda>n. (head n, tail n)) (lock_table m r)"
    and saved: "lock_saved_vectors m' = lock_saved_vectors m" for r
    using same by (simp_all add: same_locks_def)
  have tab: "lock_table m' r = None \<longleftrightarrow> lock_table m r = None" for r
    using nodes [of r] by (cases "lock_table m r"; cases "lock_table m' r") simp_all
  have tinv: "table_inv m' Q"
    by (rule table_inv_frame [OF lock_inv_parts(1) [OF inv] len nodes saved])
       (use f lock_inv_parts(1) [OF inv] in \<open>auto simp: table_inv_def\<close>)
  have xinv: "trx_inv m' Q"
    by (rule trx_inv_frame [OF lock_inv_parts(2) [OF inv] len]) (simp_all add: f trx)
  have un: "unreleased m' ps t = unreleased m ps t" for t by (simp add: unreleased_def deque_same [OF trx])
  have fine: "thread_fine m' (ps ! t) (ls ! t) t" if t: "t < length ps" for t
  proof (cases "trx_node_table m t")
    case (Some x)
    have ok: "node_fine m (ps ! t) (ls ! t) t x" using lock_inv_parts(7) [OF inv t] Some by (simp add: thread_fine_def)
    have "cond_of m' (ps ! t) = cond_of m (ps ! t)"
      using waiting_lock [OF inv t] by (cases "ps ! t") (auto simp: f)
    moreover have "slot_fine m' (ps ! t) (ls ! t) t ds k \<longleftrightarrow> slot_fine m (ps ! t) (ls ! t) t ds k" for ds k
      by (cases "ds ! k < length (heap m)") (simp_all add: slot_fine_def len f)
    ultimately have "node_fine m' (ps ! t) (ls ! t) t x" using ok by (simp add: node_fine_def records_ok_def tab)
    then show ?thesis using Some by (simp add: thread_fine_def trx)
  qed (use lock_inv_parts(7) [OF inv t] trx in \<open>simp add: thread_fine_def\<close>)
  have compat: "sorted_wrt (compatible (heap m')) (Q r)" for r
  proof (rule sorted_wrt_mono_rel [OF _ lock_inv_parts(9) [OF inv]])
    fix b c assume "b \<in> set (Q r)" "c \<in> set (Q r)" "compatible (heap m) b c"
    then show "compatible (heap m') b c"
      using queued_in_heap [OF inv] by (auto simp: compatible_def granted_def f)
  qed
  have aw: "awaited m' ps (Q r)" for r
    by (rule awaited_mono [OF lock_inv_parts(10) [OF inv]]) (use queued_in_heap [OF inv] f un in auto)
  have "waits_behind m' Q \<subseteq> waits_behind m Q"
  proof (rule subrelI)
    fix u v assume "(u, v) \<in> waits_behind m' Q"
    then obtain c a where c: "conflict_lock (trx_of u m) = Some c" "a \<in> set (ahead m' Q c)"
      "state (lk m' a) \<noteq> OBSOLETE" "thread_id (lk m' a) = v"
      using deque_same [OF trx] by (auto simp: waits_behind_iff)
    then have "c < length (heap m)"
      using lock_inv_parts(2) [OF inv] by (auto simp: trx_inv_def trx_of_def TrxNode_new_def split: option.splits)
    then have a: "a \<in> set (ahead m Q c)" using c(2) by (simp add: ahead_def f)
    then have "a < length (heap m)"
      using queued_in_heap [OF inv] by (auto simp: ahead_def dest: set_takeWhileD)
    then show "(u, v) \<in> waits_behind m Q" using c a by (auto simp: waits_behind_iff f)
  qed
  then have "acyclic (waits_behind m' Q)" using lock_inv_parts(5) [OF inv] by (rule acyclic_subset [rotated])
  then show ?thesis
    using tinv xinv fine compat aw inv by (auto simp: lock_inv_def len trx f un)
qed

text \<open>A move of one thread that keeps the list of its unreleased locks.\<close>

lemma unreleased_upd:
  "t < length ps \<Longrightarrow> live_from p (length (deque t m)) = live_from (ps ! t) (length (deque t m))
    \<Longrightarrow> unreleased m (ps[t := p]) u = unreleased m ps u"
  by (simp add: unreleased_def nth_upd)

lemma lock_inv_move:
  assumes inv: "lock_inv m ps ls Q" and t: "t < length ps" and fine: "thread_fine m p l t"
    and live: "live_from p (length (deque t m)) = live_from (ps ! t) (length (deque t m))"
  shows "lock_inv m (ps[t := p]) (ls[t := l]) Q"
proof -
  note un = unreleased_upd [OF t live]
  show ?thesis
    using inv t fine unfolding lock_inv_def awaited_def un by (auto simp: nth_upd)
qed

end
