(* ===== verification/TrxSteps.thy ===== *)
theory TrxSteps
  imports TrxInv
begin

text \<open>
  The steps of the transaction machine that change locks: \<open>Begin\<close>, \<open>AcquireLock\<close> with its
  three outcomes, the end of a wait, \<open>ReleaseLock\<close>. Each keeps \<open>lock_inv\<close>.
\<close>

section \<open>The other threads\<close>

lemma node_fine_other:
  assumes "node_fine m p l u x"
    and "\<And>a. a < length (heap m) \<Longrightarrow> thread_id (lk m a) = u \<Longrightarrow> a < length (heap m') \<and> thread_id (lk m' a) = u
      \<and> state (lk m' a) = state (lk m a) \<and> record_id (lk m' a) = record_id (lk m a) \<and> mode (lk m' a) = mode (lk m a)"
    and "\<And>r. lock_table m' r = None \<longleftrightarrow> lock_table m r = None"
  shows "node_fine m' p l u (x\<lparr>cond := cond_of m' p\<rparr>)"
  using assms by (auto simp: node_fine_def records_ok_def slot_fine_def)

lemma cond_of_same:
  "(\<And>st a. p = Waiting st a \<Longrightarrow> signal_flag (lk m' a) = signal_flag (lk m a)) \<Longrightarrow> cond_of m' p = cond_of m p"
  by (cases p) auto

section \<open>Begin\<close>

lemma Begin_memory:
  "heap (Begin t m) = heap m" "lock_table (Begin t m) = lock_table m"
  "lock_saved_vectors (Begin t m) = lock_saved_vectors m"
  by (simp_all add: Begin_def GetTrxNode_def)

lemma Begin_node:
  assumes "lock_inv m ps ls Q" and "t < length ps" and "ps ! t = Picking"
  shows "\<exists>y. trx_node_table (Begin t m) = (trx_node_table m)(t \<mapsto> y)
    \<and> trx_thread_id y = t \<and> conflict_lock y = None \<and> cond y = No_waiter \<and> trx_lock_deque y = []
    \<and> (case trx_node_table m t of Some x \<Rightarrow> y = x\<lparr>trx_lock_deque := []\<rparr>
       | None \<Rightarrow> trx_thread_number y = thread_number m)"
proof (cases "trx_node_table m t")
  case None
  then show ?thesis by (auto simp: Begin_def GetTrxNode_def TrxNode_new_def fun_eq_iff)
next
  case (Some x)
  have "node_fine m Picking (ls ! t) t x"
    using lock_inv_parts(7) [OF assms(1,2)] assms(3) Some by (simp add: thread_fine_def)
  then show ?thesis using Some by (auto simp: Begin_def GetTrxNode_def node_fine_def fun_eq_iff)
qed

lemma Begin_keeps:
  assumes inv: "lock_inv m ps ls Q" and t: "t < length ps" "ps ! t = Picking" and l: "records_ok m l"
  shows "lock_inv (Begin t m) (ps[t := Calling Find_i]) (ls[t := l]) Q"
proof -
  let ?m = "Begin t m" and ?ps = "ps[t := Calling Find_i]"
  note mem = Begin_memory [of t m]
  obtain y where y: "trx_node_table ?m = (trx_node_table m)(t \<mapsto> y)" "trx_thread_id y = t"
    "conflict_lock y = None" "cond y = No_waiter" "trx_lock_deque y = []"
    using Begin_node [OF inv t] by blast
  have none: "conflict_lock (trx_of t m) = None"
    using lock_inv_parts(7) [OF inv t(1)] t(2)
    by (auto simp: thread_fine_def node_fine_def trx_of_def TrxNode_new_def split: option.splits)
  have conf: "conflict_lock (trx_of u ?m) = conflict_lock (trx_of u m)" for u
    using y none by (cases "u = t") (simp_all add: trx_of_def)
  have un: "unreleased ?m ?ps u = unreleased m ps u" for u
    using y t by (cases "u = t") (simp_all add: unreleased_def deque_def trx_of_def)
  have tinv: "table_inv ?m Q"
    by (rule table_inv_frame [OF lock_inv_parts(1) [OF inv]])
       (use lock_inv_parts(1) [OF inv] in \<open>simp_all add: mem table_inv_def\<close>)
  have xinv: "trx_inv ?m Q"
    using lock_inv_parts(2) [OF inv] by (auto simp: trx_inv_def mem y split: if_splits)
  have fine: "thread_fine ?m (?ps ! u) (ls[t := l] ! u) u" if u: "u < length ps" for u
  proof (cases "u = t")
    case True
    then show ?thesis using t l lock_inv_parts(3) [OF inv] y
      by (simp add: thread_fine_def node_fine_def records_ok_def mem idle_pc_def)
  next
    case False
    have same: "slot_fine ?m p l' u ds k \<longleftrightarrow> slot_fine m p l' u ds k" "cond_of ?m p = cond_of m p"
      "records_ok ?m l' \<longleftrightarrow> records_ok m l'" for p l' ds k
      by (cases p; simp add: slot_fine_def records_ok_def mem)+
    show ?thesis using False lock_inv_parts(7) [OF inv u]
      by (cases "trx_node_table m u") (simp_all add: thread_fine_def y node_fine_def same)
  qed
  have waits: "waits_behind ?m Q = waits_behind m Q" by (auto simp: waits_behind_iff conf ahead_def mem)
  have "awaited ?m ?ps (Q r)" for r
    using lock_inv_parts(10) [OF inv, of r] unfolding awaited_def un mem .
  then show ?thesis
    using tinv xinv fine inv t waits by (auto simp: lock_inv_def mem un y)
qed

section \<open>The end of a wait\<close>

lemma resume_keeps:
  assumes inv: "lock_inv m ps ls Q" and t: "t < length ps" "ps ! t = Waiting st a"
    and woke: "cond (trx_of t m) = Notified"
  shows "lock_inv (AcquireLock_resume t a m) (ps[t := Using st a]) ls Q"
proof -
  let ?m = "AcquireLock_resume t a m" and ?ps = "ps[t := Using st a]"
  note a = waiting_lock [OF inv t]
  obtain x where x: "trx_node_table m t = Some x" "node_fine m (ps ! t) (ls ! t) t x" "trx_of t m = x"
    "deque t m = trx_lock_deque x" using node_of_thread [OF inv t(1)] t(2) by (metis tpc.distinct(3))
  have sig: "signal_flag (lk m a)" using x(2,3) woke t(2) by (auto simp: node_fine_def split: if_splits)
  have lk: "lk ?m b = (if b = a then (lk m a)\<lparr>state := ACTIVE\<rparr> else lk m b)" for b
    using a(1) by (simp add: AcquireLock_resume_def nth_upd)
  have mem: "length (heap ?m) = length (heap m)" "lock_table ?m = lock_table m"
    "lock_saved_vectors ?m = lock_saved_vectors m"
    by (simp_all add: AcquireLock_resume_def)
  have trx: "trx_node_table ?m = (trx_node_table m)(t \<mapsto> x\<lparr>conflict_lock := None, cond := No_waiter\<rparr>)"
    by (simp add: AcquireLock_resume_def x)
  have un: "unreleased ?m ?ps u = unreleased m ps u" for u
    using t x by (cases "u = t") (simp_all add: unreleased_def deque_def trx_of_def trx)
  have queued: "a \<in> set (Q (record_id (lk m a)))"
    using lock_inv_parts(1) [OF inv] a by (auto simp: table_inv_def)
  have tinv: "table_inv ?m Q"
    by (rule table_inv_frame [OF lock_inv_parts(1) [OF inv]])
       (use lock_inv_parts(1) [OF inv] queued in \<open>auto simp: mem lk table_inv_def\<close>)
  have xinv: "trx_inv ?m Q"
    using lock_inv_parts(2) [OF inv] by (auto simp: trx_inv_def mem lk trx split: if_splits)
  have fine: "thread_fine ?m (?ps ! u) (ls ! u) u" if u: "u < length ps" for u
  proof (cases "u = t")
    case True
    have len: "length (trx_lock_deque x) = Suc (stage_no st)" "a = last (trx_lock_deque x)"
      using x(2) t(2) by (auto simp: node_fine_def)
    have "trx_lock_deque x ! stage_no st = a"
      using len by (cases "trx_lock_deque x" rule: rev_cases) (auto simp: nth_append)
    then have pos: "trx_lock_deque x ! k = a \<longleftrightarrow> k = stage_no st" if "k < length (trx_lock_deque x)" for k
      using deque_indices_eq [OF x(2), of k "stage_no st"] t(2) len that by (auto simp: idle_pc_def)
    have "slot_fine ?m (Using st a) (ls ! t) t (trx_lock_deque x) k" if k: "k < length (trx_lock_deque x)" for k
    proof -
      have "slot_fine m (Waiting st a) (ls ! t) t (trx_lock_deque x) k"
        by (rule node_fine_slot [OF x(2) [unfolded t(2)]]) (use k in simp_all)
      then show ?thesis using pos [OF k] len(1) by (auto simp: slot_fine_def lk mem split: if_splits)
    qed
    moreover have "records_ok ?m (ls ! t) = records_ok m (ls ! t)" by (rule records_ok_cong) (simp add: mem)
    moreover have "records_ok m (ls ! t)" using node_fine_records [OF x(2)] t(2) by (simp add: idle_pc_def)
    moreover have "trx_thread_id x = t" using x(2) by (rule node_fine_thread)
    ultimately have "node_fine ?m (Using st a) (ls ! t) t (x\<lparr>conflict_lock := None, cond := No_waiter\<rparr>)"
      using len by (simp add: node_fine_def)
    then show ?thesis using True t by (simp add: thread_fine_def trx)
  next
    case False
    have "thread_fine m (ps ! u) (ls ! u) u" using lock_inv_parts(7) [OF inv u] .
    moreover have "node_fine ?m (ps ! u) (ls ! u) u y" if "trx_node_table m u = Some y" "node_fine m (ps ! u) (ls ! u) u y" for y
    proof -
      have "cond_of ?m (ps ! u) = cond_of m (ps ! u)" by (rule cond_of_same) (simp add: lk)
      moreover have "node_fine ?m (ps ! u) (ls ! u) u (y\<lparr>cond := cond_of ?m (ps ! u)\<rparr>)"
        by (rule node_fine_other [OF that(2)]) (use a False in \<open>auto simp: lk mem\<close>)
      ultimately show ?thesis using that(2) by (simp add: node_fine_def)
    qed
    ultimately show ?thesis using False by (auto simp: thread_fine_def trx split: option.splits)
  qed
  have live: "b \<in> set (unreleased ?m ?ps (thread_id (lk ?m b)))"
    if "b < length (heap ?m)" "state (lk ?m b) \<noteq> OBSOLETE" for b
    using lock_inv_parts(8) [OF inv, of b] a that unfolding un by (auto simp: lk mem split: if_splits)
  have compat: "sorted_wrt (compatible (heap ?m)) (Q r)" for r
  proof (rule sorted_wrt_mono_rel [OF _ lock_inv_parts(9) [OF inv]])
    fix b c assume "compatible (heap m) b c"
    then show "compatible (heap ?m) b c"
      using sig a(3) by (auto simp: compatible_def granted_def lk)
  qed
  have aw: "awaited ?m ?ps (Q r)" for r
    by (rule awaited_mono [OF lock_inv_parts(10) [OF inv]]) (auto simp: lk un a split: if_splits)
  have rec: "record_id (lk ?m c) = record_id (lk m c)" for c by (simp add: lk)
  have "waits_behind ?m Q \<subseteq> waits_behind m Q"
  proof (rule waits_behind_mono)
    fix u c assume "conflict_lock (trx_of u ?m) = Some c"
    then have "u \<noteq> t" "conflict_lock (trx_of u m) = Some c" by (auto simp: trx_of_def trx split: if_splits)
    then show "conflict_lock (trx_of u m) = Some c \<and> set (ahead ?m Q c) \<subseteq> set (ahead m Q c)"
      by (simp add: ahead_def rec)
  qed (use a(3) in \<open>simp add: lk split: if_splits\<close>)
  then have "acyclic (waits_behind ?m Q)" using lock_inv_parts(5) [OF inv] by (rule acyclic_subset [rotated])
  then show ?thesis
    using tinv xinv fine live compat aw inv t a by (auto simp: lock_inv_def mem trx lk)
qed

section \<open>AcquireLock\<close>

lemma stage_wanted: "wanted l ! stage_no st = (stage_record st l, stage_mode st)"
  by (cases st) (simp_all add: wanted_def)

lemma stage_records:
  "records_ok m l \<Longrightarrow> lock_table m (stage_record st l) \<noteq> None"
  by (cases st) (auto simp: records_ok_def wanted_def)

definition acquire_outcome ::
  "memory \<Rightarrow> (nat \<Rightarrow> nat list) \<Rightarrow> nat \<Rightarrow> stage \<Rightarrow> nat \<Rightarrow> nat \<Rightarrow> lock_state \<Rightarrow> nat option \<Rightarrow> cond_var \<Rightarrow> tpc \<Rightarrow> bool"
where
  "acquire_outcome m Q t st r a S cl cn p \<longleftrightarrow>
     (S = ACTIVE \<and> cl = None \<and> cn = No_waiter \<and> p = Using st a \<and> \<not> must_wait m Q (stage_mode st) r)
     \<or> (S = OBSOLETE \<and> cl = None \<and> cn = No_waiter \<and> p = Undoing False 0)
     \<or> (S = WAIT \<and> cl = Some a \<and> cn = Sleeping \<and> p = Waiting st a
        \<and> must_wait m Q (stage_mode st) r \<and> \<not> closes_cycle m Q t r)"

lemma acyclic_new_waiter:
  assumes "acyclic E" and "\<And>v. (t, v) \<notin> E" and "\<forall>v \<in> V. (v, t) \<notin> E\<^sup>*"
  shows "acyclic (E \<union> {t} \<times> V)"
proof (rule acyclicI, intro allI notI)
  fix x assume "(x, x) \<in> (E \<union> {t} \<times> V)\<^sup>+"
  have path: "(u, w) \<in> E\<^sup>+ \<or> (u, t) \<in> E\<^sup>* \<and> (\<exists>v \<in> V. (v, w) \<in> E\<^sup>*)" if "(u, w) \<in> (E \<union> {t} \<times> V)\<^sup>+" for u w
    using that
  proof (induction rule: trancl_induct)
    case (step y z)
    then show ?case
      by (auto intro: trancl.intros(2) rtrancl.intros(2) dest: trancl_into_rtrancl)
  qed auto
  from path [OF \<open>(x, x) \<in> (E \<union> {t} \<times> V)\<^sup>+\<close>] show False
    using assms(1,3) by (auto simp: acyclic_def dest: rtrancl_trans)
qed

lemma acquire_keeps:
  assumes inv: "lock_inv m ps ls Q" and t: "t < length ps" "ps ! t = Calling st"
    and r: "r = stage_record st (ls ! t)"
    and acq: "acquired_as t (stage_mode st) r m Q a S cl cn m'"
    and out: "acquire_outcome m Q t st r a S cl cn p"
  shows "lock_inv m' (ps[t := p]) ls (Q(r := Q r @ [a]))"
proof -
  let ?Q = "Q(r := Q r @ [a])" and ?ps = "ps[t := p]"
  note ac = acq [unfolded acquired_as_def]
  have new: "a \<notin> set (Q r')" and inh: "a < length (heap m')" and grow: "length (heap m) \<le> length (heap m')" for r'
    using ac by auto
  have others: "b < length (heap m) \<and> core (lk m' b) = core (lk m b)" if "b < length (heap m')" "b \<noteq> a" for b
    using ac that by blast
  have recycled: "a < length (heap m) \<Longrightarrow> state (lk m a) = OBSOLETE \<and> thread_id (lk m a) = t" using ac by blast
  have core_a: "record_id (lk m' a) = r" "mode (lk m' a) = stage_mode st" "thread_id (lk m' a) = t"
    "state (lk m' a) = S" "\<not> signal_flag (lk m' a)" using ac by (auto simp: core_fields)
  have tabs: "table_inv m' ?Q" "trx_inv m' ?Q" using ac by auto
  have none_same: "lock_table m' r' = None \<longleftrightarrow> lock_table m r' = None" for r'
  proof -
    have "values_of m' r' = values_of m r'" using ac by simp
    then show ?thesis by (cases "lock_table m r'"; cases "lock_table m' r'") (simp_all add: values_of_def)
  qed
  obtain x where x: "trx_node_table m t = Some x" "node_fine m (ps ! t) (ls ! t) t x" "trx_of t m = x"
    "deque t m = trx_lock_deque x" using node_of_thread [OF inv t(1)] t(2) by (metis tpc.distinct(1))
  have trx: "trx_node_table m' = (trx_node_table m)
      (t \<mapsto> x\<lparr>trx_lock_deque := trx_lock_deque x @ [a], conflict_lock := cl, cond := cn\<rparr>)"
    using ac x(1) by simp
  have dq: "deque u m' = (if u = t then deque t m @ [a] else deque u m)" for u
    by (simp add: deque_def trx_of_def trx x)
  have p: "live_from p len = 0" "\<not> idle_pc p" for len
    using out by (auto simp: acquire_outcome_def idle_pc_def)
  have un: "unreleased m' ?ps u = (if u = t then deque t m @ [a] else unreleased m ps u)" for u
    using t(1) p(1) by (simp add: unreleased_def dq)
  have un_t: "unreleased m ps t = deque t m" using t(2) by (simp add: unreleased_def)
  have same: "state (lk m' b) = state (lk m b) \<and> thread_id (lk m' b) = thread_id (lk m b)
      \<and> record_id (lk m' b) = record_id (lk m b) \<and> mode (lk m' b) = mode (lk m b)
      \<and> signal_flag (lk m' b) = signal_flag (lk m b)" if "b < length (heap m)" "b \<noteq> a" for b
    using others [of b] that grow by (auto simp: core_eq)
  have queued: "b < length (heap m) \<and> b \<noteq> a" if "b \<in> set (Q r')" for b r'
    using queued_in_heap [OF inv that] new that by auto
  have conf_t: "conflict_lock x = None" "cond x = No_waiter" using x(2) t(2) by (simp_all add: node_fine_def)
  have len_t: "length (trx_lock_deque x) = stage_no st" using x(2) t(2) by (simp add: node_fine_def)
  have in_deque: "trx_lock_deque x ! k < length (heap m) \<and> trx_lock_deque x ! k \<noteq> a"
    if k: "k < length (trx_lock_deque x)" for k
  proof -
    have "slot_fine m (Calling st) (ls ! t) t (trx_lock_deque x) k"
      by (rule node_fine_slot [OF x(2) [unfolded t(2)]]) (use k in simp_all)
    then have "trx_lock_deque x ! k < length (heap m)" "state (lk m (trx_lock_deque x ! k)) = ACTIVE"
      by (simp_all add: slot_fine_def)
    then show ?thesis using recycled by auto
  qed
  have fine_t: "thread_fine m' p (ls ! t) t"
  proof -
    have rec: "records_ok m' (ls ! t)"
      using node_fine_records [OF x(2)] t(2) records_ok_cong [OF none_same] by (simp add: idle_pc_def)
    have slot: "slot_fine m' p (ls ! t) t (trx_lock_deque x @ [a]) k" if k: "k < Suc (stage_no st)" for k
    proof (cases "k = stage_no st")
      case True
      then show ?thesis using out core_a inh len_t r
        by (auto simp: slot_fine_def stage_wanted nth_append acquire_outcome_def)
    next
      case False
      then have k': "k < length (trx_lock_deque x)" using k len_t by simp
      have "slot_fine m (Calling st) (ls ! t) t (trx_lock_deque x) k"
        by (rule node_fine_slot [OF x(2) [unfolded t(2)]]) (use k' in simp_all)
      then show ?thesis using k' in_deque [OF k'] same [of "trx_lock_deque x ! k"] grow out
        by (auto simp: slot_fine_def nth_append acquire_outcome_def)
    qed
    have "stage_no st < 3" by (cases st) simp_all
    then have "node_fine m' p (ls ! t) t (x\<lparr>trx_lock_deque := trx_lock_deque x @ [a], conflict_lock := cl, cond := cn\<rparr>)"
      using slot rec out core_a(5) len_t node_fine_thread [OF x(2)]
      by (auto simp: node_fine_def acquire_outcome_def p)
    then show ?thesis by (simp add: thread_fine_def trx)
  qed
  have fine: "thread_fine m' (?ps ! u) (ls ! u) u" if u: "u < length ps" for u
  proof (cases "u = t")
    case False
    have "thread_fine m (ps ! u) (ls ! u) u" using lock_inv_parts(7) [OF inv u] .
    moreover have "node_fine m' (ps ! u) (ls ! u) u y" if y: "node_fine m (ps ! u) (ls ! u) u y" for y
    proof -
      have "cond_of m' (ps ! u) = cond_of m (ps ! u)"
      proof (rule cond_of_same)
        fix st' c assume "ps ! u = Waiting st' c"
        from waiting_lock [OF inv u this] have "c < length (heap m)" "c \<noteq> a" using recycled by auto
        then show "signal_flag (lk m' c) = signal_flag (lk m c)" using same by blast
      qed
      moreover have "node_fine m' (ps ! u) (ls ! u) u (y\<lparr>cond := cond_of m' (ps ! u)\<rparr>)"
        by (rule node_fine_other [OF y _ none_same]) (use same recycled False grow in fastforce)
      ultimately show ?thesis using y by (simp add: node_fine_def)
    qed
    ultimately show ?thesis using False by (auto simp: thread_fine_def trx split: option.splits)
  qed (use fine_t t(1) in simp)
  have live: "b \<in> set (unreleased m' ?ps (thread_id (lk m' b)))"
    if b: "b < length (heap m')" "state (lk m' b) \<noteq> OBSOLETE" for b
  proof (cases "b = a")
    case True
    then show ?thesis by (simp add: un core_a)
  next
    case False
    then have "b \<in> set (unreleased m ps (thread_id (lk m b)))"
      using lock_inv_parts(8) [OF inv, of b] others [OF b(1)] b(2) by (simp add: core_eq)
    then show ?thesis using others [OF b(1) False] un_t by (auto simp: un core_eq)
  qed
  have compat: "sorted_wrt (compatible (heap m')) (?Q r')" for r'
  proof -
    have old: "sorted_wrt (compatible (heap m')) (Q r')" for r'
    proof (rule sorted_wrt_mono_rel [OF _ lock_inv_parts(9) [OF inv]])
      fix b c assume bc: "b \<in> set (Q r')" "c \<in> set (Q r')" "compatible (heap m) b c"
      then show "compatible (heap m') b c"
        using same [of b] same [of c] queued [OF bc(1)] queued [OF bc(2)] by (simp add: compatible_def granted_def)
    qed
    have "compatible (heap m') b a" if b: "b \<in> set (Q r)" for b
    proof -
      have "state (lk m' b) = state (lk m b) \<and> mode (lk m' b) = mode (lk m b)" using same [of b] queued [OF b] by simp
      moreover have "\<not> must_wait m Q (stage_mode st) r \<Longrightarrow> state (lk m b) \<noteq> OBSOLETE \<Longrightarrow>
          mode (lk m b) = SHARED \<and> stage_mode st = SHARED"
        using b by (auto simp: must_wait_def intro: lock_mode.exhaust)
      ultimately show ?thesis using out core_a by (auto simp: compatible_def granted_def acquire_outcome_def)
    qed
    then show ?thesis using old by (simp add: sorted_wrt_append)
  qed
  have aw: "awaited m' ?ps (?Q r')" for r'
  proof -
    have keep: "b \<in> set (unreleased m' ?ps (thread_id (lk m' b)))"
      if "b < length (heap m)" "b \<noteq> a" "b \<in> set (unreleased m ps (thread_id (lk m b)))" for b
      using that same [of b] un_t by (auto simp: un)
    have old: "awaited m' ?ps (Q r')" for r'
      by (rule awaited_mono [OF lock_inv_parts(10) [OF inv]]) (use same queued keep in metis)+
    have "awaited m' ?ps (Q r @ [a])"
      unfolding awaited_def
    proof (intro allI impI, elim conjE)
      fix xs c ys assume q: "Q r @ [a] = xs @ c # ys" and c: "state (lk m' c) = WAIT" "\<not> signal_flag (lk m' c)"
      show "\<exists>b \<in> set xs. b \<in> set (unreleased m' ?ps (thread_id (lk m' b)))"
      proof (cases ys rule: rev_cases)
        case Nil
        then have xs: "c = a" "xs = Q r" using q by auto
        then have "must_wait m Q (stage_mode st) r" using c(1) core_a(4) out by (auto simp: acquire_outcome_def)
        then obtain b where b: "b \<in> set (Q r)" "state (lk m b) \<noteq> OBSOLETE" by (auto simp: must_wait_def)
        then have "b \<in> set (unreleased m ps (thread_id (lk m b)))"
          using lock_inv_parts(8) [OF inv] queued by blast
        then show ?thesis using keep queued b(1) xs(2) by blast
      next
        case (snoc ys' d)
        then have "Q r = xs @ c # ys'" using q by simp
        then show ?thesis using awaitedD [OF _ c] old [of r] by simp
      qed
    qed
    then show ?thesis using old by simp
  qed
  have waits: "waits_behind m' ?Q = waits_behind m Q \<union> (if cl = None then {} else {t} \<times> live_owners m (Q r))"
  proof (rule waits_after_append [OF lock_inv_parts(2) [OF inv] new core_a(1)])
    show "conflict_lock (trx_of u m') = (if u = t then cl else conflict_lock (trx_of u m))" for u
      by (simp add: trx_of_def trx)
    show "cl = None \<or> cl = Some a" using out by (auto simp: acquire_outcome_def)
  qed (use same queued conf_t x(3) in auto)
  have acyc: "acyclic (waits_behind m' ?Q)"
  proof (cases "cl = None")
    case True
    then show ?thesis using waits lock_inv_parts(5) [OF inv] by simp
  next
    case False
    then have "\<not> closes_cycle m Q t r" using out by (auto simp: acquire_outcome_def)
    then have "\<forall>v \<in> live_owners m (Q r). (v, t) \<notin> (waits_behind m Q)\<^sup>*"
      by (auto simp: closes_cycle_def live_owners_def)
    moreover have "(t, v) \<notin> waits_behind m Q" for v using conf_t(1) x(3) by (simp add: waits_behind_iff)
    ultimately show ?thesis using waits False lock_inv_parts(5) [OF inv] by (simp add: acyclic_new_waiter)
  qed
  have nonempty: "?Q (record_id (lk m' b)) \<noteq> []" if "b < length (heap m')" for b
    using others [OF that] lock_inv_parts(6) [OF inv, of b] core_a by (cases "b = a") (auto simp: core_eq)
  show ?thesis
    using tabs fine live compat aw acyc nonempty inv t by (auto simp: lock_inv_def trx)
qed

section \<open>ReleaseLock\<close>

text \<open>The woken locks are the live locks up to the first exclusive one.\<close>

lemma readers_run_prefix:
  "bs = xs @ w # ys \<Longrightarrow> distinct bs \<Longrightarrow> w \<in> set (readers_run h bs) \<Longrightarrow> b \<in> set xs \<Longrightarrow>
    state (h ! b) \<noteq> OBSOLETE \<Longrightarrow> mode (h ! b) = SHARED"
proof (induction bs arbitrary: xs)
  case (Cons c bs)
  obtain xs' where xs: "xs = c # xs'" using Cons.prems(1,4) by (cases xs) auto
  then have bs: "bs = xs' @ w # ys" using Cons.prems(1) by simp
  then have wc: "w \<noteq> c" using Cons.prems(2) by auto
  have run: "w \<in> set (readers_run h bs)" using Cons.prems(3) wc by (auto split: if_splits)
  show ?case
  proof (cases "b = c")
    case True
    then show ?thesis using Cons.prems(3,5) by (auto split: if_splits intro: lock_mode.exhaust)
  next
    case False
    then show ?thesis using Cons.IH [OF bs _ run] Cons.prems(2,4,5) xs by auto
  qed
qed simp

lemma wake_list_prefix:
  assumes "live h qs = xs @ w # ys" and "distinct qs" and "w \<in> set (wake_list h qs)" and "b \<in> set xs"
    and "state (h ! b) \<noteq> OBSOLETE"
  shows "mode (h ! b) = SHARED \<and> mode (h ! w) = SHARED"
proof -
  obtain f bs where l: "live h qs = f # bs" using assms(1) by (cases xs) auto
  obtain xs' where xs: "xs = f # xs'" "bs = xs' @ w # ys" using assms(1,4) l by (cases xs) auto
  have d: "distinct (f # bs)" using assms(2) l by (metis distinct_dropWhile live_def)
  then have "w \<noteq> f" using xs by auto
  then have run: "mode (h ! f) = SHARED" "w \<in> set (readers_run h bs)"
    using assms(3) l by (auto simp: wake_list_def split: if_splits)
  have "mode (h ! b) = SHARED"
    using readers_run_prefix [OF xs(2) _ run(2) _ assms(5)] d run(1) assms(4) xs(1) by auto
  then show ?thesis using readers_run_live [OF run(2)] by simp
qed

lemma takeWhile_suffix:
  "distinct (ps @ qs) \<Longrightarrow> c \<in> set qs \<Longrightarrow> set (takeWhile (\<lambda>a. a \<noteq> c) qs) \<subseteq> set (takeWhile (\<lambda>a. a \<noteq> c) (ps @ qs))"
proof -
  assume "distinct (ps @ qs)" "c \<in> set qs"
  then have "c \<notin> set ps" by auto
  then show ?thesis by (subst takeWhile_append2) auto
qed

lemma live_split: "\<exists>ps. qs = ps @ live h qs \<and> (\<forall>b \<in> set ps. state (h ! b) = OBSOLETE)"
  unfolding live_def
  by (rule exI [of _ "takeWhile (\<lambda>b. state (h ! b) = OBSOLETE) qs"]) (auto dest: set_takeWhileD)

lemma settle_split: "qs \<noteq> [] \<Longrightarrow> \<exists>ps. qs = ps @ settle qs (live h qs)"
proof (cases "live h qs")
  case Nil
  assume "qs \<noteq> []"
  then show ?thesis using Nil by (intro exI [of _ "butlast qs"]) (simp add: settle_def)
next
  case (Cons f bs)
  then show ?thesis using live_split [of qs h] by (auto simp: settle_def)
qed

lemma release_keeps:
  assumes inv: "lock_inv m ps ls Q" and t: "t < length ps" "\<not> idle_pc (ps ! t)" "conflict_of (ps ! t) = None"
    and n: "live_from (ps ! t) (length (deque t m)) = n" "n < length (deque t m)"
    and a: "a = deque t m ! n" and rel: "released_as a m Q Q' m'"
    and p: "live_from p (length (deque t m)) = Suc n" "count_ok p (length (deque t m))"
      "last_lock p = None" "\<And>k. Suc n \<le> k \<Longrightarrow> k < length (deque t m) \<Longrightarrow> expected p (length (deque t m)) k = expected (ps ! t) (length (deque t m)) k"
  shows "lock_inv m' (ps[t := p]) ls Q'"
proof -
  let ?ps = "ps[t := p]"
  have pick: "ps ! t \<noteq> Picking" using t(2) by (auto simp: idle_pc_def)
  obtain x where x: "trx_node_table m t = Some x" "node_fine m (ps ! t) (ls ! t) t x" "trx_of t m = x"
    "deque t m = trx_lock_deque x" using node_of_thread [OF inv t(1) pick] by metis
  have slot: "slot_fine m (ps ! t) (ls ! t) t (deque t m) k" if "n \<le> k" "k < length (deque t m)" for k
    using node_fine_slot [OF x(2)] that n x(4) by simp
  have a_ok: "a < length (heap m)" "thread_id (lk m a) = t"
    using slot [of n] n(2) a by (auto simp: slot_fine_def)
  have no_wait: "\<nexists>st b. ps ! t = Waiting st b" using t(3) by auto
  have p_wait: "conflict_of p = None" "cond_of m'' p = No_waiter" for m'' using p(3) by (cases p; simp)+
  define r where "r = record_id (lk m a)"
  define h where "h = heap_released a m"
  define ws where "ws = wake_list h (Q r)"
  note rl = rel [unfolded released_as_def Let_def, folded r_def h_def, folded ws_def]
  have Q': "Q' = Q(r := settle (Q r) (live h (Q r)))" and len: "length (heap m') = length (heap m)"
    and tabs: "table_inv m' Q'" "trx_inv m' Q'"
    and corem: "\<And>b. b < length (heap m) \<Longrightarrow> core (lk m' b) = core ((h ! b)\<lparr>signal_flag := signal_flag (h ! b) \<or> b \<in> set ws\<rparr>)"
    and trx: "\<And>u. trx_node_table m' u = map_option
         (\<lambda>x. x\<lparr>cond := (if \<exists>b \<in> set ws. thread_id (lk m b) = u \<and> state (lk m b) = WAIT
                        then notify_one (cond x) else cond x)\<rparr>) (trx_node_table m u)"
    using rl by auto
  have hb: "h ! b = (if b = a then (lk m b)\<lparr>state := OBSOLETE\<rparr> else lk m b)" for b
    using a_ok by (simp add: h_def heap_released_def nth_upd)
  have lk': "state (lk m' b) = (if b = a then OBSOLETE else state (lk m b))" "thread_id (lk m' b) = thread_id (lk m b)"
    "record_id (lk m' b) = record_id (lk m b)" "mode (lk m' b) = mode (lk m b)"
    "signal_flag (lk m' b) \<longleftrightarrow> signal_flag (lk m b) \<or> b \<in> set ws" if "b < length (heap m)" for b
    using corem [OF that] by (auto simp: core_eq hb)
  have sth: "state (lk m' b) = state (h ! b)" if "b < length (heap m)" for b using lk'(1) [OF that] by (simp add: hb)
  have Qr: "Q r \<noteq> []" using lock_inv_parts(6) [OF inv a_ok(1)] by (simp add: r_def)
  obtain pre where "Q r = pre @ settle (Q r) (live h (Q r))" using settle_split [OF Qr] by blast
  then have pre: "Q r = pre @ Q' r" unfolding Q' fun_upd_same .
  have other: "Q' r' = Q r'" if "r' \<noteq> r" for r' using that by (simp add: Q')
  have "set (Q' r) \<subseteq> set (Q r)" by (subst pre) simp
  then have sub: "b \<in> set (Q r')" if "b \<in> set (Q' r')" for b r' using that other by (cases "r' = r") auto
  have queued: "b < length (heap m) \<and> record_id (lk m b) = r'" if "b \<in> set (Q r')" for b r'
    using queued_in_heap [OF inv that] .
  have a_not: "a \<notin> set (Q r')" if "r' \<noteq> r" for r' using queued [of a r'] that by (auto simp: r_def)
  have distinct: "distinct (Q r)"
  proof (cases "lock_table m r")
    case None
    then show ?thesis using lock_inv_parts(1) [OF inv] by (simp add: table_inv_def)
  qed (use lock_inv_parts(1) [OF inv] in \<open>auto simp: table_inv_def queue_ok_def\<close>)
  have none_same: "lock_table m' r' = None \<longleftrightarrow> lock_table m r' = None" for r'
  proof -
    have "values_of m' r' = values_of m r'" using rl by simp
    then show ?thesis by (cases "lock_table m r'"; cases "lock_table m' r'") (simp_all add: values_of_def)
  qed
  have dq: "deque u m' = deque u m" for u by (simp add: deque_def trx_of_def trx split: option.splits)
  have un: "unreleased m' ?ps u = (if u = t then drop (Suc n) (deque t m) else unreleased m ps u)" for u
    using t(1) p(1) by (simp add: unreleased_def dq)
  have un_t: "unreleased m ps t = a # drop (Suc n) (deque t m)"
    using n a by (simp add: unreleased_def Cons_nth_drop_Suc)
  have keep: "b \<in> set (unreleased m' ?ps (thread_id (lk m' b)))"
    if "b < length (heap m)" "b \<noteq> a" "b \<in> set (unreleased m ps (thread_id (lk m b)))" for b
    using that un_t by (auto simp: un lk')
  have waiting_woken: "(\<exists>b \<in> set ws. thread_id (lk m b) = u \<and> state (lk m b) = WAIT)
      \<longleftrightarrow> (\<exists>st c. ps ! u = Waiting st c \<and> c \<in> set ws)" if u: "u < length ps" for u
  proof
    assume "\<exists>b \<in> set ws. thread_id (lk m b) = u \<and> state (lk m b) = WAIT"
    then obtain b where b: "b \<in> set ws" "thread_id (lk m b) = u" "state (lk m b) = WAIT" by blast
    have "b < length (heap m)" using b(1) wake_list_subset [of h "Q r"] queued [of b r] by (auto simp: ws_def)
    then show "\<exists>st c. ps ! u = Waiting st c \<and> c \<in> set ws" using wait_lock_owner [OF inv _ b(3,2)] b(1) by blast
  next
    assume "\<exists>st c. ps ! u = Waiting st c \<and> c \<in> set ws"
    then show "\<exists>b \<in> set ws. thread_id (lk m b) = u \<and> state (lk m b) = WAIT" using waiting_lock [OF inv u] by blast
  qed
  have fine: "thread_fine m' (?ps ! u) (ls ! u) u" if u: "u < length ps" for u
  proof (cases "u = t")
    case True
    have cn: "trx_node_table m' t = Some (x\<lparr>cond := No_waiter\<rparr>)"
    proof -
      have "cond x = No_waiter" using x(2) no_wait by (cases "ps ! t") (auto simp: node_fine_def)
      moreover have no: "\<not> (\<exists>b \<in> set ws. thread_id (lk m b) = t \<and> state (lk m b) = WAIT)"
        using waiting_woken [OF t(1)] no_wait by blast
      ultimately show ?thesis unfolding trx x(1) option.map if_not_P [OF no] by simp
    qed
    have "slot_fine m' p (ls ! t) t (deque t m) k" if k: "Suc n \<le> k" "k < length (deque t m)" for k
    proof -
      have s: "slot_fine m (ps ! t) (ls ! t) t (deque t m) k" using slot k by simp
      have "deque t m ! k \<noteq> a"
        using deque_indices_eq [OF x(2) t(2), of k n] k n a x(4) by auto
      then show ?thesis using s p(4) [OF k] lk' len by (auto simp: slot_fine_def)
    qed
    moreover have "records_ok m' (ls ! t)"
      using node_fine_records [OF x(2) t(2)] records_ok_cong [OF none_same] by simp
    ultimately have "node_fine m' p (ls ! t) t (x\<lparr>cond := No_waiter\<rparr>)"
      using p p_wait x(2) t(3) x(4) by (simp add: node_fine_def)
    then show ?thesis using True t(1) cn by (simp add: thread_fine_def)
  next
    case False
    have tf: "thread_fine m (ps ! u) (ls ! u) u" using lock_inv_parts(7) [OF inv u] .
    have nf: "node_fine m' (ps ! u) (ls ! u) u (y\<lparr>cond := (if \<exists>b \<in> set ws. thread_id (lk m b) = u \<and> state (lk m b) = WAIT
                        then notify_one (cond y) else cond y)\<rparr>)"
      if y: "node_fine m (ps ! u) (ls ! u) u y" for y
    proof -
      have "node_fine m' (ps ! u) (ls ! u) u (y\<lparr>cond := cond_of m' (ps ! u)\<rparr>)"
        by (rule node_fine_other [OF y _ none_same]) (use lk' a_ok False len in auto)
      moreover have "cond_of m' (ps ! u) = (if \<exists>st c. ps ! u = Waiting st c \<and> c \<in> set ws
                        then notify_one (cond_of m (ps ! u)) else cond_of m (ps ! u))"
        using waiting_lock(1) [OF inv u] lk'(5) by (cases "ps ! u") (auto simp: notify_one_def)
      moreover have "cond y = cond_of m (ps ! u)" using y by (simp add: node_fine_def)
      ultimately show ?thesis by (simp only: waiting_woken [OF u])
    qed
    have pu: "ps[t := p] ! u = ps ! u" using False by simp
    show ?thesis
    proof (cases "trx_node_table m u")
      case None
      then show ?thesis using tf pu by (simp add: thread_fine_def trx)
    next
      case (Some y)
      then have "node_fine m (ps ! u) (ls ! u) u y" using tf by (simp add: thread_fine_def)
      from nf [OF this] show ?thesis unfolding thread_fine_def trx Some pu option.map option.case .
    qed
  qed
  have live: "b \<in> set (unreleased m' ?ps (thread_id (lk m' b)))"
    if b: "b < length (heap m')" "state (lk m' b) \<noteq> OBSOLETE" for b
  proof -
    have b': "b < length (heap m)" using b(1) len by simp
    then have "b \<noteq> a" "state (lk m b) \<noteq> OBSOLETE" using b(2) lk'(1) by (auto split: if_splits)
    then show ?thesis using keep [OF b'] lock_inv_parts(8) [OF inv b'] by blast
  qed
  have compat: "sorted_wrt (compatible (heap m')) (Q' r')" for r'
  proof (cases "r' = r")
    case False
    have "b \<notin> set ws" if "b \<in> set (Q r')" for b
      using that wake_list_subset [of h "Q r"] queued [of b r] queued [OF that] False by (auto simp: ws_def)
    then have "sorted_wrt (compatible (heap m')) (Q r')"
      using a_not [OF False]
      by (intro sorted_wrt_mono_rel [OF _ lock_inv_parts(9) [OF inv]])
         (use queued in \<open>auto simp: compatible_def granted_def lk'\<close>)
    then show ?thesis using other [OF False] by simp
  next
    case True
    have "sorted_wrt (compatible (heap m)) (pre @ Q' r)" using lock_inv_parts(9) [OF inv, of r] pre by simp
    then have old: "sorted_wrt (compatible (heap m)) (Q' r)" by (simp add: sorted_wrt_append)
    have "compatible (heap m') (Q' r ! i) (Q' r ! j)" if ij: "i < j" "j < length (Q' r)" for i j
    proof -
      let ?b = "Q' r ! i" and ?w = "Q' r ! j"
      have bw: "?b < length (heap m)" "?w < length (heap m)"
        using queued [OF sub [of _ r]] ij nth_mem [of i "Q' r"] nth_mem [of j "Q' r"] by auto
      have prev: "compatible (heap m) ?b ?w" using old ij by (simp add: sorted_wrt_iff_nth_less)
      show ?thesis
      proof (cases "?w \<in> set ws \<and> state (lk m' ?b) \<noteq> OBSOLETE")
        case False
        then show ?thesis using prev bw by (auto simp: compatible_def granted_def lk')
      next
        case w: True
        have "Q' r = live h (Q r)"
        proof -
          have "live h (Q r) \<noteq> []" using w by (auto simp: ws_def wake_list_def split: if_splits list.splits)
          then show ?thesis by (simp add: Q' settle_def)
        qed
        then have "live h (Q r) = take j (Q' r) @ ?w # drop (Suc j) (Q' r)"
          using ij(2) by (simp add: id_take_nth_drop)
        moreover have "?b \<in> set (take j (Q' r))" using ij by (auto simp: in_set_conv_nth intro!: exI [of _ i])
        moreover have "state (h ! ?b) \<noteq> OBSOLETE" using w sth [OF bw(1)] by simp
        ultimately have "mode (h ! ?b) = SHARED \<and> mode (h ! ?w) = SHARED"
          using wake_list_prefix [OF _ distinct] w by (auto simp: ws_def)
        then show ?thesis using bw lk'(4) by (auto simp: compatible_def hb split: if_splits)
      qed
    qed
    then have "sorted_wrt (compatible (heap m')) (Q' r)" by (simp add: sorted_wrt_iff_nth_less)
    then show ?thesis using True by simp
  qed
  have aw: "awaited m' ?ps (Q' r')" for r'
  proof (cases "r' = r")
    case False
    have "awaited m' ?ps (Q r')"
    proof (rule awaited_mono [OF lock_inv_parts(10) [OF inv, of r']])
      fix c assume c: "c \<in> set (Q r')" "state (lk m' c) = WAIT" "\<not> signal_flag (lk m' c)"
      then show "state (lk m c) = WAIT \<and> \<not> signal_flag (lk m c)" using queued [OF c(1)] lk' by (auto split: if_splits)
    next
      fix b assume "b \<in> set (Q r')" "b \<in> set (unreleased m ps (thread_id (lk m b)))"
      then show "b \<in> set (unreleased m' ?ps (thread_id (lk m' b)))"
        using keep [of b] queued [of b r'] a_not [OF False] by metis
    qed
    then show ?thesis using other [OF False] by simp
  next
    case True
    have "awaited m' ?ps (Q' r)"
      unfolding awaited_def
    proof (intro allI impI, elim conjE)
      fix xs c ys assume q: "Q' r = xs @ c # ys" and c: "state (lk m' c) = WAIT" "\<not> signal_flag (lk m' c)"
      have cQ: "c \<in> set (Q' r)" by (simp add: q)
      then have cb: "c < length (heap m)" using queued sub by blast
      have c': "state (lk m c) = WAIT" "\<not> signal_flag (lk m c)" "c \<notin> set ws" "c \<noteq> a"
        using c lk'(1,5) [OF cb] by (auto split: if_splits)
      have qr: "Q r = (pre @ xs) @ c # ys" using pre q by simp
      show "\<exists>b \<in> set xs. b \<in> set (unreleased m' ?ps (thread_id (lk m' b)))"
      proof (rule ccontr)
        assume none: "\<not> ?thesis"
        have obs: "state (h ! b) = OBSOLETE" if "b \<in> set xs" for b
        proof (rule ccontr)
          assume s: "state (h ! b) \<noteq> OBSOLETE"
          have bb: "b < length (heap m)" using that queued [OF sub, of b r] by (simp add: q)
          have "b \<noteq> a" "state (lk m b) \<noteq> OBSOLETE" using s by (auto simp: hb split: if_splits)
          then show False using keep [OF bb] lock_inv_parts(8) [OF inv bb] none that by blast
        qed
        have hc: "state (h ! c) \<noteq> OBSOLETE" using c' by (simp add: hb)
        then have lv: "live h (Q r) \<noteq> []" using live_keeps [of c "Q r" h] qr by auto
        then have Q'l: "Q' r = live h (Q r)" by (simp add: Q' settle_def)
        then obtain f bs where fb: "live h (Q r) = f # bs" using lv by (cases "live h (Q r)") auto
        have "state (h ! f) \<noteq> OBSOLETE" using fb by (rule live_head)
        then have xs: "xs = []" "f = c" using q Q'l fb obs by (cases xs; auto)+
        show False
        proof (cases "state (h ! hd (Q r)) = OBSOLETE")
          case True
          then have "c \<in> set ws" using fb xs by (simp add: ws_def wake_list_def)
          then show False using c'(3) by blast
        next
          case False
          then have "live h (Q r) = Q r" using Qr by (cases "Q r") (simp_all add: live_def)
          then have "Q' r = Q r" using Q'l by simp
          then have "pre = []" using pre by (metis append_self_conv2)
          then have "awaited m ps ([] @ c # ys)" using lock_inv_parts(10) [OF inv, of r] qr xs by simp
          from awaitedD [OF this c'(1,2)] show False by simp
        qed
      qed
    qed
    then show ?thesis using True by simp
  qed
  have "waits_behind m' Q' \<subseteq> waits_behind m Q"
  proof (rule waits_behind_mono)
    fix u c assume "conflict_lock (trx_of u m') = Some c"
    then obtain y' where y': "trx_node_table m' u = Some y'" "conflict_lock y' = Some c"
      by (auto simp: trx_of_def TrxNode_new_def split: option.splits)
    then obtain y where y: "trx_node_table m u = Some y" "conflict_lock y = Some c" by (auto simp: trx)
    have c: "c < length (heap m)" using conflict_waits [OF inv y] by simp
    have "c \<in> set (Q' (record_id (lk m' c)))" using tabs(2) y' by (simp add: trx_inv_def)
    then have c2: "c \<in> set (Q' (record_id (lk m c)))" using lk'(3) [OF c] by simp
    have "set (takeWhile (\<lambda>b. b \<noteq> c) (Q' (record_id (lk m c)))) \<subseteq> set (takeWhile (\<lambda>b. b \<noteq> c) (Q (record_id (lk m c))))"
    proof (cases "record_id (lk m c) = r")
      case True
      have "distinct (pre @ Q' r)" "c \<in> set (Q' r)" using distinct pre c2 True by simp_all
      from takeWhile_suffix [OF this] show ?thesis unfolding True pre [symmetric] .
    qed (simp add: other)
    then show "conflict_lock (trx_of u m) = Some c \<and> set (ahead m' Q' c) \<subseteq> set (ahead m Q c)"
      using y lk'(3) [OF c] by (simp add: trx_of_def ahead_def)
  qed (use queued lk' in \<open>auto split: if_splits\<close>)
  then have acyc: "acyclic (waits_behind m' Q')" using lock_inv_parts(5) [OF inv] by (rule acyclic_subset [rotated])
  have nonempty: "Q' (record_id (lk m' b)) \<noteq> []" if "b < length (heap m')" for b
    using that lock_inv_parts(6) [OF inv, of b] lk'(3) [of b] len
    by (auto simp: Q' settle_def)
  have dom: "dom (trx_node_table m') = dom (trx_node_table m)" by (auto simp: trx)
  show ?thesis
    using tabs fine live compat aw acyc nonempty inv by (simp add: lock_inv_def dom)
qed

end
