(* ===== verification/TrxLocks.thy ===== *)
theory TrxLocks
  imports TrxSteps
begin

text \<open>
  The locking layer of the whole machine: no access fails, and every one keeps the locking
  invariant. For each program point one lemma gives the successor state, which the layers
  above build on.
\<close>

section \<open>The invariant of the machine\<close>

definition locking :: "trx_sys \<Rightarrow> (nat \<Rightarrow> nat list) \<Rightarrow> bool" where
  "locking s Q \<longleftrightarrow> lock_inv (mem s) (tpcs s) (locs s) Q
     \<and> (\<forall>r \<in> {1..record_count (mem s)}. lock_table (mem s) r \<noteq> None)"

lemma go_fields [simp]:
  "mem (go t p m s) = m" "tpcs (go t p m s) = (tpcs s)[t := p]" "locs (go t p m s) = locs s"
  "files (go t p m s) = files s" "committed (go t p m s) = committed s" "writers (go t p m s) = writers s"
  by (simp_all add: go_def)

lemma locking_lock_inv: "locking s Q \<Longrightarrow> lock_inv (mem s) (tpcs s) (locs s) Q"
  by (simp add: locking_def)

text \<open>The node, the deque and the lock at an index of a thread that is inside a transaction.\<close>

lemma thread_node:
  assumes "locking s Q" and "t < n_threads s" and "tpcs s ! t \<noteq> Picking"
  obtains x where "trx_node_table (mem s) t = Some x" and "node_fine (mem s) (tpcs s ! t) (locs s ! t) t x"
    and "trx_of t (mem s) = x" and "deque t (mem s) = trx_lock_deque x"
  using node_of_thread [OF locking_lock_inv [OF assms(1)] assms(2,3)] by metis

lemma thread_slot:
  assumes "locking s Q" and "t < n_threads s" and "tpcs s ! t \<noteq> Picking"
    and "live_from (tpcs s ! t) (length (deque t (mem s))) \<le> k" and "k < length (deque t (mem s))"
  shows "slot_fine (mem s) (tpcs s ! t) (locs s ! t) t (deque t (mem s)) k"
  using thread_node [OF assms(1-3)] assms(4,5) by (metis node_fine_slot)

lemma thread_count:
  assumes "locking s Q" and "t < n_threads s" and "tpcs s ! t \<noteq> Picking"
  shows "count_ok (tpcs s ! t) (length (deque t (mem s)))"
  using thread_node [OF assms] by (metis node_fine_def)

lemma thread_records:
  assumes "locking s Q" and "t < n_threads s" and "\<not> idle_pc (tpcs s ! t)"
  shows "records_ok (mem s) (locs s ! t)"
proof -
  have "tpcs s ! t \<noteq> Picking" using assms(3) by (auto simp: idle_pc_def)
  from thread_node [OF assms(1,2) this] show ?thesis using assms(3) by (metis node_fine_records)
qed

section \<open>One lemma for each program point\<close>

lemma GetTrxNode_known:
  assumes "locking s Q" and "t < n_threads s" and "tpcs s ! t \<noteq> Picking"
  shows "GetTrxNode t (mem s) = mem s"
  using thread_node [OF assms] by (metis GetTrxNode_def domI)

lemma acquire_call_ok:
  assumes inv: "locking s Q" and t: "t < n_threads s" "tpcs s ! t = Calling st"
  defines "r \<equiv> stage_record st (locs s ! t)"
  shows "\<exists>a m' S cl cn p. acquire_call t st s = Inr (go t p m' s)
    \<and> acquired_as t (stage_mode st) r (mem s) Q a S cl cn m'
    \<and> acquire_outcome (mem s) Q t st r a S cl cn p \<and> locking (go t p m' s) (Q(r := Q r @ [a]))"
proof -
  have pick: "tpcs s ! t \<noteq> Picking" using t(2) by simp
  obtain x where x: "trx_node_table (mem s) t = Some x" "node_fine (mem s) (tpcs s ! t) (locs s ! t) t x"
    "trx_of t (mem s) = x" "deque t (mem s) = trx_lock_deque x" using thread_node [OF inv t(1) pick] by metis
  have node: "conflict_lock x = None" "cond x = No_waiter" "trx_thread_id x = t"
    using x(2) t(2) by (auto simp: node_fine_def)
  have "lock_table (mem s) r \<noteq> None"
    using stage_records [OF thread_records [OF inv t(1)]] t(2) by (auto simp: r_def idle_pc_def)
  from AcquireLock_mutex_ok [OF lock_inv_parts(1,2) [OF locking_lock_inv [OF inv]] this x(1) node(1,3), of "stage_mode st"]
  obtain a m' where call: "AcquireLock_mutex t (stage_mode st) r (mem s) =
      Inr (if \<not> must_wait (mem s) Q (stage_mode st) r then Granted a
           else if closes_cycle (mem s) Q t r then Deadlocked else Blocked a, m')"
    and post: "if \<not> must_wait (mem s) Q (stage_mode st) r
       then acquired_as t (stage_mode st) r (mem s) Q a ACTIVE None (cond x) m'
       else if closes_cycle (mem s) Q t r then acquired_as t (stage_mode st) r (mem s) Q a OBSOLETE None (cond x) m'
       else acquired_as t (stage_mode st) r (mem s) Q a WAIT (Some a) Sleeping m'" by blast
  define W C where "W = must_wait (mem s) Q (stage_mode st) r" and "C = closes_cycle (mem s) Q t r"
  define S where "S = (if \<not> W then ACTIVE else if C then OBSOLETE else WAIT)"
  define cl where "cl = (if \<not> W \<or> C then None else Some a)"
  define cn where "cn = (if \<not> W \<or> C then No_waiter else Sleeping)"
  define p where "p = (if \<not> W then Using st a else if C then Undoing False 0 else Waiting st a)"
  have acq: "acquired_as t (stage_mode st) r (mem s) Q a S cl cn m'"
    using post by (simp add: S_def cl_def cn_def W_def [symmetric] C_def [symmetric] node split: if_splits)
  have out: "acquire_outcome (mem s) Q t st r a S cl cn p"
    by (auto simp: acquire_outcome_def S_def cl_def cn_def p_def W_def C_def)
  have "deque t m' \<noteq> []" using acq x(1) by (simp add: acquired_as_def deque_def trx_of_def)
  then have "undo_from False 0 (deque t m') = Undoing False 0" by (simp add: undo_from_def)
  then have eq: "acquire_call t st s = Inr (go t p m' s)"
    using call GetTrxNode_known [OF inv t(1) pick]
    by (simp add: acquire_call_def r_def [symmetric] W_def [symmetric] C_def [symmetric] p_def)
  have "lock_inv m' ((tpcs s)[t := p]) (locs s) (Q(r := Q r @ [a]))"
    by (rule acquire_keeps [OF locking_lock_inv [OF inv] t _ acq out]) (simp add: r_def)
  moreover have "lock_table m' r' \<noteq> None" if "lock_table (mem s) r' \<noteq> None" for r'
  proof -
    have "values_of m' r' = values_of (mem s) r'" using acq by (simp add: acquired_as_def)
    then show ?thesis using that by (auto simp: values_of_def)
  qed
  moreover have "record_count m' = record_count (mem s)" using acq by (simp add: acquired_as_def globals_def)
  ultimately have "locking (go t p m' s) (Q(r := Q r @ [a]))" using inv by (simp add: locking_def)
  then show ?thesis using eq acq out by blast
qed

lemma wake_up_ok:
  assumes inv: "locking s Q" and t: "t < n_threads s" "tpcs s ! t = Waiting st a"
    and woke: "cond (trx_of t (mem s)) = Notified"
  shows "locking (wake_up t st a s) Q"
  using resume_keeps [OF locking_lock_inv [OF inv] t woke] inv
  by (simp add: locking_def wake_up_def AcquireLock_resume_def)
     (simp add: upd_trx_def upd_lock_def)

text \<open>A step of one thread that changes no lock's state, to a program point with the same locks.\<close>

definition same_place :: "tpc \<Rightarrow> tpc \<Rightarrow> nat \<Rightarrow> bool" where
  "same_place p p' len \<longleftrightarrow>
     conflict_of p = None \<and> conflict_of p' = None \<and> last_lock p' = None \<and> count_ok p' len
     \<and> live_from p' len = live_from p len \<and> (\<forall>k < len. live_from p len \<le> k \<longrightarrow> expected p' len k = expected p len k)
     \<and> (idle_pc p \<longrightarrow> idle_pc p')"

lemma cond_of_no_conflict: "conflict_of p = None \<Longrightarrow> cond_of m p = No_waiter"
  by (cases p) simp_all

lemma node_fine_move:
  assumes "node_fine m p l t x" and "same_place p p' (length (trx_lock_deque x))" and "wanted l' = wanted l"
  shows "node_fine m p' l' t x"
  using assms cond_of_no_conflict [of p m] cond_of_no_conflict [of p' m]
  by (auto simp: node_fine_def same_place_def slot_fine_def records_ok_def)

lemma locking_cong:
  "mem s' = mem s \<Longrightarrow> tpcs s' = tpcs s \<Longrightarrow> locs s' = locs s \<Longrightarrow> locking s' Q \<longleftrightarrow> locking s Q"
  by (simp add: locking_def)

lemma locking_move:
  assumes inv: "locking s Q" and same: "same_locks (mem s) m'" and t: "t < n_threads s" "tpcs s ! t \<noteq> Picking"
    and place: "same_place (tpcs s ! t) p (length (deque t (mem s)))" and l: "wanted l = wanted (locs s ! t)"
    and rc: "record_count m' = record_count (mem s)"
    and s': "mem s' = m'" "tpcs s' = (tpcs s)[t := p]" "locs s' = (locs s)[t := l]"
  shows "locking s' Q"
proof -
  have trx: "trx_node_table m' = trx_node_table (mem s)" using same by (simp add: same_locks_def)
  note dq = deque_same [OF trx, of t]
  have inv': "lock_inv m' (tpcs s) (locs s) Q" by (rule lock_inv_same [OF locking_lock_inv [OF inv] same])
  obtain x where x: "trx_node_table m' t = Some x" "node_fine m' (tpcs s ! t) (locs s ! t) t x"
    "deque t m' = trx_lock_deque x" using node_of_thread [OF inv' t] by metis
  have "node_fine m' p l t x"
    by (rule node_fine_move [OF x(2) _ l]) (use place dq x(3) in simp)
  then have "lock_inv m' ((tpcs s)[t := p]) ((locs s)[t := l]) Q"
    by (intro lock_inv_move [OF inv' t(1)]) (use x place dq in \<open>simp_all add: thread_fine_def same_place_def\<close>)
  moreover have "lock_table m' r \<noteq> None" if "lock_table (mem s) r \<noteq> None" for r
  proof -
    have "map_option (\<lambda>n. (head n, tail n)) (lock_table m' r) = map_option (\<lambda>n. (head n, tail n)) (lock_table (mem s) r)"
      using same by (simp add: same_locks_def)
    then show ?thesis using that by auto
  qed
  ultimately show ?thesis using inv rc by (simp add: locking_def s')
qed

lemma same_locks_refl [simp]: "same_locks m m"
  by (simp add: same_locks_def)

text \<open>Reading and changing the value of a record through an unreleased lock that is granted.\<close>

lemma GetRecord_ok:
  "state (lk m a) \<noteq> OBSOLETE \<Longrightarrow> lock_table m (record_id (lk m a)) = Some node \<Longrightarrow>
    GetRecord a m = Inr (record_value node)"
  by (simp add: GetRecord_def get_node_def assert_that_def)

definition set_value :: "nat \<Rightarrow> i64 \<Rightarrow> memory \<Rightarrow> memory" where
  "set_value r v m = upd_node r (\<lambda>n. n\<lparr>record_value := v\<rparr>) m"

lemma ChangeRecord_ok:
  "state (lk m a) \<noteq> OBSOLETE \<Longrightarrow> mode (lk m a) = EXCLUSIVE \<Longrightarrow> lock_table m (record_id (lk m a)) = Some node \<Longrightarrow>
    ChangeRecord a d m = Inr (set_value (record_id (lk m a)) (record_value node + d) m, record_value node + d)"
  by (simp add: ChangeRecord_def get_node_def assert_that_def set_value_def Let_def)

lemma record_count_updates [simp]:
  "record_count (upd_lock a f m) = record_count m" "record_count (upd_node r g m) = record_count m"
  "record_count (upd_trx t k m) = record_count m"
  by (simp_all add: upd_lock_def upd_node_def upd_trx_def)

lemma same_locks_set_value: "same_locks m (set_value r v m)"
  by (auto simp: same_locks_def set_value_def option.map_comp comp_def)

lemma same_locks_note:
  "same_locks m (upd_lock a (\<lambda>l. l\<lparr>diff := d\<rparr>) (set_value r v m))"
  by (auto simp: same_locks_def set_value_def option.map_comp comp_def nth_upd)

text \<open>A slot of a transaction has its record in the table.\<close>

lemma slot_record:
  assumes "slot_fine m p l t ds k" and "records_ok m l" and "k < 3"
  shows "\<exists>node. lock_table m (record_id (lk m (ds ! k))) = Some node"
proof -
  have "record_id (lk m (ds ! k)) = fst (wanted l ! k)" using assms(1) by (metis fst_conv slot_fine_def)
  moreover have "wanted l ! k \<in> set (wanted l)" using assms(3) by (intro nth_mem) (simp add: wanted_def)
  ultimately show ?thesis using assms(2) by (auto simp: records_ok_def)
qed

definition value_at :: "memory \<Rightarrow> nat \<Rightarrow> i64" where
  "value_at m r = (case lock_table m r of Some node \<Rightarrow> record_value node | None \<Rightarrow> 0)"

text \<open>The state after \<open>Find\<close> or \<open>Update\<close> has used its lock.\<close>

definition lock_used :: "nat \<Rightarrow> stage \<Rightarrow> nat \<Rightarrow> trx_sys \<Rightarrow> trx_sys" where
  "lock_used t st a s =
     (let l = locs s ! t; m = mem s; v = value_at m (stage_record st l) in
      case st of
        Find_i \<Rightarrow> go t (Calling Update_j) m (s\<lparr>locs := (locs s)[t := l\<lparr>record_i := v\<rparr>]\<rparr>)
      | Update_j \<Rightarrow> go t (Calling Update_k)
          (upd_lock a (\<lambda>x. x\<lparr>diff := record_i l + 1\<rparr>) (set_value (rec_j l) (v + (record_i l + 1)) m))
          (s\<lparr>locs := (locs s)[t := l\<lparr>record_j := v + (record_i l + 1)\<rparr>]\<rparr>)
      | Update_k \<Rightarrow> go t Commit_call
          (upd_lock a (\<lambda>x. x\<lparr>diff := - record_i l\<rparr>) (set_value (rec_k l) (v + - record_i l) m))
          (s\<lparr>locs := (locs s)[t := l\<lparr>record_k := v + - record_i l\<rparr>]\<rparr>))"

lemma use_lock_eq:
  assumes slot: "slot_fine (mem s) p (locs s ! t) t ds (stage_no st)" and a: "a = ds ! stage_no st"
    and act: "expected p (length ds) (stage_no st) = ACTIVE" and rec: "records_ok (mem s) (locs s ! t)"
  shows "use_lock t st a s = Inr (lock_used t st a s)" "lock_table (mem s) (stage_record st (locs s ! t)) \<noteq> None"
proof -
  let ?l = "locs s ! t" and ?m = "mem s"
  have lock: "state (lk ?m a) = ACTIVE" "record_id (lk ?m a) = stage_record st ?l" "mode (lk ?m a) = stage_mode st"
    using slot a act by (simp_all add: slot_fine_def stage_wanted)
  have "stage_no st < 3" by (cases st) simp_all
  then obtain node where node: "lock_table ?m (stage_record st ?l) = Some node"
    using slot_record [OF slot rec] a lock(2) by auto
  then show "lock_table ?m (stage_record st ?l) \<noteq> None" by simp
  have v: "value_at ?m (stage_record st ?l) = record_value node" by (simp add: value_at_def node)
  have note_ok: "change_and_note a d ?m = Inr (upd_lock a (\<lambda>x. x\<lparr>diff := d\<rparr>)
      (set_value (stage_record st ?l) (record_value node + d) ?m), record_value node + d)" if "st \<noteq> Find_i" for d
    using that ChangeRecord_ok [of ?m a node d] lock node by (cases st) (simp_all add: change_and_note_def)
  show "use_lock t st a s = Inr (lock_used t st a s)"
    using GetRecord_ok [of ?m a node] lock node v note_ok
    by (cases st) (simp_all add: use_lock_def lock_used_def Let_def)
qed

lemma lock_used_fields:
  "tpcs (lock_used t st a s) = (tpcs s)[t := case st of Find_i \<Rightarrow> Calling Update_j | Update_j \<Rightarrow> Calling Update_k | Update_k \<Rightarrow> Commit_call]"
  "files (lock_used t st a s) = files s" "committed (lock_used t st a s) = committed s" "writers (lock_used t st a s) = writers s"
  by (cases st; simp add: lock_used_def Let_def)+

lemma use_lock_ok:
  assumes inv: "locking s Q" and t: "t < n_threads s" "tpcs s ! t = Using st a"
  shows "use_lock t st a s = Inr (lock_used t st a s)" "locking (lock_used t st a s) Q"
proof -
  let ?l = "locs s ! t" and ?m = "mem s"
  have pick: "tpcs s ! t \<noteq> Picking" "\<not> idle_pc (tpcs s ! t)" using t(2) by (auto simp: idle_pc_def)
  obtain x where x: "node_fine ?m (tpcs s ! t) ?l t x" "deque t ?m = trx_lock_deque x"
    using thread_node [OF inv t(1) pick(1)] by metis
  have len: "length (deque t ?m) = Suc (stage_no st)" "a = last (deque t ?m)"
    using x t(2) by (simp_all add: node_fine_def)
  then have a: "a = deque t ?m ! stage_no st" by (metis diff_Suc_1 last_conv_nth length_0_conv nat.distinct(1))
  have slot: "slot_fine ?m (Using st a) ?l t (deque t ?m) (stage_no st)"
    using thread_slot [OF inv t(1) pick(1)] t(2) len(1) by simp
  show "use_lock t st a s = Inr (lock_used t st a s)"
    by (rule use_lock_eq [OF slot a _ thread_records [OF inv t(1) pick(2)]]) simp
  show "locking (lock_used t st a s) Q"
  proof (cases st)
    case Find_i
    then show ?thesis
      by (intro locking_move [OF inv same_locks_refl t(1) pick(1)])
         (use t(2) len(1) in \<open>simp_all add: lock_used_def Let_def same_place_def wanted_def idle_pc_def\<close>)
  next
    case Update_j
    then show ?thesis
      by (intro locking_move [OF inv same_locks_note [of "mem s"] t(1) pick(1)])
         (use t(2) len(1) in \<open>simp_all add: lock_used_def Let_def same_place_def wanted_def idle_pc_def set_value_def\<close>)
  next
    case Update_k
    then show ?thesis
      by (intro locking_move [OF inv same_locks_note [of "mem s"] t(1) pick(1)])
         (use t(2) len(1) in \<open>simp_all add: lock_used_def Let_def same_place_def wanted_def idle_pc_def set_value_def\<close>)
  qed
qed

end
