(* ===== verification/TrxRun.thy ===== *)
theory TrxRun
  imports TrxLocks
begin

text \<open>
  The remaining program points of the machine: the releases of a commit and of a rollback,
  the commit id, the log line, the start of a transaction; and the locking invariant of all
  reachable states.
\<close>

section \<open>Granted locks are compatible\<close>

lemma live_in_queue:
  "lock_inv m ps ls Q \<Longrightarrow> a < length (heap m) \<Longrightarrow> state (lk m a) \<noteq> OBSOLETE \<Longrightarrow> a \<in> set (Q (record_id (lk m a)))"
  using lock_inv_parts(1) [of m ps ls Q] unfolding table_inv_def by blast

lemma takeWhile_split: "a \<in> set qs \<Longrightarrow> \<exists>ys. qs = takeWhile (\<lambda>b. b \<noteq> a) qs @ a # ys"
  by (induction qs) auto

lemma granted_locks_compatible:
  assumes inv: "locking s Q" and a: "a < length (heap (mem s))" and b: "b < length (heap (mem s))" and "a \<noteq> b"
    and "record_id (lk (mem s) a) = record_id (lk (mem s) b)"
    and "granted (lk (mem s) a)" "granted (lk (mem s) b)"
  shows "mode (lk (mem s) a) = SHARED \<and> mode (lk (mem s) b) = SHARED"
proof -
  note li = locking_lock_inv [OF inv]
  have live: "state (lk (mem s) a) \<noteq> OBSOLETE" "state (lk (mem s) b) \<noteq> OBSOLETE"
    using assms(6,7) by (auto simp: granted_def)
  let ?q = "Q (record_id (lk (mem s) a))"
  obtain i where i: "i < length ?q" "?q ! i = a" using live_in_queue [OF li a live(1)] by (auto simp: in_set_conv_nth)
  obtain j where j: "j < length ?q" "?q ! j = b"
    using live_in_queue [OF li b live(2)] assms(5) by (auto simp: in_set_conv_nth)
  note comp = lock_inv_parts(9) [OF li, of "record_id (lk (mem s) a)", unfolded sorted_wrt_iff_nth_less]
  have "i \<noteq> j" using i j assms(4) by auto
  then show ?thesis
    using comp [rule_format, of i j] comp [rule_format, of j i] i j live assms(6,7)
    by (cases "i < j") (auto simp: compatible_def)
qed

section \<open>Releases\<close>

definition after_release :: "tpc \<Rightarrow> tpc \<Rightarrow> nat \<Rightarrow> nat \<Rightarrow> bool" where
  "after_release q p n len \<longleftrightarrow>
     live_from p len = Suc n \<and> count_ok p len \<and> last_lock p = None
     \<and> (\<forall>k < len. Suc n \<le> k \<longrightarrow> expected p len k = expected q len k)"

lemma values_of_None: "values_of m' = values_of m \<Longrightarrow> lock_table m' r = None \<longleftrightarrow> lock_table m r = None"
  unfolding values_of_def by (metis option.map_disc_iff)

lemma released_deque: "released_as a m Q Q' m' \<Longrightarrow> deque u m' = deque u m"
  by (simp add: released_as_def Let_def deque_def trx_of_def split: option.splits)

lemma release_ok:
  assumes inv: "locking s Q"
    and t: "t < n_threads s" "\<not> idle_pc (tpcs s ! t)" "conflict_of (tpcs s ! t) = None"
    and n: "live_from (tpcs s ! t) (length (deque t (mem s))) = n" "n < length (deque t (mem s))"
  shows "\<exists>Q' m'. ReleaseLock_mutex (deque t (mem s) ! n) (mem s) = Inr m'
    \<and> released_as (deque t (mem s) ! n) (mem s) Q Q' m' \<and> deque t m' = deque t (mem s)
    \<and> (\<forall>p s'. after_release (tpcs s ! t) p n (length (deque t (mem s)))
         \<longrightarrow> mem s' = m' \<longrightarrow> tpcs s' = (tpcs s)[t := p] \<longrightarrow> locs s' = locs s \<longrightarrow> locking s' Q')"
proof -
  let ?m = "mem s" and ?a = "deque t (mem s) ! n"
  have li: "lock_inv ?m (tpcs s) (locs s) Q" using inv by (rule locking_lock_inv)
  have pick: "tpcs s ! t \<noteq> Picking" using t(2) by (auto simp: idle_pc_def)
  have slot: "slot_fine ?m (tpcs s ! t) (locs s ! t) t (deque t ?m) n"
    using thread_slot [OF inv t(1) pick] n by simp
  then have a: "?a < length (heap ?m)" "thread_id (lk ?m ?a) = t" by (simp_all add: slot_fine_def)
  have "state (lk ?m c) = WAIT \<and> c \<noteq> ?a"
    if "trx_node_table ?m u = Some x" "conflict_lock x = Some c" for u x c
  proof -
    have c: "c < length (heap ?m)" "state (lk ?m c) = WAIT" "thread_id (lk ?m c) = u"
      using conflict_waits [OF li that] by auto
    moreover obtain st where "tpcs s ! u = Waiting st c" using wait_lock_owner [OF li c] by blast
    ultimately show ?thesis using a t(3) by auto
  qed
  then obtain Q' m' where rel: "ReleaseLock_mutex ?a ?m = Inr m'" "released_as ?a ?m Q Q' m'"
    using ReleaseLock_mutex_ok [OF lock_inv_parts(1,2) [OF li] a(1) lock_inv_parts(6) [OF li a(1)]] by blast
  have same: "values_of m' = values_of ?m" "globals m' = globals ?m"
    using rel(2) by (simp_all add: released_as_def Let_def)
  have "locking s' Q'" if p: "after_release (tpcs s ! t) p n (length (deque t ?m))"
    and s': "mem s' = m'" "tpcs s' = (tpcs s)[t := p]" "locs s' = locs s" for p s'
  proof -
    have "lock_inv m' ((tpcs s)[t := p]) (locs s) Q'"
      by (rule release_keeps [OF li t n refl rel(2)]) (use p in \<open>simp_all add: after_release_def\<close>)
    then show ?thesis
      using inv same values_of_None [OF same(1)] by (simp add: locking_def s' globals_def)
  qed
  then show ?thesis using rel released_deque [OF rel(2)] by blast
qed

lemma release_next_ok:
  assumes inv: "locking s Q" and t: "t < n_threads s" "tpcs s ! t = Releasing cid n rs vs"
  shows "\<exists>Q' m'. release_next t cid n rs vs s = Inr (go t (commit_from cid (Suc n) rs vs (deque t (mem s))) m' s)
    \<and> released_as (deque t (mem s) ! n) (mem s) Q Q' m' \<and> length (deque t (mem s)) = 3 \<and> n < 3
    \<and> locking (go t (commit_from cid (Suc n) rs vs (deque t (mem s))) m' s) Q'"
proof -
  have pick: "tpcs s ! t \<noteq> Picking" "\<not> idle_pc (tpcs s ! t)" "conflict_of (tpcs s ! t) = None"
    using t(2) by (simp_all add: idle_pc_def)
  have len: "length (deque t (mem s)) = 3" "n < 3" using thread_count [OF inv t(1) pick(1)] t(2) by simp_all
  obtain Q' m' where rel: "ReleaseLock_mutex (deque t (mem s) ! n) (mem s) = Inr m'"
    "released_as (deque t (mem s) ! n) (mem s) Q Q' m'" "deque t m' = deque t (mem s)"
    "\<And>p s'. after_release (tpcs s ! t) p n (length (deque t (mem s))) \<Longrightarrow> mem s' = m' \<Longrightarrow> tpcs s' = (tpcs s)[t := p]
       \<Longrightarrow> locs s' = locs s \<Longrightarrow> locking s' Q'"
    using release_ok [OF inv t(1) pick(2,3), of n] t(2) len by auto
  have "locking (go t (commit_from cid (Suc n) rs vs (deque t (mem s))) m' s) Q'"
    by (rule rel(4)) (use t(2) len in \<open>simp_all add: after_release_def commit_from_def\<close>)
  then show ?thesis using rel len by (intro exI [of _ Q'] exI [of _ m']) (simp add: release_next_def)
qed

lemma undo_release_ok:
  assumes inv: "locking s Q" and t: "t < n_threads s" "tpcs s ! t = Undo_release f n"
  defines "p \<equiv> undo_from f (Suc n) (deque t (mem s))"
  shows "\<exists>Q' m'. undo_release t f n s = Inr (go t p m' (finish_thread t p (s\<lparr>mem := m'\<rparr>)))
    \<and> released_as (deque t (mem s) ! n) (mem s) Q Q' m'
    \<and> n < length (deque t (mem s)) \<and> length (deque t (mem s)) \<le> 3 \<and> (f \<longrightarrow> length (deque t (mem s)) = 3)
    \<and> locking (go t p m' (finish_thread t p (s\<lparr>mem := m'\<rparr>))) Q'"
proof -
  have pick: "tpcs s ! t \<noteq> Picking" "\<not> idle_pc (tpcs s ! t)" "conflict_of (tpcs s ! t) = None"
    using t(2) by (simp_all add: idle_pc_def)
  have len: "n < length (deque t (mem s))" "length (deque t (mem s)) \<le> 3" "f \<longrightarrow> length (deque t (mem s)) = 3"
    using thread_count [OF inv t(1) pick(1)] t(2) by simp_all
  obtain Q' m' where rel: "ReleaseLock_mutex (deque t (mem s) ! n) (mem s) = Inr m'"
    "released_as (deque t (mem s) ! n) (mem s) Q Q' m'" "deque t m' = deque t (mem s)"
    "\<And>p s'. after_release (tpcs s ! t) p n (length (deque t (mem s))) \<Longrightarrow> mem s' = m' \<Longrightarrow> tpcs s' = (tpcs s)[t := p]
       \<Longrightarrow> locs s' = locs s \<Longrightarrow> locking s' Q'"
    using release_ok [OF inv t(1) pick(2,3), of n] t(2) len by auto
  have "locking (go t p m' (finish_thread t p (s\<lparr>mem := m'\<rparr>))) Q'"
    by (rule rel(4) [of p])
       (use t(2) len in \<open>auto simp: p_def after_release_def undo_from_def finish_thread_def\<close>)
  then show ?thesis using rel len
    by (intro exI [of _ Q'] exI [of _ m']) (simp add: undo_release_def p_def Let_def)
qed

section \<open>The other steps\<close>

lemma read_back_eq:
  assumes slot: "slot_fine (mem s) p l t (deque t (mem s)) n" and act: "expected p (length (deque t (mem s))) n = ACTIVE"
    and rec: "records_ok (mem s) l" and n: "n < 3"
  shows "read_back t cid n rs vs s =
    Inr (go t (Releasing cid n (rs @ [fst (wanted l ! n)]) (vs @ [value_at (mem s) (fst (wanted l ! n))])) (mem s) s)"
proof -
  let ?a = "deque t (mem s) ! n"
  have lock: "state (lk (mem s) ?a) = ACTIVE" "record_id (lk (mem s) ?a) = fst (wanted l ! n)"
    using slot act by (auto simp: slot_fine_def dest: arg_cong [of _ _ fst])
  obtain node where node: "lock_table (mem s) (record_id (lk (mem s) ?a)) = Some node"
    using slot_record [OF slot rec n] by auto
  have "GetRecord ?a (mem s) = Inr (record_value node)" using GetRecord_ok [OF _ node] lock(1) by simp
  then show ?thesis using lock(2) node by (simp add: read_back_def value_at_def)
qed

lemma read_back_ok:
  assumes inv: "locking s Q" and t: "t < n_threads s" "tpcs s ! t = Reading_back cid n rs vs"
  defines "s' \<equiv> go t (Releasing cid n (rs @ [fst (wanted (locs s ! t) ! n)]) (vs @ [value_at (mem s) (fst (wanted (locs s ! t) ! n))])) (mem s) s"
  shows "read_back t cid n rs vs s = Inr s'" "locking s' Q"
proof -
  have pick: "tpcs s ! t \<noteq> Picking" "\<not> idle_pc (tpcs s ! t)" using t(2) by (simp_all add: idle_pc_def)
  have len: "length (deque t (mem s)) = 3" "n < 3" using thread_count [OF inv t(1) pick(1)] t(2) by simp_all
  have "slot_fine (mem s) (tpcs s ! t) (locs s ! t) t (deque t (mem s)) n"
    using thread_slot [OF inv t(1) pick(1)] t(2) len by simp
  then show "read_back t cid n rs vs s = Inr s'"
    unfolding s'_def by (rule read_back_eq [OF _ _ thread_records [OF inv t(1) pick(2)] len(2)]) (simp add: t(2))
  show "locking s' Q" unfolding s'_def
    by (rule locking_move [OF inv same_locks_refl t(1) pick(1),
          of "Releasing cid n (rs @ [fst (wanted (locs s ! t) ! n)]) (vs @ [value_at (mem s) (fst (wanted (locs s ! t) ! n))])" "locs s ! t"])
       (use t(2) len in \<open>simp_all add: same_place_def idle_pc_def\<close>)
qed

lemma publish_ok:
  assumes inv: "locking s Q" and t: "t < n_threads s" "tpcs s ! t = Publishing cid rs vs"
  shows "locking (publish t cid rs vs s) Q"
  by (rule locking_move [OF inv same_locks_refl t(1), of Picking "locs s ! t"])
     (use t(2) in \<open>simp_all add: publish_def same_place_def idle_pc_def\<close>)

lemma take_commit_id_ok:
  assumes inv: "locking s Q" and t: "t < n_threads s" "tpcs s ! t = Commit_call"
  shows "locking (take_commit_id t s) Q" "length (deque t (mem s)) = 3"
proof -
  have pick: "tpcs s ! t \<noteq> Picking" using t(2) by simp
  show len: "length (deque t (mem s)) = 3" using thread_count [OF inv t(1) pick] t(2) by simp
  let ?c = "global_execution_count (mem s) + 1"
  let ?m = "(mem s)\<lparr>global_execution_count := ?c\<rparr>"
  have dq: "deque t ?m = deque t (mem s)" by (simp add: deque_def trx_of_def)
  have same: "same_locks (mem s) ?m" by (simp add: same_locks_def)
  define p where "p = (if last_global_execution_order (mem s) <s ?c then Undoing True 0 else Reading_back ?c 0 [] [])"
  have tpc: "tpcs (take_commit_id t s) = (tpcs s)[t := p]" "mem (take_commit_id t s) = ?m"
    "locs (take_commit_id t s) = locs s"
    using len by (simp_all add: take_commit_id_def Let_def dq p_def undo_from_def commit_from_def)
  show "locking (take_commit_id t s) Q"
    by (rule locking_move [OF inv same t(1) pick, of p "locs s ! t"])
       (use t(2) len tpc in \<open>simp_all add: same_place_def idle_pc_def p_def\<close>)
qed

text \<open>The memory after the undo of the change of one lock.\<close>

definition undone :: "nat \<Rightarrow> nat \<Rightarrow> locals \<Rightarrow> memory \<Rightarrow> memory" where
  "undone t n l m =
     (let a = deque t m ! n; r = fst (wanted l ! n) in
      if mode (lk m a) = EXCLUSIVE \<and> state (lk m a) \<noteq> OBSOLETE then set_value r (value_at m r + - diff (lk m a)) m else m)"

lemma undo_next_eq:
  assumes slot: "slot_fine (mem s) p (locs s ! t) t (deque t (mem s)) n" and rec: "records_ok (mem s) (locs s ! t)" and n: "n < 3"
  shows "undo_next t f n s = Inr (go t (Undo_release f n) (undone t n (locs s ! t) (mem s)) s)"
proof -
  let ?a = "deque t (mem s) ! n"
  have r: "record_id (lk (mem s) ?a) = fst (wanted (locs s ! t) ! n)"
    using slot by (auto simp: slot_fine_def dest: arg_cong [of _ _ fst])
  obtain node where node: "lock_table (mem s) (record_id (lk (mem s) ?a)) = Some node"
    using slot_record [OF slot rec n] by auto
  show ?thesis
    using ChangeRecord_ok [OF _ _ node, of "- diff (lk (mem s) ?a)"] r node
    by (simp add: undo_next_def undone_def Let_def value_at_def)
qed

lemma undo_next_ok:
  assumes inv: "locking s Q" and t: "t < n_threads s" "tpcs s ! t = Undoing f n"
  defines "s' \<equiv> go t (Undo_release f n) (undone t n (locs s ! t) (mem s)) s"
  shows "undo_next t f n s = Inr s'" "locking s' Q"
proof -
  let ?m' = "undone t n (locs s ! t) (mem s)"
  have pick: "tpcs s ! t \<noteq> Picking" "\<not> idle_pc (tpcs s ! t)" using t(2) by (simp_all add: idle_pc_def)
  have len: "n < length (deque t (mem s))" "length (deque t (mem s)) \<le> 3" "f \<longrightarrow> length (deque t (mem s)) = 3"
    using thread_count [OF inv t(1) pick(1)] t(2) by simp_all
  have slot: "slot_fine (mem s) (tpcs s ! t) (locs s ! t) t (deque t (mem s)) n"
    using thread_slot [OF inv t(1) pick(1)] t(2) len by simp
  show "undo_next t f n s = Inr s'"
    unfolding s'_def by (rule undo_next_eq [OF slot thread_records [OF inv t(1) pick(2)]]) (use len in simp)
  have e: "expected (Undo_release f n) len k = expected (Undoing f n) len k" for len k
    by (cases f) simp_all
  have same: "same_locks (mem s) ?m'" by (simp add: undone_def Let_def same_locks_set_value)
  have "record_count ?m' = record_count (mem s)" by (simp add: undone_def Let_def set_value_def)
  then show "locking s' Q"
    unfolding s'_def
    by (intro locking_move [OF inv same t(1) pick(1), of "Undo_release f n" "locs s ! t"])
       (use t(2) len e in \<open>simp_all add: same_place_def idle_pc_def\<close>)
qed

lemma pick_step_ok:
  assumes inv: "locking s Q" and t: "t < n_threads s" and pick: "can_pick t i j k s"
  shows "locking (pick_step t i j k s) Q"
proof -
  let ?l = "(locs s ! t)\<lparr>rec_i := i, rec_j := j, rec_k := k\<rparr>"
  have "lock_table (mem s) r \<noteq> None" if "r \<in> {i, j, k}" for r
    using inv pick that by (auto simp: locking_def can_pick_def)
  then have "records_ok (mem s) ?l" using pick by (auto simp: records_ok_def wanted_def can_pick_def)
  then have "lock_inv (Begin t (mem s)) ((tpcs s)[t := Calling Find_i]) ((locs s)[t := ?l]) Q"
    using pick by (intro Begin_keeps [OF locking_lock_inv [OF inv] t]) (simp_all add: can_pick_def)
  moreover have "record_count (Begin t (mem s)) = record_count (mem s)"
    by (simp add: Begin_def GetTrxNode_def)
  ultimately show ?thesis using inv by (simp add: locking_def pick_step_def Begin_memory)
qed

section \<open>The whole machine\<close>

lemma MakeRecords_table:
  "lock_table (MakeRecords n m) = (\<lambda>r. if lock_table m r = None \<and> r \<in> {1..n} then Some (LockTableNode_new r) else lock_table m r)"
proof -
  have "fold (\<lambda>i tab. if i \<in> dom tab then tab else tab(i \<mapsto> LockTableNode_new i)) [1..<n + 1] tab
    = (\<lambda>r. if tab r = None \<and> r \<in> {1..n} then Some (LockTableNode_new r) else tab r)" for tab
  proof (induction n)
    case (Suc n)
    have e: "[1..<Suc n + 1] = [1..<n + 1] @ [Suc n]" by simp
    show ?case unfolding e fold_append comp_apply Suc by (cases "n = 0") (auto simp: fun_eq_iff le_Suc_eq)
  qed simp
  then show ?thesis by (simp add: MakeRecords_def)
qed

lemma start_memory:
  "lock_table (mem (trx_sys_new n_thr n_rec last_id d)) r =
     (if r \<in> {1..n_rec} then Some (LockTableNode_new r) else None)"
  "heap (mem (trx_sys_new n_thr n_rec last_id d)) = []"
  "trx_node_table (mem (trx_sys_new n_thr n_rec last_id d)) = Map.empty"
  "record_count (mem (trx_sys_new n_thr n_rec last_id d)) = n_rec"
  by (simp_all add: trx_sys_new_def InitManagers_def MakeRecords_table memory_new_def) (simp_all add: MakeRecords_def)

lemma start_locking: "locking (trx_sys_new n_thr n_rec last_id d) (\<lambda>r. [])"
proof -
  let ?s = "trx_sys_new n_thr n_rec last_id d"
  have "table_inv (mem ?s) (\<lambda>r. [])"
    by (auto simp: table_inv_def queue_ok_def start_memory LockTableNode_new_def split: if_splits)
       (simp_all add: trx_sys_new_def InitManagers_def MakeRecords_def memory_new_def)
  moreover have "trx_inv (mem ?s) (\<lambda>r. [])" by (simp add: trx_inv_def start_memory)
  moreover have "waits_behind (mem ?s) (\<lambda>r. []) = {}" by (auto simp: waits_behind_def ahead_def)
  ultimately have "lock_inv (mem ?s) (tpcs ?s) (locs ?s) (\<lambda>r. [])"
    by (simp add: lock_inv_def start_memory thread_fine_def awaited_def acyclic_def)
       (simp add: trx_sys_new_def)
  then show ?thesis by (simp add: locking_def start_memory)
qed

lemma trx_access_ok:
  assumes inv: "locking s Q" and t: "t < n_threads s" "can_go t s"
  shows "\<exists>s' Q'. trx_access t s = Inr s' \<and> locking s' Q'"
proof (cases "tpcs s ! t")
  case (Calling st)
  then show ?thesis using acquire_call_ok [OF inv t(1) Calling] by (auto simp: trx_access_def)
next
  case (Waiting st a)
  then have "cond (trx_of t (mem s)) = Notified" using t(2) by (simp add: can_go_def)
  from wake_up_ok [OF inv t(1) Waiting this] show ?thesis using Waiting by (auto simp: trx_access_def)
next
  case (Using st a)
  then show ?thesis using use_lock_ok [OF inv t(1) Using] by (auto simp: trx_access_def)
next
  case Commit_call
  then show ?thesis using take_commit_id_ok(1) [OF inv t(1) Commit_call] by (auto simp: trx_access_def)
next
  case (Reading_back cid n rs vs)
  then show ?thesis using read_back_ok [OF inv t(1) Reading_back] by (auto simp: trx_access_def)
next
  case (Releasing cid n rs vs)
  then show ?thesis using release_next_ok [OF inv t(1) Releasing] by (auto simp: trx_access_def)
next
  case (Publishing cid rs vs)
  then show ?thesis using publish_ok [OF inv t(1) Publishing] by (auto simp: trx_access_def)
next
  case (Undoing f n)
  then show ?thesis using undo_next_ok [OF inv t(1) Undoing] by (auto simp: trx_access_def)
next
  case (Undo_release f n)
  then show ?thesis using undo_release_ok [OF inv t(1) Undo_release] by (auto simp: trx_access_def)
qed (use t(2) in \<open>simp_all add: can_go_def\<close>)

interpretation trx_locking: machine_invariant trx_start trx_step "\<lambda>s. \<exists>Q. locking s Q"
proof
  show "trx_start s \<Longrightarrow> \<exists>Q. locking s Q" for s using start_locking unfolding trx_start_def by blast
next
  fix s s' assume "\<exists>Q. locking s Q" and step: "trx_step s s'"
  then obtain Q where Q: "locking s Q" by blast
  obtain e where "trx_act e s s'" "\<And>t. e \<noteq> Spurious t" using step by (auto simp: trx_step_def)
  then show "\<exists>Q. locking s' Q"
    using trx_access_ok [OF Q] pick_step_ok [OF Q] by (cases rule: trx_act.cases) fastforce+
qed

text \<open>Concrete runs are reachable.\<close>

lemma trx_start_reach:
  "sizes_ok n_thr n_rec last_id \<Longrightarrow>
    trx_reach (trx_sys_new n_thr n_rec last_id Map.empty)"
  by (intro reach_start) (auto simp: trx_start_def)

lemma do_trx_event_act: "do_trx_event e s = Some s' \<Longrightarrow> trx_act e s s'"
  by (cases e) (auto split: if_splits sum.splits tpc.splits intro: trx_act.intros)

fun spurious :: "trx_event \<Rightarrow> bool" where
  "spurious (Spurious t) = True"
| "spurious e = False"

lemma run_trx_reach:
  "run_trx es s = Some s' \<Longrightarrow> list_all (\<lambda>e. \<not> spurious e) es \<Longrightarrow> trx_reach s \<Longrightarrow> trx_reach s'"
proof (induction es arbitrary: s)
  case (Cons e es)
  then obtain s1 where s1: "do_trx_event e s = Some s1" "run_trx es s1 = Some s'" by (auto split: option.splits)
  have "\<forall>t. e \<noteq> Spurious t" using Cons.prems(2) by auto
  then have "trx_step s s1" using do_trx_event_act [OF s1(1)] unfolding trx_step_def by blast
  then have "trx_reach s1" using Cons.prems(3) by (rule reach_next [rotated])
  then show ?case using Cons s1 by simp
qed simp

section \<open>Evaluating runs\<close>

text \<open>
  The equations that evaluate a run on concrete inputs by \<open>simp\<close>. The congruence rules keep
  the continuation of a call unevaluated until the call has a value.
\<close>

lemma and_then_weak: "x = y \<Longrightarrow> and_then x f = and_then y f"
  by simp

lemma replicate_num: "replicate (numeral k) x = x # replicate (pred_numeral k) x"
  by (simp add: numeral_eq_Suc)

lemma MakeRecords_eq: "MakeRecords n m = m\<lparr>record_count := n, lock_table :=
   (\<lambda>r. if lock_table m r = None \<and> r \<in> {1..n} then Some (LockTableNode_new r) else lock_table m r)\<rparr>"
  using MakeRecords_table [of n m] by (simp add: MakeRecords_def)

lemmas memory_eval = upd_trx_def upd_lock_def upd_node_def get_node_def domIff GetRecord_def ChangeRecord_def
  Begin_def GetTrxNode_def trx_of_def lock_t_new_def TrxNode_new_def LockTableNode_new_def memory_new_def
  MakeRecords_eq InitManagers_def notify_one_def
  assert_that_def Let_def replicate_num word_sless_alt

lemmas lock_eval = AcquireLock_mutex_def AcquireLock_resume_def insert_lock_def take_lock_def count_lock_def
  link_lock_def ReleaseLock_mutex_def wake_def IsDeadlock2_def

lemmas run_eval = trx_access_def can_go_def can_pick_def pick_step_def
  acquire_call_def wake_up_def use_lock_def change_and_note_def take_commit_id_def read_back_def release_next_def
  publish_def undo_next_def undo_release_def finish_thread_def undo_from_def commit_from_def go_def deque_def
  thread_file_def locals_new_def trx_sys_new_def memory_eval lock_eval

lemma state_from_run:
  assumes "case run_trx es (trx_sys_new n_thr n_rec last_id Map.empty) of None \<Rightarrow> False | Some s \<Rightarrow> P s"
    and "list_all (\<lambda>e. \<not> spurious e) es"
    and "sizes_ok n_thr n_rec last_id"
  obtains s where "trx_reach s" and "P s"
proof -
  obtain s where "run_trx es (trx_sys_new n_thr n_rec last_id Map.empty) = Some s" "P s"
    using assms(1) by (auto split: option.splits)
  then show thesis using that run_trx_reach [OF _ assms(2) trx_start_reach [OF assms(3)]] by blast
qed

lemma steps_spurious_reach:
  "run_trx es s = Some s' \<Longrightarrow> reach trx_start trx_step_spurious s \<Longrightarrow> reach trx_start trx_step_spurious s'"
proof (induction es arbitrary: s)
  case (Cons e es)
  then obtain s1 where s1: "do_trx_event e s = Some s1" "run_trx es s1 = Some s'" by (auto split: option.splits)
  have "trx_step_spurious s s1" using do_trx_event_act [OF s1(1)] unfolding trx_step_spurious_def by blast
  then have "reach trx_start trx_step_spurious s1" using Cons.prems(2) by (rule reach_next [rotated])
  then show ?case using Cons s1 by simp
qed simp

end
