(* ===== verification/TwoPhase.thy ===== *)
theory TwoPhase
  imports TrxRun
begin

text \<open>
  What the transactions need from a lock manager. Both versions of it, with and without the
  global mutex, promise \<open>two_phase\<close>: from the return of \<open>AcquireLock\<close> to the call of
  \<open>ReleaseLock\<close> a transaction holds its locks, on the records and in the modes of its calls,
  and the locks of two transactions on one record are shared. The steps of a machine are, for
  the transactions, of three kinds: steps inside the lock manager (\<open>lock_move\<close>), which leave
  values, commits and logs alone; accesses of \<open>Find\<close>, \<open>Update\<close>, \<open>Commit\<close> and \<open>Abort\<close> outside
  it (\<open>data_move\<close>); and the start of a transaction. The locale \<open>lock_service\<close> is this
  interface.
\<close>

section \<open>The locks held\<close>

text \<open>
  The indices of a thread's deque whose locks it is sure to hold: up to \<open>granted_to\<close>, because
  the last call of \<open>AcquireLock\<close> may not have returned, and from \<open>kept_from\<close> on, because the
  lock before may be on its way out.
\<close>

definition granted_to :: "tpc \<Rightarrow> nat \<Rightarrow> nat" where
  "granted_to p len = (case p of Calling st \<Rightarrow> stage_no st | _ \<Rightarrow> len)"

fun kept_from :: "tpc \<Rightarrow> nat \<Rightarrow> nat" where
  "kept_from (Releasing cid n rs vs) len = Suc n"
| "kept_from (Undo_release f n) len = Suc n"
| "kept_from p len = live_from p len"

lemma kept_from_live: "live_from p len \<le> kept_from p len"
  by (cases p) simp_all

text \<open>Inside \<open>AcquireLock\<close> the new lock may be in the deque already.\<close>

definition count_near :: "tpc \<Rightarrow> nat \<Rightarrow> bool" where
  "count_near p len \<longleftrightarrow> count_ok p len \<or> (\<exists>st. p = Calling st \<and> len = Suc (stage_no st))"

definition held_at :: "trx_sys \<Rightarrow> nat \<Rightarrow> nat \<Rightarrow> bool" where
  "held_at s t k \<longleftrightarrow>
     (let p = tpcs s ! t; len = length (deque t (mem s)) in
      t < n_threads s \<and> p \<noteq> Picking \<and> kept_from p len \<le> k \<and> k < granted_to p len \<and> expected p len k = ACTIVE)"

definition thread_kept :: "trx_sys \<Rightarrow> nat \<Rightarrow> bool" where
  "thread_kept s t \<longleftrightarrow>
     (let p = tpcs s ! t; ds = deque t (mem s) in
      trx_node_table (mem s) t \<noteq> None \<and> count_near p (length ds)
      \<and> (last_lock p \<noteq> None \<longrightarrow> last_lock p = Some (last ds))
      \<and> (\<not> idle_pc p \<longrightarrow> records_ok (mem s) (locs s ! t))
      \<and> (\<forall>k < granted_to p (length ds). kept_from p (length ds) \<le> k \<longrightarrow> slot_fine (mem s) p (locs s ! t) t ds k))"

definition held_apart :: "trx_sys \<Rightarrow> nat \<Rightarrow> nat \<Rightarrow> nat \<Rightarrow> nat \<Rightarrow> bool" where
  "held_apart s t k u k' \<longleftrightarrow>
     (fst (wanted (locs s ! t) ! k) = fst (wanted (locs s ! u) ! k')
        \<longrightarrow> snd (wanted (locs s ! t) ! k) = SHARED \<and> snd (wanted (locs s ! u) ! k') = SHARED)"

definition two_phase :: "trx_sys \<Rightarrow> bool" where
  "two_phase s \<longleftrightarrow> length (locs s) = n_threads s
     \<and> (\<forall>t < n_threads s. tpcs s ! t \<noteq> Picking \<longrightarrow> thread_kept s t)
     \<and> (\<forall>t u k k'. held_at s t k \<and> held_at s u k' \<and> t \<noteq> u \<longrightarrow> held_apart s t k u k')"

section \<open>Reading the contract\<close>

lemma two_phase_thread:
  assumes "two_phase s" and "t < n_threads s" and "tpcs s ! t \<noteq> Picking"
  shows "trx_node_table (mem s) t \<noteq> None" "count_near (tpcs s ! t) (length (deque t (mem s)))"
    "last_lock (tpcs s ! t) \<noteq> None \<Longrightarrow> last_lock (tpcs s ! t) = Some (last (deque t (mem s)))"
    "k < granted_to (tpcs s ! t) (length (deque t (mem s))) \<Longrightarrow> kept_from (tpcs s ! t) (length (deque t (mem s))) \<le> k
      \<Longrightarrow> slot_fine (mem s) (tpcs s ! t) (locs s ! t) t (deque t (mem s)) k"
  using assms by (simp_all add: two_phase_def thread_kept_def Let_def)

lemma kept_records:
  assumes "two_phase s" and "t < n_threads s" and "\<not> idle_pc (tpcs s ! t)"
  shows "records_ok (mem s) (locs s ! t)"
proof -
  have "tpcs s ! t \<noteq> Picking" using assms(3) by (auto simp: idle_pc_def)
  then show ?thesis using assms by (simp add: two_phase_def thread_kept_def Let_def)
qed

lemma held_lock:
  assumes "two_phase s" and "held_at s t k"
  defines "a \<equiv> deque t (mem s) ! k"
  shows "a < length (heap (mem s))" "state (lk (mem s) a) = ACTIVE" "thread_id (lk (mem s) a) = t"
    "record_id (lk (mem s) a) = fst (wanted (locs s ! t) ! k)" "mode (lk (mem s) a) = snd (wanted (locs s ! t) ! k)"
proof -
  have "slot_fine (mem s) (tpcs s ! t) (locs s ! t) t (deque t (mem s)) k"
    using two_phase_thread(4) [OF assms(1)] assms(2) by (simp add: held_at_def Let_def)
  then show "a < length (heap (mem s))" "state (lk (mem s) a) = ACTIVE" "thread_id (lk (mem s) a) = t"
    "record_id (lk (mem s) a) = fst (wanted (locs s ! t) ! k)" "mode (lk (mem s) a) = snd (wanted (locs s ! t) ! k)"
    using assms(2) by (simp_all add: slot_fine_def held_at_def a_def prod_eq_iff Let_def)
qed

lemma held_compatible:
  assumes "two_phase s" and "held_at s t k" and "held_at s u k'" and "t \<noteq> u"
    and "fst (wanted (locs s ! t) ! k) = fst (wanted (locs s ! u) ! k')"
  shows "snd (wanted (locs s ! t) ! k) = SHARED \<and> snd (wanted (locs s ! u) ! k') = SHARED"
  using assms unfolding two_phase_def held_apart_def by blast

lemma granted_count:
  "count_near p len \<Longrightarrow> granted_to p len \<le> len \<and> (granted_to p len < len \<longrightarrow> (\<exists>st. p = Calling st))"
  by (cases p) (auto simp: count_near_def granted_to_def)

lemma count_nearD: "count_near p len \<Longrightarrow> (\<And>st. p \<noteq> Calling st) \<Longrightarrow> count_ok p len"
  by (auto simp: count_near_def)

lemma held_in_deque: "two_phase s \<Longrightarrow> held_at s t k \<Longrightarrow> k < length (deque t (mem s))"
  using two_phase_thread(2) [of s t] granted_count [of "tpcs s ! t" "length (deque t (mem s))"]
  by (auto simp: held_at_def Let_def)

section \<open>The accesses outside the lock manager\<close>

text \<open>None of them fails, and the successor states are these.\<close>

lemma use_lock_kept:
  assumes inv: "two_phase s" and t: "t < n_threads s" "tpcs s ! t = Using st a"
  shows "use_lock t st a s = Inr (lock_used t st a s)" "a = deque t (mem s) ! stage_no st"
    "length (deque t (mem s)) = Suc (stage_no st)" "lock_table (mem s) (stage_record st (locs s ! t)) \<noteq> None"
proof -
  have pick: "tpcs s ! t \<noteq> Picking" "\<not> idle_pc (tpcs s ! t)" using t(2) by (auto simp: idle_pc_def)
  show len: "length (deque t (mem s)) = Suc (stage_no st)"
    using two_phase_thread(2) [OF inv t(1) pick(1)] t(2) by (simp add: count_near_def)
  have "a = last (deque t (mem s))" using two_phase_thread(3) [OF inv t(1) pick(1)] t(2) by simp
  then show a: "a = deque t (mem s) ! stage_no st" using len by (metis diff_Suc_1 last_conv_nth length_0_conv nat.distinct(1))
  have slot: "slot_fine (mem s) (tpcs s ! t) (locs s ! t) t (deque t (mem s)) (stage_no st)"
    using two_phase_thread(4) [OF inv t(1) pick(1)] t(2) len by (simp add: granted_to_def)
  note eq = use_lock_eq [OF slot a _ kept_records [OF inv t(1) pick(2)]]
  show "use_lock t st a s = Inr (lock_used t st a s)" "lock_table (mem s) (stage_record st (locs s ! t)) \<noteq> None"
    using eq t(2) by simp_all
qed

lemma read_back_kept:
  assumes inv: "two_phase s" and t: "t < n_threads s" "tpcs s ! t = Reading_back cid n rs vs"
  shows "read_back t cid n rs vs s = Inr (go t (Releasing cid n (rs @ [fst (wanted (locs s ! t) ! n)])
      (vs @ [value_at (mem s) (fst (wanted (locs s ! t) ! n))])) (mem s) s)" "n < 3"
proof -
  have pick: "tpcs s ! t \<noteq> Picking" "\<not> idle_pc (tpcs s ! t)" using t(2) by (simp_all add: idle_pc_def)
  have len: "length (deque t (mem s)) = 3" "n < 3" using two_phase_thread(2) [OF inv t(1) pick(1)] t(2) by (simp_all add: count_near_def)
  then show "n < 3" by simp
  have "slot_fine (mem s) (tpcs s ! t) (locs s ! t) t (deque t (mem s)) n"
    using two_phase_thread(4) [OF inv t(1) pick(1)] t(2) len by (simp add: granted_to_def)
  then show "read_back t cid n rs vs s = Inr (go t (Releasing cid n (rs @ [fst (wanted (locs s ! t) ! n)])
      (vs @ [value_at (mem s) (fst (wanted (locs s ! t) ! n))])) (mem s) s)"
    by (rule read_back_eq [OF _ _ kept_records [OF inv t(1) pick(2)] len(2)]) (simp add: t(2))
qed

lemma undo_next_kept:
  assumes inv: "two_phase s" and t: "t < n_threads s" "tpcs s ! t = Undoing f n"
  shows "undo_next t f n s = Inr (go t (Undo_release f n) (undone t n (locs s ! t) (mem s)) s)"
    "n < length (deque t (mem s))" "length (deque t (mem s)) \<le> 3" "f \<longrightarrow> length (deque t (mem s)) = 3"
    "slot_fine (mem s) (tpcs s ! t) (locs s ! t) t (deque t (mem s)) n"
proof -
  have pick: "tpcs s ! t \<noteq> Picking" "\<not> idle_pc (tpcs s ! t)" using t(2) by (simp_all add: idle_pc_def)
  show len: "n < length (deque t (mem s))" "length (deque t (mem s)) \<le> 3" "f \<longrightarrow> length (deque t (mem s)) = 3"
    using two_phase_thread(2) [OF inv t(1) pick(1)] t(2) by (simp_all add: count_near_def)
  show slot: "slot_fine (mem s) (tpcs s ! t) (locs s ! t) t (deque t (mem s)) n"
    using two_phase_thread(4) [OF inv t(1) pick(1)] t(2) len by (simp add: granted_to_def)
  show "undo_next t f n s = Inr (go t (Undo_release f n) (undone t n (locs s ! t) (mem s)) s)"
    by (rule undo_next_eq [OF slot kept_records [OF inv t(1) pick(2)]]) (use len in simp)
qed

lemma commit_count:
  assumes "two_phase s" and "t < n_threads s" and "tpcs s ! t = Commit_call"
  shows "length (deque t (mem s)) = 3"
  using two_phase_thread(2) [OF assms(1,2)] assms(3) by (simp add: count_near_def)

section \<open>The steps of a machine, as the transactions see them\<close>

text \<open>A call of the lock manager returns: where the thread goes on.\<close>

fun call_returns :: "tpc \<Rightarrow> nat list \<Rightarrow> tpc \<Rightarrow> bool" where
  "call_returns (Calling st) ds p \<longleftrightarrow> length ds = Suc (stage_no st)
     \<and> (p = Using st (last ds) \<or> p = Waiting st (last ds) \<or> p = undo_from False 0 ds)"
| "call_returns (Waiting st a) ds p \<longleftrightarrow> p = Using st a"
| "call_returns (Releasing cid n rs vs) ds p \<longleftrightarrow> p = commit_from cid (Suc n) rs vs ds"
| "call_returns (Undo_release f n) ds p \<longleftrightarrow> p = undo_from f (Suc n) ds"
| "call_returns q ds p \<longleftrightarrow> False"

definition number_of :: "memory \<Rightarrow> nat \<Rightarrow> i32 option" where
  "number_of m t = map_option trx_thread_number (trx_node_table m t)"

definition same_data :: "memory \<Rightarrow> memory \<Rightarrow> bool" where
  "same_data m m' \<longleftrightarrow> values_of m' = values_of m \<and> globals m' = globals m \<and> number_of m' = number_of m"

definition lock_move :: "nat \<Rightarrow> trx_sys \<Rightarrow> trx_sys \<Rightarrow> bool" where
  "lock_move t s s' \<longleftrightarrow> tpcs s ! t \<noteq> Picking
     \<and> (tpcs s' = tpcs s \<or> (\<exists>p. call_returns (tpcs s ! t) (deque t (mem s')) p \<and> tpcs s' = (tpcs s)[t := p]))
     \<and> locs s' = locs s \<and> files s' = files s \<and> committed s' = committed s \<and> writers s' = writers s
     \<and> same_data (mem s) (mem s')
     \<and> (\<forall>u. u \<noteq> t \<longrightarrow> deque u (mem s') = deque u (mem s)) 
     \<and> (\<exists>l. deque t (mem s') = deque t (mem s) @ l \<and> (l \<noteq> [] \<longrightarrow> (\<exists>st. tpcs s ! t = Calling st)))
     \<and> (\<forall>u k. held_at s u k \<longrightarrow> diff (lk (mem s') (deque u (mem s) ! k)) = diff (lk (mem s) (deque u (mem s) ! k)))"

fun data_pc :: "tpc \<Rightarrow> bool" where
  "data_pc (Using st a) = True"
| "data_pc Commit_call = True"
| "data_pc (Reading_back cid n rs vs) = True"
| "data_pc (Publishing cid rs vs) = True"
| "data_pc (Undoing f n) = True"
| "data_pc p = False"

definition data_move :: "nat \<Rightarrow> trx_sys \<Rightarrow> trx_sys \<Rightarrow> bool" where
  "data_move t s s' \<longleftrightarrow> data_pc (tpcs s ! t) \<and> trx_access t s = Inr s'"

definition service_step :: "trx_sys \<Rightarrow> trx_sys \<Rightarrow> bool" where
  "service_step s s' \<longleftrightarrow>
     (\<exists>t < n_threads s. lock_move t s s' \<or> data_move t s s'
        \<or> (\<exists>i j k. can_pick t i j k s \<and> s' = pick_step t i j k s))"

text \<open>
  The interface between the lock managers and the transactions: a machine with an invariant
  that gives the contract, and steps that are of the three kinds.
\<close>

locale lock_service = machine_invariant +
  fixes view :: "'a \<Rightarrow> trx_sys"
  assumes view_start: "init s \<Longrightarrow> trx_start (view s)"
    and view_two_phase: "inv s \<Longrightarrow> two_phase (view s)"
    and view_step: "inv s \<Longrightarrow> step s t \<Longrightarrow> service_step (view s) (view t)"

end
