(* ===== verification/Replay.thy ===== *)
theory Replay
  imports CommitLog
begin

text \<open>
  The check of the logs against its specification: a serial execution of the transactions,
  on a function from records to values. The replay on the vector agrees with it.
\<close>

section \<open>Serial execution\<close>

text \<open>The effect of one transaction: \<open>Rj += Ri + 1\<close>, then \<open>Rk -= Ri\<close>.\<close>

definition run_serially :: "log \<Rightarrow> (nat \<Rightarrow> i64) \<Rightarrow> nat \<Rightarrow> i64" where
  "run_serially e db =
     (let i = nat (log_i e); j = nat (log_j e); k = nat (log_k e); db1 = db(j := db j + (db i + 1))
      in db1(k := db1 k - db1 i))"

definition logged_values :: "log \<Rightarrow> (nat \<Rightarrow> i64) \<Rightarrow> bool" where
  "logged_values e db \<longleftrightarrow>
     log_vi e = sint (db (nat (log_i e))) \<and> log_vj e = sint (db (nat (log_j e)))
     \<and> log_vk e = sint (db (nat (log_k e)))"

definition serial_db :: "log list \<Rightarrow> nat \<Rightarrow> i64" where
  "serial_db es = fold run_serially es (\<lambda>r. 100)"

text \<open>The values of every entry are those its transaction leaves in the serial execution.\<close>

fun serial_from :: "log list \<Rightarrow> (nat \<Rightarrow> i64) \<Rightarrow> bool" where
  "serial_from [] db \<longleftrightarrow> True"
| "serial_from (e # es) db \<longleftrightarrow> logged_values e (run_serially e db) \<and> serial_from es (run_serially e db)"

lemma serial_from_snoc:
  "serial_from (es @ [e]) db \<longleftrightarrow> serial_from es db \<and> logged_values e (run_serially e (fold run_serially es db))"
  by (induction es arbitrary: db) auto

lemma serial_db_snoc: "serial_db (es @ [e]) = run_serially e (serial_db es)"
  by (simp add: serial_db_def)

section \<open>The check\<close>

definition log_in_range :: "nat \<Rightarrow> log \<Rightarrow> bool" where
  "log_in_range n e \<longleftrightarrow> (\<forall>r \<in> {log_i e, log_j e, log_k e}. 1 \<le> r \<and> r \<le> int n)"

text \<open>The vector \<open>t\<close> holds the values of the records \<open>1\<close> to \<open>n\<close>, record \<open>r\<close> at index \<open>r - 1\<close>.\<close>

definition table_of :: "nat \<Rightarrow> (nat \<Rightarrow> i64) \<Rightarrow> i64 list" where
  "table_of n db = map db [1..<n + 1]"

lemma table_of_length [simp]: "length (table_of n db) = n"
  by (simp add: table_of_def)

lemma table_of_nth: "1 \<le> r \<Longrightarrow> r \<le> int n \<Longrightarrow> table_of n db ! nat (r - 1) = db (nat r)"
  by (simp add: table_of_def nat_diff_distrib' nth_upt del: upt_Suc)

lemma table_of_upd:
  assumes "1 \<le> r" and "r \<le> int n"
  shows "(table_of n db)[nat (r - 1) := v] = table_of n (db(nat r := v))"
proof (rule nth_equalityI)
  fix p assume "p < length ((table_of n db)[nat (r - 1) := v])"
  then have p: "p < n" by simp
  have "Suc p = nat r \<longleftrightarrow> p = nat (r - 1)" using assms by auto
  then show "(table_of n db)[nat (r - 1) := v] ! p = table_of n (db(nat r := v)) ! p"
    using p by (auto simp: table_of_def nth_list_update simp del: upt_Suc)
qed simp

lemma replay_entry_table:
  assumes "log_in_range n e"
  shows "replay_entry e (table_of n db) = Inr (table_of n (run_serially e db))"
proof -
  have r: "1 \<le> log_i e" "log_i e \<le> int n" "1 \<le> log_j e" "log_j e \<le> int n" "1 \<le> log_k e" "log_k e \<le> int n"
    using assms by (auto simp: log_in_range_def)
  then show ?thesis
    by (simp add: replay_entry_def run_serially_def Let_def table_of_nth table_of_upd)
qed

lemma entry_matches_table:
  "log_in_range n e \<Longrightarrow> entry_matches e (table_of n db) \<longleftrightarrow> logged_values e db"
  by (auto simp: entry_matches_def logged_values_def log_in_range_def table_of_nth)

lemma check_logs_serial:
  "\<forall>e \<in> set es. log_in_range n e \<Longrightarrow> check_logs es (table_of n db) = Inr (serial_from es db)"
  by (induction es arbitrary: db) (simp_all add: replay_entry_table entry_matches_table)

lemma replicate_table: "replicate n 100 = table_of n (\<lambda>r. 100)"
  by (simp add: table_of_def map_replicate_const)

end
