(* ===== verification/TrxValues.thy ===== *)
theory TrxValues
  imports TwoPhase Replay
begin

text \<open>
  The values of the records: each is the one the serial execution of the commits so far
  gives, plus the changes of the transactions that have neither committed nor been rolled
  back. What a transaction has read stays the serial value until it commits, because it
  still holds the lock; so does what it has written.
\<close>

section \<open>Changes not yet committed\<close>

text \<open>Whether the change of \<open>Rj\<close>, of \<open>Rk\<close> is in the record but neither committed nor undone.\<close>

fun j_pending :: "tpc \<Rightarrow> nat \<Rightarrow> bool" where
  "j_pending (Calling st) len \<longleftrightarrow> st = Update_k"
| "j_pending (Waiting st a) len \<longleftrightarrow> st = Update_k"
| "j_pending (Using st a) len \<longleftrightarrow> st = Update_k"
| "j_pending Commit_call len \<longleftrightarrow> True"
| "j_pending (Undoing f n) len \<longleftrightarrow> len = 3 \<and> n \<le> 1"
| "j_pending (Undo_release f n) len \<longleftrightarrow> len = 3 \<and> n = 0"
| "j_pending p len \<longleftrightarrow> False"

fun k_pending :: "tpc \<Rightarrow> bool" where
  "k_pending Commit_call \<longleftrightarrow> True"
| "k_pending (Undoing f n) \<longleftrightarrow> f \<and> n \<le> 2"
| "k_pending (Undo_release f n) \<longleftrightarrow> f \<and> n \<le> 1"
| "k_pending p \<longleftrightarrow> False"

text \<open>Whether the transaction has read \<open>Ri\<close> and not yet decided.\<close>

fun has_read :: "tpc \<Rightarrow> bool" where
  "has_read (Calling st) \<longleftrightarrow> st \<noteq> Find_i"
| "has_read (Waiting st a) \<longleftrightarrow> st \<noteq> Find_i"
| "has_read (Using st a) \<longleftrightarrow> st \<noteq> Find_i"
| "has_read Commit_call \<longleftrightarrow> True"
| "has_read p \<longleftrightarrow> False"

definition pending :: "tpc \<Rightarrow> nat \<Rightarrow> locals \<Rightarrow> nat \<Rightarrow> i64" where
  "pending p len l r =
     (if j_pending p len \<and> r = rec_j l then record_i l + 1 else 0)
     + (if k_pending p \<and> r = rec_k l then - record_i l else 0)"

definition pend :: "trx_sys \<Rightarrow> nat \<Rightarrow> nat \<Rightarrow> i64" where
  "pend s u r = pending (tpcs s ! u) (length (deque u (mem s))) (locs s ! u) r"

definition thread_valued :: "trx_sys \<Rightarrow> nat \<Rightarrow> bool" where
  "thread_valued s t \<longleftrightarrow>
     (has_read (tpcs s ! t) \<longrightarrow> record_i (locs s ! t) = serial_db (committed s) (rec_i (locs s ! t)))
     \<and> (j_pending (tpcs s ! t) (length (deque t (mem s)))
          \<longrightarrow> diff (lk (mem s) (deque t (mem s) ! 1)) = record_i (locs s ! t) + 1)
     \<and> (k_pending (tpcs s ! t) \<longrightarrow> diff (lk (mem s) (deque t (mem s) ! 2)) = - record_i (locs s ! t))"

definition valued :: "trx_sys \<Rightarrow> bool" where
  "valued s \<longleftrightarrow>
     (\<forall>r. lock_table (mem s) r \<noteq> None
        \<longrightarrow> value_at (mem s) r = serial_db (committed s) r + (\<Sum>u<n_threads s. pend s u r))
     \<and> (\<forall>t < n_threads s. thread_valued s t)"

section \<open>Exclusion\<close>

lemma j_pending_held:
  assumes "two_phase s" and "t < n_threads s" and "j_pending (tpcs s ! t) (length (deque t (mem s)))"
  shows "held_at s t 1"
proof -
  have p: "tpcs s ! t \<noteq> Picking" using assms(3) by auto
  show ?thesis using two_phase_thread(2) [OF assms(1,2) p] assms(2,3) p
    by (cases "(tpcs s ! t, length (deque t (mem s)))" rule: j_pending.cases)
       (auto simp: held_at_def granted_to_def count_near_def, (case_tac f; simp)+)
qed

lemma k_pending_held:
  assumes "two_phase s" and "t < n_threads s" and "k_pending (tpcs s ! t)"
  shows "held_at s t 2"
proof -
  have p: "tpcs s ! t \<noteq> Picking" using assms(3) by auto
  show ?thesis using two_phase_thread(2) [OF assms(1,2) p] assms(2,3) p
    by (cases "tpcs s ! t" rule: k_pending.cases) (auto simp: held_at_def granted_to_def count_near_def)
qed

lemma has_read_held:
  assumes "two_phase s" and "t < n_threads s" and "has_read (tpcs s ! t)"
  shows "held_at s t 0"
proof -
  have p: "tpcs s ! t \<noteq> Picking" using assms(3) by auto
  have "st \<noteq> Find_i \<Longrightarrow> 0 < stage_no st" for st by (cases st) simp_all
  then show ?thesis using two_phase_thread(2) [OF assms(1,2) p] assms(2,3) p
    by (cases "tpcs s ! t" rule: has_read.cases) (auto simp: held_at_def granted_to_def count_near_def)
qed

lemma wanted_nth [simp]:
  "wanted l ! 0 = (rec_i l, SHARED)" "wanted l ! Suc 0 = (rec_j l, EXCLUSIVE)" "wanted l ! 2 = (rec_k l, EXCLUSIVE)"
  by (simp_all add: wanted_def)

lemma wanted_length [simp]: "length (wanted l) = 3"
  by (simp add: wanted_def)

text \<open>No other thread has a pending change on a record whose lock is held.\<close>

lemma pend_other:
  assumes inv: "two_phase s" and t: "held_at s t k" and u: "u < n_threads s" "u \<noteq> t"
  shows "pend s u (fst (wanted (locs s ! t) ! k)) = 0"
proof -
  have "\<not> (j_pending (tpcs s ! u) (length (deque u (mem s))) \<and> fst (wanted (locs s ! t) ! k) = rec_j (locs s ! u))"
    using held_compatible [OF inv t j_pending_held [OF inv u(1)]] u(2) by auto
  moreover have "\<not> (k_pending (tpcs s ! u) \<and> fst (wanted (locs s ! t) ! k) = rec_k (locs s ! u))"
    using held_compatible [OF inv t k_pending_held [OF inv u(1)]] u(2) by auto
  ultimately show ?thesis by (auto simp: pend_def pending_def)
qed

section \<open>A step of one thread\<close>

text \<open>What a step of thread \<open>t\<close> leaves alone: the other threads, and the \<open>diff\<close> of their locks.\<close>

definition others_same :: "nat \<Rightarrow> trx_sys \<Rightarrow> trx_sys \<Rightarrow> bool" where
  "others_same t s s' \<longleftrightarrow> n_threads s' = n_threads s
     \<and> (\<forall>u. u \<noteq> t \<longrightarrow> tpcs s' ! u = tpcs s ! u \<and> locs s' ! u = locs s ! u \<and> deque u (mem s') = deque u (mem s)
          \<and> (\<forall>k. held_at s u k \<longrightarrow> diff (lk (mem s') (deque u (mem s) ! k)) = diff (lk (mem s) (deque u (mem s) ! k))))
     \<and> (\<forall>r. lock_table (mem s') r = None \<longleftrightarrow> lock_table (mem s) r = None)"

definition stepped :: "nat \<Rightarrow> trx_sys \<Rightarrow> trx_sys \<Rightarrow> bool" where
  "stepped t s s' \<longleftrightarrow> valued s' \<and> others_same t s s'"

lemma sum_one:
  fixes f g :: "nat \<Rightarrow> i64"
  assumes "t < n" and "\<And>u. u < n \<Longrightarrow> u \<noteq> t \<Longrightarrow> g u = f u"
  shows "(\<Sum>u<n. g u) - g t = (\<Sum>u<n. f u) - f t"
proof -
  have "(\<Sum>u<n. g u) = g t + (\<Sum>u\<in>{..<n} - {t}. g u)" "(\<Sum>u<n. f u) = f t + (\<Sum>u\<in>{..<n} - {t}. f u)"
    using assms(1) by (simp_all add: sum.remove)
  moreover have "(\<Sum>u\<in>{..<n} - {t}. g u) = (\<Sum>u\<in>{..<n} - {t}. f u)" using assms(2) by (intro sum.cong) auto
  ultimately show ?thesis by simp
qed

lemma valued_step:
  assumes inv: "two_phase s" and old: "valued s" and t: "t < n_threads s" and same: "others_same t s s'"
    and own: "\<And>r. lock_table (mem s) r \<noteq> None \<Longrightarrow>
      value_at (mem s') r - serial_db (committed s') r - pend s' t r = value_at (mem s) r - serial_db (committed s) r - pend s t r"
    and reads: "\<And>u. u < n_threads s \<Longrightarrow> u \<noteq> t \<Longrightarrow> has_read (tpcs s ! u)
      \<Longrightarrow> serial_db (committed s') (rec_i (locs s ! u)) = serial_db (committed s) (rec_i (locs s ! u))"
    and me: "thread_valued s' t"
  shows "stepped t s s'"
proof -
  have n: "n_threads s' = n_threads s" using same by (simp add: others_same_def)
  have other: "tpcs s' ! u = tpcs s ! u" "locs s' ! u = locs s ! u" "deque u (mem s') = deque u (mem s)"
    "\<And>k. held_at s u k \<Longrightarrow> diff (lk (mem s') (deque u (mem s) ! k)) = diff (lk (mem s) (deque u (mem s) ! k))"
    if "u \<noteq> t" for u using same that by (simp_all add: others_same_def)
  have "value_at (mem s') r = serial_db (committed s') r + (\<Sum>u<n_threads s'. pend s' u r)"
    if r: "lock_table (mem s') r \<noteq> None" for r
  proof -
    have "lock_table (mem s') r = None \<longleftrightarrow> lock_table (mem s) r = None"
      using same by (simp only: others_same_def)
    then have r': "lock_table (mem s) r \<noteq> None" using r by blast
    have "(\<Sum>u<n_threads s. pend s' u r) - pend s' t r = (\<Sum>u<n_threads s. pend s u r) - pend s t r"
      by (rule sum_one [OF t]) (simp add: pend_def other)
    then have sums: "(\<Sum>u<n_threads s. pend s' u r) = (\<Sum>u<n_threads s. pend s u r) - pend s t r + pend s' t r"
      by (simp only: diff_eq_eq)
    have was: "value_at (mem s) r = serial_db (committed s) r + (\<Sum>u<n_threads s. pend s u r)"
      using old r' by (simp add: valued_def)
    have "value_at (mem s') r = value_at (mem s) r - serial_db (committed s) r - pend s t r + pend s' t r + serial_db (committed s') r"
      using own [OF r'] by (simp only: diff_eq_eq)
    then show ?thesis unfolding was sums n by simp
  qed
  moreover have "thread_valued s' u" if "u < n_threads s'" for u
  proof (cases "u = t")
    case False
    have u: "u < n_threads s" using that n by simp
    note o = other [OF False]
    have "thread_valued s u" using old u by (simp add: valued_def)
    then show ?thesis
      using o(1-3) o(4) [OF j_pending_held [OF inv u]] o(4) [OF k_pending_held [OF inv u]] reads [OF u False]
      by (simp add: thread_valued_def)
  qed (use me in simp)
  ultimately have "valued s'" by (simp add: valued_def)
  then show ?thesis using same by (simp add: stepped_def)
qed

text \<open>A step that changes no value, commits nothing and has the same pending changes.\<close>

lemma valued_quiet:
  assumes inv: "two_phase s" and old: "valued s" and t: "t < n_threads s" and same: "others_same t s s'"
    and vals: "\<And>r. value_at (mem s') r = value_at (mem s) r" and com: "committed s' = committed s"
    and pend: "\<And>r. pend s' t r = pend s t r" and me: "thread_valued s' t"
  shows "stepped t s s'"
  by (rule valued_step [OF inv old t same]) (simp_all add: vals com pend me)

text \<open>Keeping the values: no change of the table of values.\<close>

lemma value_at_same: "values_of m' = values_of m \<Longrightarrow> value_at m' r = value_at m r"
proof -
  assume "values_of m' = values_of m"
  then have "map_option record_value (lock_table m' r) = map_option record_value (lock_table m r)"
    by (metis values_of_def)
  then show ?thesis by (cases "lock_table m r"; cases "lock_table m' r") (simp_all add: value_at_def)
qed

lemma value_at_set:
  "value_at (set_value r v m) r' = (if r' = r \<and> lock_table m r \<noteq> None then v else value_at m r')"
  by (auto simp: value_at_def set_value_def upd_node_def split: option.splits)

lemma value_at_upd_lock [simp]: "value_at (upd_lock a f m) r = value_at m r"
  by (simp add: value_at_def)

section \<open>The steps\<close>

text \<open>A step of one thread that changes no lock's \<open>diff\<close> and no value.\<close>

lemma move_valued:
  assumes inv: "two_phase s" and old: "valued s" and t: "t < n_threads s"
    and s': "tpcs s' = (tpcs s)[t := p]" "locs s' = (locs s)[t := l]" "committed s' = committed s"
    and dq: "\<And>u. u \<noteq> t \<Longrightarrow> deque u (mem s') = deque u (mem s)"
    and d: "\<And>b. diff (lk (mem s') b) = diff (lk (mem s) b)"
    and vals: "values_of (mem s') = values_of (mem s)"
    and j: "j_pending p (length (deque t (mem s'))) = j_pending (tpcs s ! t) (length (deque t (mem s)))"
    and k: "k_pending p = k_pending (tpcs s ! t)"
    and own: "j_pending (tpcs s ! t) (length (deque t (mem s))) \<or> k_pending (tpcs s ! t)
      \<Longrightarrow> l = locs s ! t \<and> deque t (mem s') = deque t (mem s)"
    and reads: "has_read p \<Longrightarrow> record_i l = serial_db (committed s) (rec_i l)"
  shows "stepped t s s'"
proof -
  have len: "length (locs s) = length (tpcs s)" using inv by (simp add: two_phase_def)
  have same: "others_same t s s'"
    using d dq values_of_None [OF vals] by (simp add: others_same_def s')
  have l: "locs s' ! t = l" "tpcs s' ! t = p" using t len by (simp_all add: s')
  have "thread_valued s t" using old t by (simp add: valued_def)
  then have me: "thread_valued s' t" using j k own reads d by (auto simp: thread_valued_def l s'(3))
  have "pend s' t r = pend s t r" for r using j k own by (auto simp: pend_def pending_def l)
  then show ?thesis
    by (intro valued_quiet [OF inv old t same _ s'(3) _ me]) (simp_all add: value_at_same [OF vals])
qed

text \<open>A step of the lock manager: the program point it returns to has the same pending changes.\<close>

lemma returns_pending:
  assumes "call_returns p ds' p'" and "count_near p len" and "(\<forall>st. p \<noteq> Calling st) \<longrightarrow> length ds' = len"
  shows "j_pending p' (length ds') = j_pending p len" "k_pending p' = k_pending p" "has_read p' \<longrightarrow> has_read p"
proof -
  have "j_pending p' (length ds') = j_pending p len \<and> k_pending p' = k_pending p \<and> (has_read p' \<longrightarrow> has_read p)"
  proof (cases p)
    case (Calling st)
    then have "ds' \<noteq> []" using assms(1) by auto
    then show ?thesis using assms Calling by (cases st) (auto simp: undo_from_def)
  next
    case (Undo_release f n)
    then show ?thesis using assms by (cases f) (auto simp: undo_from_def count_near_def)
  qed (use assms in \<open>auto simp: commit_from_def\<close>)
  then show "j_pending p' (length ds') = j_pending p len" "k_pending p' = k_pending p" "has_read p' \<longrightarrow> has_read p" by simp_all
qed

lemma lock_move_valued:
  assumes inv: "two_phase s" and old: "valued s" and t: "t < n_threads s" and move: "lock_move t s s'"
  shows "stepped t s s'"
proof -
  let ?p = "tpcs s ! t" and ?len = "length (deque t (mem s))"
  obtain l where l: "deque t (mem s') = deque t (mem s) @ l" "l \<noteq> [] \<longrightarrow> (\<exists>st. ?p = Calling st)"
    using move by (auto simp: lock_move_def)
  have s': "locs s' = locs s" "committed s' = committed s" "values_of (mem s') = values_of (mem s)"
    "\<And>u. u \<noteq> t \<Longrightarrow> deque u (mem s') = deque u (mem s)"
    and d: "\<And>u k. held_at s u k \<Longrightarrow> diff (lk (mem s') (deque u (mem s) ! k)) = diff (lk (mem s) (deque u (mem s) ! k))"
    using move by (auto simp: lock_move_def same_data_def)
  obtain p where p: "tpcs s' = (tpcs s)[t := p]" "p = ?p \<or> call_returns ?p (deque t (mem s')) p"
    using move by (metis list_update_id lock_move_def)
  have near: "count_near ?p ?len" by (rule two_phase_thread(2) [OF inv t]) (use move in \<open>simp add: lock_move_def\<close>)
  have "j_pending ?p (length (deque t (mem s'))) = j_pending ?p ?len" if "\<exists>st. ?p = Calling st" using that by auto
  then have same_p: "j_pending ?p (length (deque t (mem s'))) = j_pending ?p ?len" using l by (cases "l = []") auto
  have "(\<forall>st. ?p \<noteq> Calling st) \<longrightarrow> length (deque t (mem s')) = ?len" using l by auto
  then have pend: "j_pending p (length (deque t (mem s'))) = j_pending ?p ?len" "k_pending p = k_pending ?p" "has_read p \<longrightarrow> has_read ?p"
    using p(2) same_p returns_pending [OF _ near, of "deque t (mem s')" p] by auto
  have same: "others_same t s s'"
    using d values_of_None [OF s'(3)] s'(4) by (simp add: others_same_def s'(1) p(1))
  have nth: "deque t (mem s') ! k = deque t (mem s) ! k" if "held_at s t k" for k
    using held_in_deque [OF inv that] l(1) by (simp add: nth_append)
  have mine: "thread_valued s t" using old t by (simp add: valued_def)
  have me: "thread_valued s' t"
    using mine t pend d nth j_pending_held [OF inv t] k_pending_held [OF inv t]
    by (simp add: thread_valued_def p(1) s'(1,2))
  have "pend s' t r = pend s t r" for r
    using t pend by (simp add: pend_def pending_def p(1) s'(1))
  then show ?thesis
    by (intro valued_quiet [OF inv old t same _ s'(2) _ me]) (simp_all add: value_at_same [OF s'(3)])
qed

lemma Begin_frame:
  "u \<noteq> t \<Longrightarrow> deque u (Begin t m) = deque u m" "heap (Begin t m) = heap m" "values_of (Begin t m) = values_of m"
  by (simp_all add: Begin_memory values_of_def fun_eq_iff)
     (simp add: Begin_def GetTrxNode_def deque_def trx_of_def upd_trx_def)

lemma pick_valued:
  assumes inv: "two_phase s" and old: "valued s" and t: "t < n_threads s" and pick: "can_pick t i j k s"
  shows "stepped t s (pick_step t i j k s)"
  by (rule move_valued [OF inv old t, of _ "Calling Find_i" "(locs s ! t)\<lparr>rec_i := i, rec_j := j, rec_k := k\<rparr>"])
     (use pick in \<open>simp_all add: pick_step_def can_pick_def Begin_frame\<close>)

lemma read_back_valued:
  assumes inv: "two_phase s" and old: "valued s" and t: "t < n_threads s" "tpcs s ! t = Reading_back cid n rs vs"
  shows "stepped t s (go t (Releasing cid n rs' vs') (mem s) s)"
  by (rule move_valued [OF inv old t(1), of _ "Releasing cid n rs' vs'" "locs s ! t"]) (use t in simp_all)

lemma publish_valued:
  assumes inv: "two_phase s" and old: "valued s" and t: "t < n_threads s" "tpcs s ! t = Publishing cid rs vs"
  shows "stepped t s (publish t cid rs vs s)"
  by (rule move_valued [OF inv old t(1), of _ Picking "locs s ! t"]) (use t in \<open>simp_all add: publish_def\<close>)

lemma serial_read:
  assumes inv: "two_phase s" and old: "valued s" and held: "held_at s t k"
  defines "r \<equiv> fst (wanted (locs s ! t) ! k)"
  assumes "pend s t r = 0" and "lock_table (mem s) r \<noteq> None"
  shows "value_at (mem s) r = serial_db (committed s) r"
proof -
  have "pend s u r = 0" if "u < n_threads s" for u
    using pend_other [OF inv held that] assms(5) by (cases "u = t") (simp_all add: r_def)
  then have "(\<Sum>u<n_threads s. pend s u r) = 0" by (intro sum.neutral) simp
  then show ?thesis using old assms(6) by (simp add: valued_def)
qed

lemma use_lock_valued:
  assumes inv: "two_phase s" and old: "valued s" and t: "t < n_threads s" "tpcs s ! t = Using st a"
    and step: "use_lock t st a s = Inr s'"
  shows "stepped t s s'"
proof -
  define l where "l = locs s ! t"
  define v where "v = value_at (mem s) (stage_record st l)"
  have pick: "tpcs s ! t \<noteq> Picking" using t(2) by simp
  note u = use_lock_kept [OF inv t]
  have a: "a = deque t (mem s) ! stage_no st" "lock_table (mem s) (stage_record st l) \<noteq> None" using u(2,4) by (simp_all add: l_def)
  have used: "s' = lock_used t st a s" using u(1) step by simp
  have cnt: "length (deque t (mem s)) = Suc (stage_no st)" by (rule u(3))
  have held: "held_at s t k" if "k \<le> stage_no st" for k using t pick cnt that by (simp add: held_at_def granted_to_def Let_def)
  have len: "length (locs s) = length (tpcs s)" using inv by (simp add: two_phase_def)
  have mine: "thread_valued s t" using old t(1) by (simp add: valued_def)
  show ?thesis
  proof (cases "st = Find_i")
    case True
    then have s': "s' = go t (Calling Update_j) (mem s) (s\<lparr>locs := (locs s)[t := l\<lparr>record_i := v\<rparr>]\<rparr>)"
      using used by (simp add: lock_used_def Let_def v_def l_def)
    have "pend s t (rec_i l) = 0" using t True by (simp add: pend_def pending_def)
    then have "v = serial_db (committed s) (rec_i l)"
      using serial_read [OF inv old held [of 0]] a(2) True by (simp add: l_def v_def)
    then show ?thesis
      by (intro move_valued [OF inv old t(1), of _ "Calling Update_j" "l\<lparr>record_i := v\<rparr>"]) (use t True in \<open>simp_all add: s'\<close>)
  next
    case False
    define d where "d = (if st = Update_j then record_i l + 1 else - record_i l)"
    define r where "r = stage_record st l"
    define m' where "m' = upd_lock a (\<lambda>x. x\<lparr>diff := d\<rparr>) (set_value r (v + d) (mem s))"
    define p where "p = (if st = Update_j then Calling Update_k else Commit_call)"
    define l' where "l' = (if st = Update_j then l\<lparr>record_j := v + d\<rparr> else l\<lparr>record_k := v + d\<rparr>)"
    have s': "s' = go t p m' (s\<lparr>locs := (locs s)[t := l']\<rparr>)"
      using used False by (cases st) (simp_all add: lock_used_def Let_def v_def l_def p_def l'_def m'_def d_def r_def)
    have l': "rec_i l' = rec_i l" "rec_j l' = rec_j l" "rec_k l' = rec_k l" "record_i l' = record_i l"
      by (simp_all add: l'_def)
    note p = p_def
    have dq: "deque w m' = deque w (mem s)" for w
      by (simp add: m'_def set_value_def deque_def trx_of_def)
    have fields: "mem s' = m'" "tpcs s' = (tpcs s)[t := p]" "locs s' = (locs s)[t := l']" "committed s' = committed s"
      by (simp_all add: s')
    have al: "a < length (heap (mem s))" using held_lock(1) [OF inv held [of "stage_no st"]] a(1) by simp
    have hp: "diff (lk m' b) = (if b = a then d else diff (lk (mem s) b))" for b
      using al by (simp add: m'_def set_value_def nth_upd)
    have tab: "lock_table m' r' = None \<longleftrightarrow> lock_table (mem s) r' = None" for r'
      by (simp add: m'_def set_value_def)
    have other: "deque w (mem s) ! k \<noteq> a" if "held_at s w k" "w \<noteq> t" for w k
      using held_lock(3) [OF inv that(1)] held_lock(3) [OF inv held [of "stage_no st"]] a(1) that(2) by auto
    have same: "others_same t s s'"
      using dq hp tab other by (auto simp: others_same_def fields)
    have me': "tpcs s' ! t = p" "locs s' ! t = l'" using t len by (simp_all add: fields)
    have distinct: "rec_j l \<noteq> rec_k l"
      using kept_records [OF inv t(1)] t(2) by (simp add: records_ok_def wanted_def l_def idle_pc_def)
    have va: "value_at m' r' = (if r' = r then v + d else value_at (mem s) r')" for r'
      using a(2) by (simp add: m'_def value_at_set r_def)
    have "pend s' t r' = pend s t r' + (if r' = r then d else 0)" for r'
    proof (cases st)
      case Update_j
      show ?thesis unfolding pend_def pending_def me' t(2) p d_def r_def l' l_def [symmetric] Update_j by simp
    next
      case Update_k
      show ?thesis unfolding pend_def pending_def me' t(2) p d_def r_def l' l_def [symmetric] Update_k
        using distinct by simp
    qed (use False in simp)
    then have own: "value_at m' r' - serial_db (committed s') r' - pend s' t r' = value_at (mem s) r' - serial_db (committed s) r' - pend s t r'"
      for r' unfolding va fields(4) by (simp add: v_def r_def)
    have "thread_valued s' t"
    proof (cases st)
      case Update_j
      then show ?thesis using mine t(2) a(1) hp l' cnt dq
        by (simp add: thread_valued_def fields(1,4) me' p d_def l_def [symmetric])
    next
      case Update_k
      have "deque t (mem s) ! 1 \<noteq> deque t (mem s) ! 2"
        using held_lock(4) [OF inv held [of 1]] held_lock(4) [OF inv held [of 2]] Update_k distinct by (auto simp: l_def)
      then show ?thesis using mine t(2) a(1) hp l' cnt dq Update_k
        by (simp add: thread_valued_def fields(1,4) me' p d_def l_def [symmetric])
    qed (use False in simp)
    then show ?thesis
      using valued_step [OF inv old t(1) same] own by (simp add: fields)
  qed
qed

lemma undo_next_valued:
  assumes inv: "two_phase s" and old: "valued s" and t: "t < n_threads s" "tpcs s ! t = Undoing f n"
    and step: "undo_next t f n s = Inr s'"
  shows "stepped t s s'"
proof -
  define l where "l = locs s ! t"
  define r where "r = fst (wanted l ! n)"
  define a where "a = deque t (mem s) ! n"
  define m' where "m' = undone t n l (mem s)"
  have m'_def: "m' = (if mode (lk (mem s) a) = EXCLUSIVE \<and> state (lk (mem s) a) \<noteq> OBSOLETE
    then set_value r (value_at (mem s) r + - diff (lk (mem s) a)) (mem s) else mem s)"
    by (simp add: m'_def undone_def a_def r_def Let_def)
  have s': "s' = go t (Undo_release f n) m' s"
    using undo_next_kept(1) [OF inv t] step by (simp add: m'_def undone_def Let_def l_def r_def a_def)
  note len = undo_next_kept(2-4) [OF inv t]
  have pick: "tpcs s ! t \<noteq> Picking" using t(2) by simp
  have slot: "slot_fine (mem s) (tpcs s ! t) l t (deque t (mem s)) n"
    using undo_next_kept(5) [OF inv t] by (simp add: l_def)
  have st: "state (lk (mem s) a) = expected (Undoing f n) (length (deque t (mem s))) n"
    and md: "mode (lk (mem s) a) = snd (wanted l ! n)"
    using slot t(2) by (auto simp: slot_fine_def a_def dest: arg_cong [of _ _ snd])
  have "lock_table (mem s) (record_id (lk (mem s) a)) \<noteq> None"
    using slot_record [OF slot] kept_records [OF inv t(1)] t(2) len by (auto simp: l_def a_def idle_pc_def)
  then have tab: "lock_table (mem s) r \<noteq> None"
    using slot by (auto simp: slot_fine_def r_def a_def dest: arg_cong [of _ _ fst])
  have mine: "thread_valued s t" using old t(1) by (simp add: valued_def)
  have dq: "deque u m' = deque u (mem s)" for u by (simp add: m'_def set_value_def deque_def trx_of_def)
  have hp: "heap m' = heap (mem s)" by (simp add: m'_def set_value_def)
  have tabs: "lock_table m' r' = None \<longleftrightarrow> lock_table (mem s) r' = None" for r' by (simp add: m'_def set_value_def)
  have same: "others_same t s s'" using dq hp tabs by (simp add: others_same_def s')
  have me: "thread_valued s' t" using mine t dq hp by (auto simp: thread_valued_def s')
  have distinct: "rec_j l \<noteq> rec_k l"
    using kept_records [OF inv t(1)] t(2) by (simp add: records_ok_def wanted_def l_def idle_pc_def)
  have n: "n = 0 \<or> n = 1 \<or> n = 2" using len by linarith
  have "value_at m' r' - pend s' t r' = value_at (mem s) r' - pend s t r'" for r'
  proof (cases "mode (lk (mem s) a) = EXCLUSIVE \<and> state (lk (mem s) a) \<noteq> OBSOLETE")
    case False
    then have m: "m' = mem s" unfolding m'_def by (rule if_not_P)
    have "\<not> (n = 1 \<and> length (deque t (mem s)) = 3)" "\<not> (n = 2 \<and> f)"
      using False st md len by (cases f; auto)+
    then have "pend s' t r' = pend s t r'" using n t len by (auto simp: pend_def pending_def s' dq l_def)
    then show ?thesis by (simp add: m)
  next
    case True
    have n1: "n \<noteq> 0" using True md by (cases "n = 0") simp_all
    have full: "length (deque t (mem s)) = 3" and f: "n = 2 \<longrightarrow> f"
      using True st len n n1 by (cases f; auto split: if_splits)+
    have d: "diff (lk (mem s) a) = (if n = 1 then record_i l + 1 else - record_i l)"
      using mine n n1 f t(2) full by (auto simp: thread_valued_def a_def l_def)
    have r: "r = (if n = 1 then rec_j l else rec_k l)" using n n1 by (auto simp: r_def)
    have m: "value_at m' r' = (if r' = r then value_at (mem s) r - diff (lk (mem s) a) else value_at (mem s) r')"
      using True tab by (simp add: m'_def value_at_set)
    have "pend s' t r' = pend s t r' - (if r' = r then diff (lk (mem s) a) else 0)"
      using n n1 f t full dq distinct unfolding d r
      by (auto simp: pend_def pending_def s' l_def [symmetric])
    then show ?thesis unfolding m by simp
  qed
  then have "value_at m' r' - serial_db (committed s') r' - pend s' t r' = value_at (mem s) r' - serial_db (committed s) r' - pend s t r'"
    for r' by (simp add: s' cancel_ab_semigroup_add_class.diff_right_commute [of _ "serial_db (committed s) r'"])
  then show ?thesis using valued_step [OF inv old t(1) same _ _ me] by (simp add: s')
qed

text \<open>The serial value of a record whose lock another thread holds is not changed by a commit.\<close>

definition commit_entry :: "nat \<Rightarrow> trx_sys \<Rightarrow> log" where
  "commit_entry t s =
     (let l = locs s ! t; m = mem s in
      \<lparr>commit_id = sint (global_execution_count m + 1), log_i = int (rec_i l), log_j = int (rec_j l), log_k = int (rec_k l),
       log_vi = sint (value_at m (rec_i l)), log_vj = sint (value_at m (rec_j l)), log_vk = sint (value_at m (rec_k l))\<rparr>)"

lemma take_commit_id_cases:
  assumes inv: "two_phase s" and t: "t < n_threads s" "tpcs s ! t = Commit_call"
  defines "c \<equiv> global_execution_count (mem s) + 1"
  shows "mem (take_commit_id t s) = (mem s)\<lparr>global_execution_count := c\<rparr>"
    "locs (take_commit_id t s) = locs s"
    "files (take_commit_id t s) = open_append (thread_file t (mem s)) (files s)"
    "tpcs (take_commit_id t s) = (tpcs s)[t := if last_global_execution_order (mem s) <s c then Undoing True 0 else Reading_back c 0 [] []]"
    "committed (take_commit_id t s) = (if last_global_execution_order (mem s) <s c then committed s else committed s @ [commit_entry t s])"
    "writers (take_commit_id t s) = (if last_global_execution_order (mem s) <s c then writers s else writers s @ [t])"
proof -
  have len: "length (deque t (mem s)) = 3" by (rule commit_count [OF inv t])
  have dq: "deque t ((mem s)\<lparr>global_execution_count := c\<rparr>) = deque t (mem s)"
    "thread_file t ((mem s)\<lparr>global_execution_count := c\<rparr>) = thread_file t (mem s)"
    by (simp_all add: deque_def trx_of_def thread_file_def)
  have val: "(case lock_table (mem s) r of None \<Rightarrow> 0 | Some node \<Rightarrow> sint (record_value node)) = sint (value_at (mem s) r)" for r
    by (simp add: value_at_def split: option.splits)
  show "mem (take_commit_id t s) = (mem s)\<lparr>global_execution_count := c\<rparr>"
    "locs (take_commit_id t s) = locs s"
    "files (take_commit_id t s) = open_append (thread_file t (mem s)) (files s)"
    "tpcs (take_commit_id t s) = (tpcs s)[t := if last_global_execution_order (mem s) <s c then Undoing True 0 else Reading_back c 0 [] []]"
    "committed (take_commit_id t s) = (if last_global_execution_order (mem s) <s c then committed s else committed s @ [commit_entry t s])"
    "writers (take_commit_id t s) = (if last_global_execution_order (mem s) <s c then writers s else writers s @ [t])"
    using len dq by (simp_all add: take_commit_id_def Let_def c_def [symmetric] undo_from_def commit_from_def commit_entry_def val)
qed

lemma commit_serial:
  assumes inv: "two_phase s" and old: "valued s" and t: "t < n_threads s" "tpcs s ! t = Commit_call"
  shows "serial_db (committed s @ [commit_entry t s]) r = serial_db (committed s) r + pend s t r"
proof -
  define l where "l = locs s ! t"
  have "records_ok (mem s) l" using kept_records [OF inv t(1)] t(2) by (simp add: idle_pc_def l_def)
  then have d: "rec_i l \<noteq> rec_j l" "rec_i l \<noteq> rec_k l" "rec_j l \<noteq> rec_k l" by (simp_all add: records_ok_def wanted_def)
  have "record_i l = serial_db (committed s) (rec_i l)"
    using old t by (simp add: valued_def thread_valued_def l_def)
  then show ?thesis
    unfolding serial_db_snoc pend_def pending_def t(2) l_def [symmetric]
    using d by (simp add: run_serially_def commit_entry_def Let_def l_def [symmetric])
qed

lemma held_value:
  assumes inv: "two_phase s" and old: "valued s" and held: "held_at s t k"
  defines "r \<equiv> fst (wanted (locs s ! t) ! k)"
  assumes "lock_table (mem s) r \<noteq> None"
  shows "value_at (mem s) r = serial_db (committed s) r + pend s t r"
proof -
  have "t < n_threads s" using held by (simp add: held_at_def Let_def)
  moreover have "(\<Sum>u<n_threads s. pend s u r) = (\<Sum>u<n_threads s. if u = t then pend s t r else 0)"
    by (rule sum.cong) (use pend_other [OF inv held] in \<open>simp_all add: r_def\<close>)
  ultimately have "(\<Sum>u<n_threads s. pend s u r) = pend s t r" by simp
  then show ?thesis using old assms(5) by (simp add: valued_def)
qed

lemma commit_valued:
  assumes inv: "two_phase s" and old: "valued s" and t: "t < n_threads s" "tpcs s ! t = Commit_call"
  shows "stepped t s (take_commit_id t s)"
proof -
  let ?c = "global_execution_count (mem s) + 1" and ?s' = "take_commit_id t s"
  note c = take_commit_id_cases [OF inv t]
  have len: "length (deque t (mem s)) = 3" by (rule commit_count [OF inv t])
  have dq: "deque u (mem ?s') = deque u (mem s)" for u by (simp add: c(1) deque_def trx_of_def)
  have vals: "values_of (mem ?s') = values_of (mem s)" "lock_table (mem ?s') = lock_table (mem s)"
    "heap (mem ?s') = heap (mem s)" by (simp_all add: c(1) values_of_def fun_eq_iff)
  show ?thesis
  proof (cases "last_global_execution_order (mem s) <s ?c")
    case True
    show ?thesis
      by (rule move_valued [OF inv old t(1), of _ "Undoing True 0" "locs s ! t"])
         (use True t len in \<open>simp_all add: c(2-) dq vals\<close>)
  next
    case False
    have same: "others_same t s ?s'" by (simp add: others_same_def c(2,4) dq vals)
    have pend: "pend ?s' t r = 0" for r using t(1) False by (simp add: pend_def pending_def c(4))
    have serial: "serial_db (committed ?s') r = serial_db (committed s) r + pend s t r" for r
      using commit_serial [OF inv old t] False by (simp add: c(5))
    have "serial_db (committed ?s') (rec_i (locs s ! u)) = serial_db (committed s) (rec_i (locs s ! u))"
      if "u < n_threads s" "u \<noteq> t" "has_read (tpcs s ! u)" for u
      using pend_other [OF inv has_read_held [OF inv that(1,3)] t(1)] that(2) serial by simp
    moreover have "thread_valued ?s' t" using t(1) False by (simp add: thread_valued_def c(4))
    ultimately show ?thesis
      using valued_step [OF inv old t(1) same] by (simp add: pend serial value_at_same [OF vals(1)])
  qed
qed

section \<open>Every access\<close>

lemma data_move_valued:
  assumes inv: "two_phase s" and old: "valued s" and t: "t < n_threads s" and move: "data_move t s s'"
  shows "stepped t s s'"
proof -
  have step: "trx_access t s = Inr s'" and pc: "data_pc (tpcs s ! t)" using move by (simp_all add: data_move_def)
  show ?thesis
  proof (cases "tpcs s ! t")
    case (Using st a)
    then show ?thesis using use_lock_valued [OF inv old t Using] step by (simp add: trx_access_def)
  next
    case Commit_call
    then show ?thesis using commit_valued [OF inv old t Commit_call] step by (auto simp: trx_access_def)
  next
    case (Reading_back cid n rs vs)
    then show ?thesis using read_back_valued [OF inv old t Reading_back] read_back_kept(1) [OF inv t Reading_back] step
      by (auto simp: trx_access_def)
  next
    case (Publishing cid rs vs)
    then show ?thesis using publish_valued [OF inv old t Publishing] step by (auto simp: trx_access_def)
  next
    case (Undoing f n)
    then show ?thesis using undo_next_valued [OF inv old t Undoing] step by (simp add: trx_access_def)
  qed (use pc in simp_all)
qed

lemma start_valued: "valued (trx_sys_new n_thr n_rec last_id d)"
proof -
  let ?s = "trx_sys_new n_thr n_rec last_id d"
  have p: "tpcs ?s ! t = Picking" if "t < n_threads ?s" for t using that by (simp add: trx_sys_new_def)
  have "pend ?s t r = 0" if "t < n_threads ?s" for t r using p [OF that] by (simp add: pend_def pending_def)
  then have "(\<Sum>u<n_threads ?s. pend ?s u r) = 0" for r by (intro sum.neutral) simp
  moreover have "committed ?s = []" by (simp add: trx_sys_new_def)
  ultimately show ?thesis using p
    by (auto simp: valued_def thread_valued_def value_at_def start_memory serial_db_def LockTableNode_new_def split: if_splits)
qed

end
