(* ===== verification/TrxCommits.thy ===== *)
theory TrxCommits
  imports TrxValues LogText "HOL-Library.Multiset"
begin

text \<open>
  The commits: their ids are 1, 2, 3, ... up to the last one, each is logged with the values
  the serial execution gives its records, and each thread's file holds the lines of its
  published commits in their order. A commit in flight keeps the values it will print,
  because it reads every record back before it releases its lock.
\<close>

section \<open>The invariant\<close>

fun failed_commit :: "tpc \<Rightarrow> bool" where
  "failed_commit (Undoing f n) \<longleftrightarrow> f"
| "failed_commit (Undo_release f n) \<longleftrightarrow> f"
| "failed_commit Finished \<longleftrightarrow> True"
| "failed_commit p \<longleftrightarrow> False"

text \<open>A commit in flight: its id, how many records were read back, the two queues.\<close>

fun queues :: "tpc \<Rightarrow> (i32 \<times> nat \<times> nat list \<times> i64 list) option" where
  "queues (Reading_back cid n rs vs) = Some (cid, n, rs, vs)"
| "queues (Releasing cid n rs vs) = Some (cid, Suc n, rs, vs)"
| "queues (Publishing cid rs vs) = Some (cid, 3, rs, vs)"
| "queues p = None"

definition entries_of :: "nat \<Rightarrow> trx_sys \<Rightarrow> log list" where
  "entries_of t s = map fst (filter (\<lambda>(e, w). w = t) (zip (committed s) (writers s)))"

definition printed :: "nat \<Rightarrow> trx_sys \<Rightarrow> log list" where
  "printed t s = (if queues (tpcs s ! t) = None then entries_of t s else butlast (entries_of t s))"

definition log_values :: "log \<Rightarrow> int list" where
  "log_values e = [log_vi e, log_vj e, log_vk e]"

definition writing_ok :: "trx_sys \<Rightarrow> nat \<Rightarrow> bool" where
  "writing_ok s t \<longleftrightarrow>
     (case queues (tpcs s ! t) of None \<Rightarrow> True | Some (cid, n, rs, vs) \<Rightarrow>
        (let e = last (entries_of t s); ks = map fst (wanted (locs s ! t)) in
         entries_of t s \<noteq> [] \<and> sint cid = commit_id e \<and> [log_i e, log_j e, log_k e] = map int ks
         \<and> rs = take n ks \<and> map sint vs = take n (log_values e)
         \<and> (\<forall>k < 3. kept_from (tpcs s ! t) 3 \<le> k \<longrightarrow> sint (value_at (mem s) (ks ! k)) = log_values e ! k)))"

definition failures :: "trx_sys \<Rightarrow> nat set" where
  "failures s = {t. t < n_threads s \<and> failed_commit (tpcs s ! t)}"

text \<open>The commit ids and the count of executions.\<close>

definition ids_ok :: "trx_sys \<Rightarrow> bool" where
  "ids_ok s \<longleftrightarrow>
     length (writers s) = length (committed s)
     \<and> (\<forall>p < length (committed s). commit_id (committed s ! p) = int p + 1)
     \<and> int (length (committed s)) + int (card (failures s)) = sint (global_execution_count (mem s))
     \<and> int (length (committed s)) \<le> sint (last_global_execution_order (mem s))
     \<and> (failures s \<noteq> {} \<longrightarrow> int (length (committed s)) = sint (last_global_execution_order (mem s)))
     \<and> sint (last_global_execution_order (mem s)) + int (n_threads s) < 2 ^ 31"

definition entries_ok :: "trx_sys \<Rightarrow> bool" where
  "entries_ok s \<longleftrightarrow> serial_from (committed s) (\<lambda>r. 100)
     \<and> (\<forall>e \<in> set (committed s). log_in_range (record_count (mem s)) e \<and> log_fits e)
     \<and> (\<forall>r. lock_table (mem s) r \<noteq> None \<longleftrightarrow> r \<in> {1..record_count (mem s)}) \<and> record_count (mem s) < 2 ^ 31"

text \<open>The threads with a node, in the order of their numbers.\<close>

definition numbers_ok :: "trx_sys \<Rightarrow> nat list \<Rightarrow> bool" where
  "numbers_ok s ts \<longleftrightarrow> distinct ts \<and> set ts = dom (number_of (mem s))
     \<and> (\<forall>k < length ts. number_of (mem s) (ts ! k) = Some (word_of_nat (k + 1)))
     \<and> thread_number (mem s) = word_of_nat (length ts + 1) \<and> set (writers s) \<subseteq> set ts
     \<and> set ts \<subseteq> {..<n_threads s}"

definition file_ok :: "trx_sys \<Rightarrow> nat \<Rightarrow> i32 \<Rightarrow> bool" where
  "file_ok s t n \<longleftrightarrow>
     (case files s (file_name n) of
        None \<Rightarrow> entries_of t s = [] \<and> queues (tpcs s ! t) = None \<and> \<not> failed_commit (tpcs s ! t)
      | Some c \<Rightarrow> c = concat (map log_line (printed t s)))"

definition files_ok :: "trx_sys \<Rightarrow> bool" where
  "files_ok s \<longleftrightarrow> (\<forall>t n. number_of (mem s) t = Some n \<longrightarrow> file_ok s t n)
     \<and> (\<forall>f \<in> dom (files s). \<exists>t n. number_of (mem s) t = Some n \<and> f = file_name n)"

definition logged :: "trx_sys \<Rightarrow> nat list \<Rightarrow> bool" where
  "logged s ts \<longleftrightarrow> ids_ok s \<and> entries_ok s \<and> numbers_ok s ts \<and> files_ok s \<and> (\<forall>t < n_threads s. writing_ok s t)"

section \<open>Steps that touch no log\<close>

definition same_log :: "trx_sys \<Rightarrow> trx_sys \<Rightarrow> bool" where
  "same_log s s' \<longleftrightarrow> number_of (mem s') = number_of (mem s) \<and> globals (mem s') = globals (mem s)
     \<and> files s' = files s \<and> committed s' = committed s \<and> writers s' = writers s"

text \<open>The value of a record on which another thread holds a lock stays.\<close>

lemma held_value_stays:
  assumes inv: "two_phase s" "two_phase s'" and old: "valued s" and step: "stepped t s s'"
    and com: "committed s' = committed s \<or> (t < n_threads s \<and> tpcs s ! t = Commit_call \<and> committed s' = committed s @ [commit_entry t s])"
    and u: "u \<noteq> t" "held_at s u k" and k: "k < 3" "\<not> idle_pc (tpcs s ! u)"
  defines "r \<equiv> fst (wanted (locs s ! u) ! k)"
  shows "value_at (mem s') r = value_at (mem s) r"
proof -
  have val: "valued s'" and same: "others_same t s s'" using step by (simp_all add: stepped_def)
  have un: "u < n_threads s" using u(2) by (simp add: held_at_def Let_def)
  have o: "n_threads s' = n_threads s" "tpcs s' ! u = tpcs s ! u" "locs s' ! u = locs s ! u" "deque u (mem s') = deque u (mem s)"
    using same u(1) by (simp_all add: others_same_def)
  have held': "held_at s' u k" using u(2) by (simp add: held_at_def o)
  have "r \<in> fst ` set (wanted (locs s ! u))" using k(1) by (auto simp: r_def wanted_def less_Suc_eq numeral_3_eq_3)
  then have tab: "lock_table (mem s) r \<noteq> None"
    using kept_records [OF inv(1) un k(2)] by (auto simp: records_ok_def)
  moreover have "lock_table (mem s') r = None \<longleftrightarrow> lock_table (mem s) r = None"
    using same by (simp only: others_same_def)
  ultimately have tab': "lock_table (mem s') r \<noteq> None" by metis
  have "pend s' u r = pend s u r" by (simp add: pend_def o)
  moreover have "serial_db (committed s') r = serial_db (committed s) r"
  proof (cases "committed s' = committed s")
    case False
    then have t: "t < n_threads s" "tpcs s ! t = Commit_call" "committed s' = committed s @ [commit_entry t s]" using com by auto
    have "pend s t r = 0" using pend_other [OF inv(1) u(2) t(1)] u(1) by (simp add: r_def)
    then show ?thesis using commit_serial [OF inv(1) old t(1,2), of r] t(3) by simp
  qed simp
  moreover have "value_at (mem s') r = serial_db (committed s') r + pend s' u r"
    using held_value [OF inv(2) val held'] tab' by (simp add: o r_def)
  moreover have "value_at (mem s) r = serial_db (committed s) r + pend s u r"
    using held_value [OF inv(1) old u(2)] tab by (simp add: r_def)
  ultimately show ?thesis by simp
qed

text \<open>The unreleased records of a commit in flight are held.\<close>

lemma in_flight_held:
  assumes inv: "two_phase s" and t: "t < n_threads s" and q: "queues (tpcs s ! t) = Some q"
    and k: "kept_from (tpcs s ! t) 3 \<le> k" "k < 3"
  shows "held_at s t k" "\<not> idle_pc (tpcs s ! t)"
proof -
  have p: "tpcs s ! t \<noteq> Picking" using q by auto
  have "length (deque t (mem s)) = 3 \<and> \<not> idle_pc (tpcs s ! t)"
    using two_phase_thread(2) [OF inv t p] q k by (cases "tpcs s ! t") (auto simp: idle_pc_def count_near_def)
  then show "held_at s t k" "\<not> idle_pc (tpcs s ! t)"
    using t p q k by (cases "tpcs s ! t"; simp add: held_at_def granted_to_def)+
qed

lemma entries_of_cong: "committed s' = committed s \<Longrightarrow> writers s' = writers s \<Longrightarrow> entries_of t s' = entries_of t s"
  by (simp add: entries_of_def)

text \<open>The other threads' commits in flight stay as they are.\<close>

lemma writing_other:
  assumes inv: "two_phase s" "two_phase s'" and old: "valued s" and step: "stepped t s s'"
    and com: "committed s' = committed s \<or> (t < n_threads s \<and> tpcs s ! t = Commit_call \<and> committed s' = committed s @ [commit_entry t s])"
    and u: "u \<noteq> t" "u < n_threads s" and ent: "entries_of u s' = entries_of u s" and ok: "writing_ok s u"
  shows "writing_ok s' u"
proof -
  have o: "tpcs s' ! u = tpcs s ! u" "locs s' ! u = locs s ! u"
    using step u(1) by (simp_all add: stepped_def others_same_def)
  show ?thesis
  proof (cases "queues (tpcs s ! u)")
    case (Some q)
    have "value_at (mem s') (map fst (wanted (locs s ! u)) ! k) = value_at (mem s) (map fst (wanted (locs s ! u)) ! k)"
      if "k < 3" "kept_from (tpcs s ! u) 3 \<le> k" for k
      using held_value_stays [OF inv old step com u(1) in_flight_held(1) [OF inv(1) u(2) Some that(2,1)] that(1)
          in_flight_held(2) [OF inv(1) u(2) Some that(2,1)]] that(1)
      by simp
    then show ?thesis using ok ent o by (auto simp: writing_ok_def Let_def split: option.splits)
  qed (simp add: writing_ok_def o)
qed

lemma file_ok_cong:
  assumes "files s' (file_name m) = files s (file_name m)" and "entries_of u s' = entries_of u s"
    and "queues (tpcs s' ! u) = None \<longleftrightarrow> queues (tpcs s ! u) = None"
    and "failed_commit (tpcs s' ! u) = failed_commit (tpcs s ! u)"
  shows "file_ok s' u m \<longleftrightarrow> file_ok s u m"
  using assms by (cases "files s (file_name m)") (simp_all add: file_ok_def printed_def)

lemma logged_quiet:
  assumes inv: "two_phase s" "two_phase s'" and old: "valued s" and step: "stepped t s s'" and log: "same_log s s'"
    and L: "logged s ts" and t: "t < n_threads s"
    and failed: "failed_commit (tpcs s' ! t) = failed_commit (tpcs s ! t)"
    and flight: "queues (tpcs s' ! t) = None \<longleftrightarrow> queues (tpcs s ! t) = None"
    and mine: "writing_ok s' t"
  shows "logged s' ts"
proof -
  have same: "others_same t s s'" using step by (simp add: stepped_def)
  have o: "tpcs s' ! u = tpcs s ! u" if "u \<noteq> t" for u using same that by (simp add: others_same_def)
  have n: "n_threads s' = n_threads s" using same by (simp add: others_same_def)
  have tab: "lock_table (mem s') r = None \<longleftrightarrow> lock_table (mem s) r = None" for r
    using same by (simp only: others_same_def)
  have g: "number_of (mem s') = number_of (mem s)" "record_count (mem s') = record_count (mem s)"
    "thread_number (mem s') = thread_number (mem s)" "last_global_execution_order (mem s') = last_global_execution_order (mem s)"
    "global_execution_count (mem s') = global_execution_count (mem s)"
    "files s' = files s" "committed s' = committed s" "writers s' = writers s"
    using log by (simp_all add: same_log_def globals_def)
  have ent: "entries_of u s' = entries_of u s" for u by (rule entries_of_cong) (simp_all add: g)
  have f: "failed_commit (tpcs s' ! u) = failed_commit (tpcs s ! u)" for u using o failed by (cases "u = t") simp_all
  have q: "queues (tpcs s' ! u) = None \<longleftrightarrow> queues (tpcs s ! u) = None" for u using o flight by (cases "u = t") simp_all
  have "failures s' = failures s" by (simp add: failures_def n f)
  then have "ids_ok s'" using L by (simp add: logged_def ids_ok_def g n)
  moreover have "entries_ok s'" using L by (simp add: logged_def entries_ok_def g tab)
  moreover have "numbers_ok s' ts" using L by (auto simp: logged_def numbers_ok_def g n)
  moreover have "file_ok s' u m \<longleftrightarrow> file_ok s u m" for u m
    by (rule file_ok_cong) (simp_all add: g q f ent)
  then have "files_ok s'" using L by (simp add: logged_def files_ok_def g)
  moreover have "writing_ok s' u" if "u < n_threads s'" for u
  proof (cases "u = t")
    case False
    then show ?thesis
      using writing_other [OF inv old step disjI1 [OF g(7)] False _ ent] that n L by (simp add: logged_def)
  qed (use mine in simp)
  ultimately show ?thesis by (simp add: logged_def)
qed

section \<open>The steps\<close>

lemma number_of_upd: "(\<And>x. trx_thread_number (f x) = trx_thread_number x) \<Longrightarrow> number_of (upd_trx t f m) = number_of m"
  by (auto simp: number_of_def upd_trx_def fun_eq_iff option.map_comp comp_def split: option.splits)

lemma number_of_frame [simp]:
  "number_of (upd_lock a g m) = number_of m" "number_of (upd_node r h m) = number_of m" "number_of (set_value r v m) = number_of m"
  by (simp_all add: number_of_def fun_eq_iff upd_lock_def upd_node_def set_value_def)

lemma globals_set [simp]: "globals (set_value r v m) = globals m"
  by (simp add: set_value_def)

lemma use_same_log:
  assumes inv: "two_phase s" and t: "t < n_threads s" "tpcs s ! t = Using st a" and step: "use_lock t st a s = Inr s'"
  shows "same_log s s' \<and> queues (tpcs s' ! t) = None \<and> \<not> failed_commit (tpcs s' ! t)"
  using use_lock_kept(1) [OF inv t] step t(1)
  by (cases st) (auto simp: same_log_def lock_used_def Let_def)

lemma undo_next_same_log:
  assumes inv: "two_phase s" and t: "t < n_threads s" "tpcs s ! t = Undoing f n" and step: "undo_next t f n s = Inr s'"
  shows "same_log s s'" "tpcs s' ! t = Undo_release f n"
  using undo_next_kept(1) [OF inv t] step t(1) by (auto simp: same_log_def undone_def Let_def)

lemma writing_none: "queues (tpcs s ! t) = None \<Longrightarrow> writing_ok s t"
  by (simp add: writing_ok_def)

text \<open>A step of the lock manager leaves the queues of a commit in flight as they are.\<close>

lemma returns_logged:
  assumes "call_returns p ds p'" and "count_near p len" and "(\<forall>st. p \<noteq> Calling st) \<longrightarrow> length ds = len"
  shows "queues p' = queues p" "failed_commit p' = failed_commit p" "queues p \<noteq> None \<longrightarrow> kept_from p' 3 = kept_from p 3"
proof -
  have "queues p' = queues p \<and> failed_commit p' = failed_commit p \<and> (queues p \<noteq> None \<longrightarrow> kept_from p' 3 = kept_from p 3)"
  proof (cases p)
    case (Calling st)
    then have "ds \<noteq> []" using assms(1) by auto
    then show ?thesis using assms(1) Calling by (auto simp: undo_from_def)
  next
    case (Releasing cid n rs vs)
    then have "length ds = 3" "n < 3" using assms by (simp_all add: count_near_def)
    then show ?thesis using assms(1) Releasing by (cases "n = 2") (auto simp: commit_from_def)
  qed (use assms in \<open>auto simp: undo_from_def\<close>)
  then show "queues p' = queues p" "failed_commit p' = failed_commit p"
    "queues p \<noteq> None \<longrightarrow> kept_from p' 3 = kept_from p 3" by simp_all
qed

lemma lock_move_logged:
  assumes inv: "two_phase s" "two_phase s'" and old: "valued s" and t: "t < n_threads s" and move: "lock_move t s s'"
    and L: "logged s ts"
  shows "logged s' ts"
proof -
  let ?p = "tpcs s ! t" and ?len = "length (deque t (mem s))"
  have near: "count_near ?p ?len" by (rule two_phase_thread(2) [OF inv(1) t]) (use move in \<open>simp add: lock_move_def\<close>)
  obtain l where "deque t (mem s') = deque t (mem s) @ l" "l \<noteq> [] \<longrightarrow> (\<exists>st. ?p = Calling st)"
    using move by (auto simp: lock_move_def)
  then have len: "(\<forall>st. ?p \<noteq> Calling st) \<longrightarrow> length (deque t (mem s')) = ?len" by auto
  obtain p where p: "tpcs s' = (tpcs s)[t := p]" "p = ?p \<or> call_returns ?p (deque t (mem s')) p"
    using move by (metis list_update_id lock_move_def)
  have log: "same_log s s'" using move by (simp add: lock_move_def same_data_def same_log_def)
  have q: "queues p = queues ?p" "failed_commit p = failed_commit ?p" "queues ?p \<noteq> None \<longrightarrow> kept_from p 3 = kept_from ?p 3"
    using p(2) returns_logged [OF _ near len, of p] by auto
  have vals: "value_at (mem s') r = value_at (mem s) r" for r
    using move by (intro value_at_same) (simp add: lock_move_def same_data_def)
  have ent: "entries_of t s' = entries_of t s" using log by (intro entries_of_cong) (simp_all add: same_log_def)
  have "locs s' = locs s" using move by (simp add: lock_move_def)
  moreover have "writing_ok s t" using L t by (simp add: logged_def)
  ultimately have "writing_ok s' t"
    using q t by (auto simp: writing_ok_def p(1) ent vals Let_def split: option.splits)
  then show ?thesis
    using logged_quiet [OF inv old lock_move_valued [OF inv(1) old t move] log L t] q t by (simp add: p(1))
qed

lemma read_back_logged:
  assumes inv: "two_phase s" and old: "valued s" and t: "t < n_threads s" "tpcs s ! t = Reading_back cid n rs vs"
    and step: "read_back t cid n rs vs s = Inr s'" and L: "logged s ts" and inv': "two_phase s'"
  shows "logged s' ts"
proof -
  define ks where "ks = map fst (wanted (locs s ! t))"
  define v where "v = value_at (mem s) (ks ! n)"
  have r: "s' = go t (Releasing cid n (rs @ [ks ! n]) (vs @ [v])) (mem s) s" "n < 3"
    using read_back_kept [OF inv t] step by (auto simp: v_def ks_def wanted_def less_Suc_eq numeral_3_eq_3)
  have "stepped t s s'" unfolding r(1) by (rule read_back_valued [OF inv old t])
  moreover have log: "same_log s s'" by (simp add: same_log_def r(1))
  moreover have "writing_ok s' t"
  proof -
    have len: "n < length ks" "n < length (log_values e)" for e using r(2) by (simp_all add: ks_def log_values_def)
    have "writing_ok s t" using L t(1) by (simp add: logged_def)
    moreover have "entries_of t s' = entries_of t s" by (rule entries_of_cong) (simp_all add: r(1))
    ultimately show ?thesis using t r(2) len
      by (simp add: writing_ok_def r(1) Let_def ks_def [symmetric] v_def take_Suc_conv_app_nth)
  qed
  ultimately show ?thesis
    using logged_quiet [OF inv inv' old _ _ L t(1)] t by (simp add: r(1))
qed

section \<open>Publishing a line\<close>

lemma numbers_inject:
  assumes "numbers_ok s ts" and "sint (last_global_execution_order (mem s)) + int (n_threads s) < 2 ^ 31"
    and "0 \<le> sint (last_global_execution_order (mem s))"
    and "number_of (mem s) t = Some n" and "number_of (mem s) u = Some n"
  shows "t = u"
proof -
  have "card (set ts) \<le> card {..<n_threads s}" using assms(1) by (intro card_mono) (auto simp: numbers_ok_def)
  then have len: "length ts \<le> n_threads s" using assms(1) distinct_card [of ts] by (simp add: numbers_ok_def)
  then have "int (length ts) < 2 ^ 31" using assms(2,3) by linarith
  then have small: "length ts < 2 ^ 31" by simp
  obtain i j where ij: "i < length ts" "ts ! i = t" "j < length ts" "ts ! j = u"
    using assms(1,4,5) by (metis domI in_set_conv_nth numbers_ok_def)
  then have "(word_of_nat (i + 1) :: i32) = word_of_nat (j + 1)"
    using assms(1,4,5) by (metis numbers_ok_def option.inject)
  then have "unat (word_of_nat (i + 1) :: i32) = unat (word_of_nat (j + 1) :: i32)" by simp
  then have "i = j" using ij(1,3) small by (simp add: unat_of_nat del: of_nat_add of_nat_Suc)
  then show ?thesis using ij by simp
qed

lemma thread_file_number: "number_of m t = Some n \<Longrightarrow> thread_file t m = file_name n"
  by (auto simp: number_of_def thread_file_def trx_of_def)

lemma busy_number:
  assumes inv: "two_phase s" and t: "t < n_threads s" "tpcs s ! t \<noteq> Picking"
  obtains n where "number_of (mem s) t = Some n" "thread_file t (mem s) = file_name n"
  using two_phase_thread(1) [OF assms] thread_file_number by (auto simp: number_of_def)

lemma bounds_of: "ids_ok s \<Longrightarrow> sint (last_global_execution_order (mem s)) + int (n_threads s) < 2 ^ 31
    \<and> 0 \<le> sint (last_global_execution_order (mem s))"
  by (simp add: ids_ok_def)

text \<open>A step that changes the file of its own thread only.\<close>

lemma files_own:
  assumes L: "logged s ts" and num: "number_of (mem s) t = Some n" "number_of (mem s') = number_of (mem s)"
    and files: "\<And>f. f \<noteq> file_name n \<Longrightarrow> files s' f = files s f" and own: "file_ok s' t n"
    and other: "\<And>u. u \<noteq> t \<Longrightarrow> tpcs s' ! u = tpcs s ! u \<and> entries_of u s' = entries_of u s"
  shows "files_ok s'"
  unfolding files_ok_def
proof (intro conjI allI impI ballI)
  fix u m assume m: "number_of (mem s') u = Some m"
  show "file_ok s' u m"
  proof (cases "u = t")
    case False
    have "m \<noteq> n" using numbers_inject [of s ts u m t] m num False L bounds_of by (auto simp: logged_def)
    then have "files s' (file_name m) = files s (file_name m)" using files by (simp add: file_name_inject)
    moreover have "file_ok s u m" using L m num(2) by (simp add: logged_def files_ok_def)
    ultimately show ?thesis using other [OF False] file_ok_cong [of s' m s u] by simp
  qed (use own m num in simp)
next
  fix f assume f: "f \<in> dom (files s')"
  show "\<exists>u m. number_of (mem s') u = Some m \<and> f = file_name m"
  proof (cases "f = file_name n")
    case False
    then have "f \<in> dom (files s)" using f files [OF False] by (simp add: dom_def)
    then show ?thesis using L num(2) by (simp add: logged_def files_ok_def)
  qed (use num in auto)
qed

lemma publish_logged:
  assumes inv: "two_phase s" and old: "valued s" and t: "t < n_threads s" "tpcs s ! t = Publishing cid rs vs"
    and L: "logged s ts" and inv': "two_phase (publish t cid rs vs s)"
  shows "logged (publish t cid rs vs s) ts"
proof -
  define s' where "s' = publish t cid rs vs s"
  have pick: "tpcs s ! t \<noteq> Picking" using t(2) by simp
  obtain n where num: "number_of (mem s) t = Some n" "thread_file t (mem s) = file_name n"
    using busy_number [OF inv t(1) pick] by metis
  have inv': "two_phase s'" unfolding s'_def by (rule inv')
  have step: "stepped t s s'" unfolding s'_def by (rule publish_valued [OF inv old t])
  have f: "tpcs s' = (tpcs s)[t := Picking]" "mem s' = mem s" "committed s' = committed s" "writers s' = writers s"
    "files s' = append_to (file_name n) (print_commit cid rs vs) (files s)"
    by (simp_all add: s'_def publish_def num)
  have ent: "entries_of u s' = entries_of u s" for u by (rule entries_of_cong) (simp_all add: f)
  have "writing_ok s t" using L t(1) by (simp add: logged_def)
  then have w: "entries_of t s \<noteq> []" "print_commit cid rs vs = log_line (last (entries_of t s))"
    using t(2) by (auto simp: writing_ok_def Let_def log_values_def wanted_def intro!: print_commit_line)
  have "file_ok s t n" using L num by (simp add: logged_def files_ok_def)
  then obtain c where c: "files s (file_name n) = Some c" "c = concat (map log_line (butlast (entries_of t s)))"
    using t(2) by (auto simp: file_ok_def printed_def split: option.splits)
  have line: "concat (map log_line (butlast es)) @ log_line (last es) = concat (map log_line es)" if "es \<noteq> []" for es
    using that by (induction es) auto
  have own: "file_ok s' t n"
    using c w line [OF w(1)] t(1) by (simp add: file_ok_def f append_to_def printed_def ent)
  have fs: "failures s' = failures s" using t by (auto simp: failures_def f nth_upd)
  have "ids_ok s'" using L by (simp add: logged_def ids_ok_def f fs)
  moreover have "entries_ok s'" using L by (simp add: logged_def entries_ok_def f)
  moreover have "numbers_ok s' ts" using L by (auto simp: logged_def numbers_ok_def f)
  moreover have "files_ok s'"
    by (rule files_own [OF L num(1) _ _ own]) (simp_all add: f append_to_def ent)
  moreover have "writing_ok s' u" if "u < n_threads s'" for u
  proof (cases "u = t")
    case False
    then show ?thesis
      using writing_other [OF inv inv' old step disjI1 [OF f(3)] False _ ent] that L by (simp add: logged_def f)
  qed (use t in \<open>simp add: writing_none f\<close>)
  ultimately show ?thesis by (simp add: logged_def s'_def)
qed

section \<open>Taking a commit id\<close>

lemma next_id:
  assumes "ids_ok s" and t: "t < n_threads s" "\<not> failed_commit (tpcs s ! t)"
  shows "sint (global_execution_count (mem s) + 1) = sint (global_execution_count (mem s)) + 1"
proof -
  have "failures s \<subseteq> {..<n_threads s} - {t}" using t by (auto simp: failures_def)
  then have "card (failures s) \<le> card ({..<n_threads s} - {t})" by (intro card_mono) auto
  then have "card (failures s) < n_threads s" using t(1) by (simp add: card_Diff_singleton_if)
  then have "sint (global_execution_count (mem s)) + 1 < 2 ^ 31" and "0 \<le> sint (global_execution_count (mem s))"
    using assms(1) by (auto simp: ids_ok_def)
  then show ?thesis by (simp add: signed_take_bit_int_eq_self sint_word_ariths)
qed

lemma entries_snoc:
  assumes "committed s' = committed s @ [e]" and "writers s' = writers s @ [t]" and "length (writers s) = length (committed s)"
  shows "entries_of u s' = (if u = t then entries_of t s @ [e] else entries_of u s)"
  using assms by (simp add: entries_of_def)

lemma failures_finite: "finite (failures s)"
  by (simp add: failures_def)

lemma sless_sint: "a <s b \<longleftrightarrow> sint a < sint (b :: i32)"
  by (simp add: word_sless_alt)

lemma ids_after:
  assumes inv: "two_phase s" and old: "ids_ok s" and t: "t < n_threads s" "tpcs s ! t = Commit_call"
  shows "ids_ok (take_commit_id t s)"
    "\<not> last_global_execution_order (mem s) <s global_execution_count (mem s) + 1
      \<Longrightarrow> sint (global_execution_count (mem s) + 1) = int (length (committed s)) + 1"
proof -
  let ?s' = "take_commit_id t s"
  note c = take_commit_id_cases [OF inv t]
  have nf: "t \<notin> failures s" using t by (simp add: failures_def)
  have sc: "sint (global_execution_count (mem s) + 1) = sint (global_execution_count (mem s)) + 1"
    using next_id [OF old t(1)] t(2) by simp
  note o = old [unfolded ids_ok_def]
  have none: "failures s = {} \<or> sint (last_global_execution_order (mem s)) \<le> sint (global_execution_count (mem s))"
    using o by auto
  have card0: "failures s = {} \<longleftrightarrow> card (failures s) = 0" using failures_finite by simp
  show ids: "\<not> last_global_execution_order (mem s) <s global_execution_count (mem s) + 1
      \<Longrightarrow> sint (global_execution_count (mem s) + 1) = int (length (committed s)) + 1"
    using none o card0 sc by (auto simp: sless_sint)
  show "ids_ok ?s'"
  proof (cases "last_global_execution_order (mem s) <s global_execution_count (mem s) + 1")
    case True
    have "failures ?s' = insert t (failures s)" using t True by (auto simp: failures_def c(4) nth_upd)
    then have "card (failures ?s') = Suc (card (failures s))" using nf failures_finite by simp
    moreover have "sint (last_global_execution_order (mem s)) = int (length (committed s))"
      using True o sc card0 by (cases "failures s = {}") (auto simp: sless_sint)
    ultimately show ?thesis using o True sc by (simp add: ids_ok_def c)
  next
    case False
    have fs: "failures ?s' = failures s" using t False by (auto simp: failures_def c(4) nth_upd)
    have "failures s = {}" using False o sc card0 by (auto simp: sless_sint)
    moreover have "commit_id (commit_entry t s) = int (length (committed s)) + 1"
      using ids [OF False] by (simp add: commit_entry_def Let_def)
    moreover have "int (length (committed s)) + 1 \<le> sint (last_global_execution_order (mem s))"
      using False ids [OF False] by (simp add: sless_sint)
    ultimately show ?thesis using o False sc by (auto simp: ids_ok_def c fs nth_append less_Suc_eq)
  qed
qed

lemma commit_entry_ok:
  assumes inv: "two_phase s" and old: "valued s" and t: "t < n_threads s" "tpcs s ! t = Commit_call"
    and E: "entries_ok s" and I: "ids_ok s"
    and go: "\<not> last_global_execution_order (mem s) <s global_execution_count (mem s) + 1"
  shows "log_in_range (record_count (mem s)) (commit_entry t s)" "log_fits (commit_entry t s)"
    "serial_from (committed s @ [commit_entry t s]) (\<lambda>r. 100)"
proof -
  let ?e = "commit_entry t s"
  define l where "l = locs s ! t"
  have "records_ok (mem s) l" using kept_records [OF inv t(1)] t(2) by (simp add: idle_pc_def l_def)
  then have tab: "lock_table (mem s) r \<noteq> None" if "r \<in> {rec_i l, rec_j l, rec_k l}" for r
    using that by (auto simp: records_ok_def wanted_def)
  then have range: "1 \<le> r \<and> r \<le> record_count (mem s)" if "r \<in> {rec_i l, rec_j l, rec_k l}" for r
    using that E unfolding entries_ok_def by (metis atLeastAtMost_iff)
  have rc: "record_count (mem s) < 2 ^ 31" using E by (simp add: entries_ok_def)
  show rg: "log_in_range (record_count (mem s)) ?e"
    using range by (force simp: log_in_range_def commit_entry_def Let_def l_def)
  have "commit_id ?e = int (length (committed s)) + 1"
    using ids_after(2) [OF inv I t go] by (simp add: commit_entry_def Let_def)
  moreover have "int (length (committed s)) + 1 < 2 ^ 31" using I t(1) by (auto simp: ids_ok_def)
  moreover have "- (2 ^ 63) \<le> sint v \<and> sint v < 2 ^ 63" for v :: i64
    using sint_ge [of v] sint_lt [of v] by simp
  ultimately show "log_fits ?e"
    using rg rc by (auto simp: log_fits_def log_in_range_def commit_entry_def Let_def)
  have len: "length (deque t (mem s)) = 3" by (rule commit_count [OF inv t])
  have "value_at (mem s) (fst (wanted l ! k)) = serial_db (committed s @ [?e]) (fst (wanted l ! k))" if "k < 3" for k
  proof -
    have "held_at s t k" using t that len by (simp add: held_at_def granted_to_def)
    moreover have "fst (wanted l ! k) \<in> {rec_i l, rec_j l, rec_k l}"
      using that by (auto simp: wanted_def less_Suc_eq numeral_3_eq_3)
    ultimately show ?thesis
      using held_value [OF inv old, of t k] tab commit_serial [OF inv old t] by (simp add: l_def)
  qed
  from this [of 0] this [of 1] this [of 2] show "serial_from (committed s @ [?e]) (\<lambda>r. 100)"
    using E unfolding serial_from_snoc entries_ok_def serial_db_snoc [symmetric] serial_db_def [symmetric]
    by (simp add: logged_values_def serial_db_snoc) (simp add: commit_entry_def Let_def l_def)
qed

lemma commit_logged:
  assumes inv: "two_phase s" and old: "valued s" and t: "t < n_threads s" "tpcs s ! t = Commit_call"
    and L: "logged s ts" and inv': "two_phase (take_commit_id t s)"
  shows "logged (take_commit_id t s) ts"
proof -
  define s' where "s' = take_commit_id t s"
  define c where "c = global_execution_count (mem s) + 1"
  define over where "over = (last_global_execution_order (mem s) <s c)"
  have pick: "tpcs s ! t \<noteq> Picking" using t(2) by simp
  obtain n where num: "number_of (mem s) t = Some n" "thread_file t (mem s) = file_name n"
    using busy_number [OF inv t(1) pick] by metis
  have inv': "two_phase s'" unfolding s'_def by (rule inv')
  have step: "stepped t s s'" unfolding s'_def by (rule commit_valued [OF inv old t])
  have f: "tpcs s' = (tpcs s)[t := if over then Undoing True 0 else Reading_back c 0 [] []]"
    "mem s' = (mem s)\<lparr>global_execution_count := c\<rparr>" "locs s' = locs s"
    "committed s' = (if over then committed s else committed s @ [commit_entry t s])"
    "writers s' = (if over then writers s else writers s @ [t])"
    "files s' = open_append (file_name n) (files s)"
    using take_commit_id_cases [OF inv t] by (simp_all add: s'_def c_def over_def num)
  have numb: "number_of (mem s') = number_of (mem s)" by (simp add: f number_of_def fun_eq_iff)
  have lens: "length (writers s) = length (committed s)" using L by (simp add: logged_def ids_ok_def)
  have ent: "entries_of u s' = (if u = t \<and> \<not> over then entries_of t s @ [commit_entry t s] else entries_of u s)" for u
    using entries_snoc [of s' s "commit_entry t s" t u] lens entries_of_cong [of s' s u] by (cases over) (simp_all add: f)
  have ids: "ids_ok s'" unfolding s'_def by (rule ids_after [OF inv _ t]) (use L in \<open>simp add: logged_def\<close>)
  have E: "entries_ok s'"
    using commit_entry_ok [OF inv old t] L by (simp add: logged_def entries_ok_def f over_def c_def)
  have N: "numbers_ok s' ts" using L num(1) numb by (auto simp: logged_def numbers_ok_def f)
  have "file_ok s t n" using L num by (simp add: logged_def files_ok_def)
  then have own: "file_ok s' t n" using t
    by (auto simp: file_ok_def f open_append_def printed_def ent split: option.splits)
  have "files_ok s'"
    by (rule files_own [OF L num(1) numb _ own]) (simp_all add: f open_append_def ent)
  moreover have "writing_ok s' u" if "u < n_threads s'" for u
  proof (cases "u = t")
    case False
    have com: "committed s' = committed s \<or> (t < n_threads s \<and> tpcs s ! t = Commit_call \<and> committed s' = committed s @ [commit_entry t s])"
      using t by (simp add: f)
    then show ?thesis
      using writing_other [OF inv inv' old step com False] ent that L False by (simp add: logged_def f)
  next
    case True
    have "(value_at (mem s') r) = value_at (mem s) r" for r by (simp add: f value_at_def)
    then have "\<forall>k<3. sint (value_at (mem s') (map fst (wanted (locs s ! t)) ! k)) = log_values (commit_entry t s) ! k"
      by (simp add: less_Suc_eq numeral_3_eq_3 log_values_def commit_entry_def Let_def wanted_def)
    then show ?thesis using t True
      by (auto simp: writing_ok_def f ent Let_def) (simp_all add: commit_entry_def Let_def wanted_def c_def)
  qed
  ultimately show ?thesis using ids E N by (simp add: logged_def s'_def)
qed

section \<open>The start of a transaction\<close>

lemma Begin_number:
  assumes inv: "two_phase s" and t: "t < n_threads s" "tpcs s ! t = Picking"
  shows "number_of (Begin t (mem s)) = (case number_of (mem s) t of Some n \<Rightarrow> number_of (mem s)
      | None \<Rightarrow> (number_of (mem s))(t \<mapsto> thread_number (mem s)))"
    "thread_number (Begin t (mem s)) = (case number_of (mem s) t of Some n \<Rightarrow> thread_number (mem s)
      | None \<Rightarrow> thread_number (mem s) + 1)"
    "record_count (Begin t (mem s)) = record_count (mem s)"
    "last_global_execution_order (Begin t (mem s)) = last_global_execution_order (mem s)"
    "global_execution_count (Begin t (mem s)) = global_execution_count (mem s)"
    "lock_table (Begin t (mem s)) = lock_table (mem s)"
proof -
  show "number_of (Begin t (mem s)) = (case number_of (mem s) t of Some n \<Rightarrow> number_of (mem s)
      | None \<Rightarrow> (number_of (mem s))(t \<mapsto> thread_number (mem s)))"
    by (auto simp: Begin_def number_of_upd) (auto simp: GetTrxNode_def number_of_def fun_eq_iff)
  show "thread_number (Begin t (mem s)) = (case number_of (mem s) t of Some n \<Rightarrow> thread_number (mem s)
      | None \<Rightarrow> thread_number (mem s) + 1)"
    by (cases "trx_node_table (mem s) t") (auto simp: Begin_def GetTrxNode_def number_of_def upd_trx_def)
  show "record_count (Begin t (mem s)) = record_count (mem s)"
    "last_global_execution_order (Begin t (mem s)) = last_global_execution_order (mem s)"
    "global_execution_count (Begin t (mem s)) = global_execution_count (mem s)"
    "lock_table (Begin t (mem s)) = lock_table (mem s)"
    by (auto simp: Begin_def GetTrxNode_def upd_trx_def)
qed

lemma no_node_no_entries:
  assumes "numbers_ok s ts" and "number_of (mem s) t = None"
  shows "entries_of t s = []"
proof -
  have "t \<notin> set (writers s)" using assms by (auto simp: numbers_ok_def)
  then show ?thesis by (auto simp: entries_of_def filter_empty_conv dest: set_zip_rightD)
qed

lemma pick_logged:
  assumes inv: "two_phase s" and old: "valued s" and t: "t < n_threads s" and pick: "can_pick t i j k s" and L: "logged s ts"
    and inv': "two_phase (pick_step t i j k s)"
  shows "logged (pick_step t i j k s) (if number_of (mem s) t = None then ts @ [t] else ts)"
proof -
  define s' where "s' = pick_step t i j k s"
  define ts' where "ts' = (if number_of (mem s) t = None then ts @ [t] else ts)"
  have p: "tpcs s ! t = Picking" using pick by (simp add: can_pick_def)
  note B = Begin_number [OF inv t p]
  have inv': "two_phase s'" unfolding s'_def by (rule inv')
  have step: "stepped t s s'" unfolding s'_def by (rule pick_valued [OF inv old t pick])
  have f: "tpcs s' = (tpcs s)[t := Calling Find_i]" "mem s' = Begin t (mem s)"
    "committed s' = committed s" "writers s' = writers s" "files s' = files s"
    by (simp_all add: s'_def pick_step_def)
  have ent: "entries_of u s' = entries_of u s" for u by (rule entries_of_cong) (simp_all add: f)
  have fs: "failures s' = failures s" using t p by (auto simp: failures_def f nth_upd)
  have "ids_ok s'" using L by (simp add: logged_def ids_ok_def f fs B)
  moreover have "entries_ok s'" using L by (simp add: logged_def entries_ok_def f B)
  moreover have N: "numbers_ok s' ts'"
  proof (cases "number_of (mem s) t")
    case None
    then have "t \<notin> set ts" using L by (auto simp: logged_def numbers_ok_def)
    then show ?thesis using L t None
      by (auto simp: logged_def numbers_ok_def f B ts'_def nth_append less_Suc_eq)
  qed (use L in \<open>auto simp: logged_def numbers_ok_def f B ts'_def\<close>)
  moreover have "files_ok s'"
  proof -
    have same: "file_ok s' u m \<longleftrightarrow> file_ok s u m" for u m
      by (rule file_ok_cong) (use p t in \<open>auto simp: f ent nth_upd\<close>)
    show ?thesis
    proof (cases "number_of (mem s) t")
      case None
      let ?n = "thread_number (mem s)"
      have old': "m \<noteq> ?n" if m: "number_of (mem s) u = Some m" for u m
      proof
        assume "m = ?n"
        then have "t = u"
          using numbers_inject [OF N, of t ?n u] bounds_of [OF \<open>ids_ok s'\<close>] None m by (simp add: f B)
        then show False using m None by simp
      qed
      have "files s (file_name ?n) = None"
      proof (rule ccontr)
        assume "files s (file_name ?n) \<noteq> None"
        then obtain u m where um: "number_of (mem s) u = Some m" "file_name ?n = file_name m"
          using L unfolding logged_def files_ok_def by blast
        show False using old' [OF um(1)] um(2) by (simp add: file_name_inject)
      qed
      then have "file_ok s t ?n"
        using no_node_no_entries [of s ts t] L None p by (simp add: file_ok_def logged_def)
      moreover have "\<exists>u m. number_of (mem s') u = Some m \<and> g = file_name m" if g: "g \<in> dom (files s')" for g
      proof -
        have "g \<in> dom (files s)" using g by (simp add: f)
        then obtain u m where "number_of (mem s) u = Some m" "g = file_name m"
          using L unfolding logged_def files_ok_def by blast
        then have "number_of (mem s') u = Some m \<and> g = file_name m" using None by (auto simp: f B)
        then show ?thesis by blast
      qed
      ultimately show ?thesis using L None same
        by (auto simp: logged_def files_ok_def f B)
    next
      case (Some m)
      then show ?thesis using L same by (simp add: logged_def files_ok_def f B)
    qed
  qed
  moreover have "writing_ok s' u" if "u < n_threads s'" for u
  proof (cases "u = t")
    case False
    then show ?thesis
      using writing_other [OF inv inv' old step disjI1 [OF f(3)] False _ ent] that L by (simp add: logged_def f)
  qed (use t in \<open>simp add: writing_none f\<close>)
  ultimately show ?thesis by (simp add: logged_def s'_def ts'_def)
qed

section \<open>Every step\<close>

lemma data_move_logged:
  assumes inv: "two_phase s" "two_phase s'" and old: "valued s" and t: "t < n_threads s" and move: "data_move t s s'"
    and L: "logged s ts"
  shows "logged s' ts"
proof -
  have step: "trx_access t s = Inr s'" and pc: "data_pc (tpcs s ! t)" using move by (simp_all add: data_move_def)
  have st: "stepped t s s'" by (rule data_move_valued [OF inv(1) old t move])
  have quiet: "logged s' ts"
    if "same_log s s'" "queues (tpcs s' ! t) = None" "queues (tpcs s ! t) = None"
      "failed_commit (tpcs s' ! t) = failed_commit (tpcs s ! t)"
    using logged_quiet [OF inv old st that(1) L t that(4)] that writing_none by simp
  show ?thesis
  proof (cases "tpcs s ! t")
    case (Using st a)
    then show ?thesis using use_same_log [OF inv(1) t Using] step by (intro quiet) (simp_all add: trx_access_def)
  next
    case Commit_call
    then show ?thesis using commit_logged [OF inv(1) old t Commit_call L] inv(2) step by (auto simp: trx_access_def)
  next
    case (Reading_back cid n rs vs)
    then show ?thesis using read_back_logged [OF inv(1) old t Reading_back _ L inv(2)] step by (simp add: trx_access_def)
  next
    case (Publishing cid rs vs)
    then show ?thesis using publish_logged [OF inv(1) old t Publishing L] inv(2) step by (auto simp: trx_access_def)
  next
    case (Undoing f n)
    then show ?thesis using undo_next_same_log [OF inv(1) t Undoing] step by (intro quiet) (simp_all add: trx_access_def)
  qed (use pc in simp_all)
qed

lemma service_step_logged:
  assumes inv: "two_phase s" "two_phase s'" and old: "valued s" "logged s ts" and step: "service_step s s'"
  shows "valued s' \<and> (\<exists>ts. logged s' ts)"
proof -
  obtain t where t: "t < n_threads s" and move: "lock_move t s s' \<or> data_move t s s'
      \<or> (\<exists>i j k. can_pick t i j k s \<and> s' = pick_step t i j k s)" using step by (auto simp: service_step_def)
  have "stepped t s s' \<and> (\<exists>ts. logged s' ts)"
    using move lock_move_valued [OF inv(1) old(1) t] lock_move_logged [OF inv old(1) t _ old(2)]
      data_move_valued [OF inv(1) old(1) t] data_move_logged [OF inv old(1) t _ old(2)]
      pick_valued [OF inv(1) old(1) t] pick_logged [OF inv(1) old(1) t _ old(2)] inv(2) by blast
  then show ?thesis by (auto simp: stepped_def)
qed

lemma start_logged:
  assumes "trx_start s"
  shows "logged s []"
proof -
  obtain n_thr n_rec last_id where s: "sizes_ok n_thr n_rec last_id"
    "s = trx_sys_new n_thr n_rec last_id Map.empty" using assms by (auto simp: trx_start_def)
  have f: "committed s = []" "writers s = []" "files s = Map.empty" "n_threads s = n_thr"
    "last_global_execution_order (mem s) = last_id" "global_execution_count (mem s) = 0" "thread_number (mem s) = 1"
    by (simp_all add: s(2) trx_sys_new_def InitManagers_def MakeRecords_def memory_new_def)
  have p: "tpcs s ! t = Picking" if "t < n_threads s" for t using that by (simp add: s(2) trx_sys_new_def)
  have num: "number_of (mem s) = Map.empty" by (simp add: number_of_def fun_eq_iff s(2) start_memory)
  note m = start_memory [of n_thr n_rec last_id Map.empty, folded s(2)]
  have "failures s = {}" using p by (auto simp: failures_def)
  then have "ids_ok s" using s(1) by (simp add: ids_ok_def f sizes_ok_def word_sle_eq)
  moreover have "entries_ok s" using s(1) by (simp add: entries_ok_def f m sizes_ok_def)
  moreover have "numbers_ok s []" by (simp add: numbers_ok_def num f)
  moreover have "files_ok s" by (simp add: files_ok_def num f)
  ultimately show ?thesis using p writing_none by (simp add: logged_def)
qed

section \<open>All runs over a lock service\<close>

context lock_service begin

lemma service_start:
  assumes "init s"
  shows "two_phase (view s)" "valued (view s)" "logged (view s) []"
proof -
  note start = view_start [OF assms]
  show "two_phase (view s)" by (rule view_two_phase [OF holds_at_start [OF assms]])
  show "valued (view s)" using start start_valued by (auto simp: trx_start_def)
  show "logged (view s) []" by (rule start_logged [OF start])
qed

lemma service_runs:
  assumes "reach init step s"
  shows "two_phase (view s) \<and> valued (view s) \<and> (\<exists>ts. logged (view s) ts)"
proof -
  have "inv s \<and> two_phase (view s) \<and> valued (view s) \<and> (\<exists>ts. logged (view s) ts)"
    using assms
  proof (induction rule: reach.induct)
    case (reach_start s)
    then show ?case using service_start holds_at_start by blast
  next
    case (reach_next s t)
    then obtain ts where old: "inv s" "two_phase (view s)" "valued (view s)" "logged (view s) ts" by blast
    have now: "inv t" "two_phase (view t)" using kept_by_step [OF old(1) reach_next(2)] view_two_phase by blast+
    show ?case using service_step_logged [OF old(2) now(2) old(3,4) view_step [OF old(1) reach_next(2)]] now by blast
  qed
  then show ?thesis by blast
qed

end

section \<open>A finished run\<close>

lemma mset_by_owner:
  "set (map snd zs) \<subseteq> A \<Longrightarrow> finite A \<Longrightarrow>
    mset (map fst zs) = (\<Sum>t\<in>A. mset (map fst (filter (\<lambda>(e, w). w = t) zs)))"
proof (induction zs)
  case (Cons z zs)
  have "(\<Sum>t\<in>A. mset (map fst (filter (\<lambda>(e, w). w = t) (z # zs))))
    = (\<Sum>t\<in>A. mset (map fst (filter (\<lambda>(e, w). w = t) zs)) + (if t = snd z then {#fst z#} else {#}))"
    by (rule sum.cong) (auto simp: case_prod_unfold)
  also have "\<dots> = mset (map fst zs) + {#fst z#}"
    using Cons by (simp add: sum.distrib sum.delta')
  finally show ?case by simp
qed simp

end
