(* ===== verification/LogCheck.thy ===== *)
theory LogCheck
  imports LogText Replay
begin

text \<open>
  The verdict of \<open>IsCorrect\<close> on files that hold printed entries: whether the entries, by
  commit id, are those of a serial execution; and what it does on a missing file and on a
  wrong number of entries.
\<close>

lemma count_matches:
  assumes "L < 2 ^ 63"
  shows "(word_of_nat L :: u64) = scast (last_id :: i32) \<longleftrightarrow> int L = sint last_id"
proof -
  have L: "sint (word_of_nat L :: u64) = int L"
    using assms by (simp add: signed_of_nat signed_take_bit_int_eq_self)
  have I: "sint (scast last_id :: u64) = sint last_id" by (simp add: sint_up_scast is_up)
  show ?thesis
  proof
    assume "int L = sint last_id"
    then have "sint (word_of_nat L :: u64) = sint (scast last_id :: u64)" by (simp only: L I)
    then show "(word_of_nat L :: u64) = scast last_id" by (rule signed_word_eqI)
  next
    assume "(word_of_nat L :: u64) = scast last_id"
    then show "int L = sint last_id" using L I by metis
  qed
qed

lemma IsCorrect_verdict:
  assumes srt: "sorts_logs sort_logs" and files: "\<And>n. n \<in> {1..n_thr} \<Longrightarrow> d (file_name (word_of_nat n)) = Some (concat (map log_line (f n)))"
    and ok: "\<And>n. n \<in> {1..n_thr} \<Longrightarrow> \<forall>e \<in> set (f n). log_fits e \<and> log_in_range n_rec e"
  defines "es \<equiv> concat (map f [1..<n_thr + 1])"
  assumes len: "length es < 2 ^ 63"
  shows "IsCorrect sort_logs n_rec n_thr last_id d = Some
    (if int (length es) = sint last_id then Inr (serial_from (sort_logs es) (\<lambda>r. 100)) else Inl Assert_failed)"
proof -
  have read: "read_files [1..<n_thr + 1] d = Some es"
    unfolding es_def
  proof (rule read_files_lines)
    fix n assume "n \<in> set [1..<n_thr + 1]"
    then have n: "n \<in> {1..n_thr}" by auto
    show "d (file_name (word_of_nat n)) = Some (concat (map log_line (f n)))" by (rule files [OF n])
    show "\<forall>e \<in> set (f n). log_fits e" using ok [OF n] by blast
  qed
  have "\<exists>n \<in> {1..n_thr}. e \<in> set (f n)" if "e \<in> set es" for e
    using that by (force simp: es_def simp del: upt_Suc)
  then have "\<forall>e \<in> set (sort_logs es). log_in_range n_rec e" using ok sorts_logs_set [OF srt] by fastforce
  then have "check_logs (sort_logs es) (replicate n_rec 100) = Inr (serial_from (sort_logs es) (\<lambda>r. 100))"
    unfolding replicate_table by (rule check_logs_serial)
  then show ?thesis
    using count_matches [OF len, of last_id] read by (simp add: IsCorrect_def assert_that_def and_then_def)
qed

lemma read_files_stuck:
  "n \<in> set ns \<Longrightarrow> d (file_name (word_of_nat n)) = None \<Longrightarrow> read_files ns d = None"
proof (induction ns)
  case (Cons m ns)
  show ?case
  proof (cases "n = m")
    case True
    then have "read_logs Log_new (open_read (file_name (word_of_nat m)) d) = None"
      using Cons.prems(2) by (intro read_logs_stuck) (simp_all add: open_read_def)
    then show ?thesis by simp
  next
    case False
    then have "read_files ns d = None" using Cons by simp
    then show ?thesis by (cases "read_logs Log_new (open_read (file_name (word_of_nat m)) d)") simp_all
  qed
qed simp

section \<open>Properties\<close>

text \<open>
  C18: what \<open>Commit\<close> prints is read back: a file that holds the lines of some entries, each
  printed with \<open>print_commit\<close> from a commit id, record ids and values of the machine's
  widths, is read as these entries.
\<close>

theorem commit_log_round_trip:
  assumes "length cids = length es" and "length rss = length es" and "length vss = length es"
    and "\<And>p. p < length es \<Longrightarrow> sint (cids ! p) = commit_id (es ! p)
      \<and> map int (rss ! p) = [log_i (es ! p), log_j (es ! p), log_k (es ! p)] \<and> (\<forall>r \<in> set (rss ! p). r < 2 ^ 31)
      \<and> map sint (vss ! p) = [log_vi (es ! p), log_vj (es ! p), log_vk (es ! p)]"
    and "d f = Some (concat (map (\<lambda>p. print_commit (cids ! p) (rss ! p) (vss ! p)) [0..<length es]))"
  shows "read_logs Log_new (open_read f d) = Some es"
proof -
  have line: "print_commit (cids ! p) (rss ! p) (vss ! p) = log_line (es ! p)" if "p < length es" for p
    using assms(4) [OF that] by (intro print_commit_line) auto
  have "map (\<lambda>p. print_commit (cids ! p) (rss ! p) (vss ! p)) [0..<length es] = map log_line es"
    by (rule nth_equalityI) (simp_all add: line)
  then have c: "d f = Some (concat (map log_line es))" using assms(5) by simp
  have b32: "- (2 ^ 31) \<le> sint v \<and> sint v < 2 ^ 31" for v :: i32 using sint_ge [of v] sint_lt [of v] by simp
  have b64: "- (2 ^ 63) \<le> sint v \<and> sint v < 2 ^ 63" for v :: i64 using sint_ge [of v] sint_lt [of v] by simp
  have "log_fits (es ! p)" if "p < length es" for p
  proof -
    have "commit_id (es ! p) = sint (cids ! p)" using assms(4) [OF that] by simp
    moreover have "{log_i (es ! p), log_j (es ! p), log_k (es ! p)} = int ` set (rss ! p)"
      using assms(4) [OF that] by (metis list.set(1,2) list.set_map)
    moreover have "{log_vi (es ! p), log_vj (es ! p), log_vk (es ! p)} = sint ` set (vss ! p)"
      using assms(4) [OF that] by (metis list.set(1,2) list.set_map)
    ultimately show ?thesis using assms(4) [OF that] b32 [of "cids ! p"] b64 by (auto simp: log_fits_def)
  qed
  then have "\<forall>e \<in> set es. log_fits e" by (auto simp: in_set_conv_nth)
  from read_logs_lines [OF this, of "[]" Log_new] show ?thesis by (simp add: open_read_def c good_def)
qed

text \<open>
  C19: on files that hold printed entries whose fields fit their types and whose record ids
  are in the table, fewer than 2 to the 63 in all, the check fails its assertion when their number is
  not the last commit id, and else answers whether the entries, in the order that \<open>std::sort\<close>
  gives them, log the values of a serial execution from 100 in every record. That holds for
  every sort the library allows; when the commit ids are distinct, they determine the order.
\<close>

theorem check_accepts_serial_logs:
  assumes "sorts_logs sort_logs" and "\<And>n. n \<in> {1..n_thr} \<Longrightarrow> d (file_name (word_of_nat n)) = Some (concat (map log_line (f n)))"
    and "\<And>n. n \<in> {1..n_thr} \<Longrightarrow> \<forall>e \<in> set (f n). log_fits e \<and> log_in_range n_rec e"
    and "length (concat (map f [1..<n_thr + 1])) < 2 ^ 63"
  shows "IsCorrect sort_logs n_rec n_thr last_id d = Some
      (if int (length (concat (map f [1..<n_thr + 1]))) = sint last_id
       then Inr (serial_from (sort_logs (concat (map f [1..<n_thr + 1]))) (\<lambda>r. 100)) else Inl Assert_failed)
    \<and> (distinct (map commit_id (concat (map f [1..<n_thr + 1]))) \<longrightarrow>
        sort_logs (concat (map f [1..<n_thr + 1])) = sort_key commit_id (concat (map f [1..<n_thr + 1])))"
  using IsCorrect_verdict [OF assms] sorts_logs_unique [OF assms(1)] by (simp add: distinct_map del: upt_Suc)

text \<open>
  C20: if the log file of some thread does not exist, the check does not return: the stream
  that could not be opened never reaches its end.
\<close>

theorem check_needs_every_file:
  assumes "n \<in> {1..n_thr}" and "d (file_name (word_of_nat n)) = None"
  shows "IsCorrect sort_logs n_rec n_thr last_id d = None"
  using read_files_stuck [of n "[1..<n_thr + 1]" d] assms by (simp add: IsCorrect_def del: upt_Suc)

section \<open>Witnesses\<close>

definition first_commit :: log where
  "first_commit = \<lparr>commit_id = 1, log_i = 1, log_j = 2, log_k = 3, log_vi = 100, log_vj = 201, log_vk = 0\<rparr>"

theorem commit_log_round_trip_witness:
  "read_logs Log_new (open_read ''log'' [''log'' \<mapsto> print_commit 1 [1, 2, 3] [100, 201, 0]]) = Some [first_commit]"
  by (rule commit_log_round_trip [of "[1]" _ "[[1, 2, 3]]" "[[100, 201, 0]]"]) (simp_all add: first_commit_def)

text \<open>Two files whose entries, in the order of the files, are not in the order of their ids.\<close>

definition second_commit :: log where
  "second_commit = \<lparr>commit_id = 2, log_i = 3, log_j = 1, log_k = 2, log_vi = 0, log_vj = 101, log_vk = 201\<rparr>"

theorem check_accepts_serial_logs_witness:
  "IsCorrect (sort_key commit_id) 3 2 2 [file_name 1 \<mapsto> log_line second_commit, file_name 2 \<mapsto> log_line first_commit]
    = Some (Inr True)"
proof -
  let ?d = "[file_name 1 \<mapsto> log_line second_commit, file_name 2 \<mapsto> log_line first_commit]"
  let ?f = "\<lambda>n. if n = 1 then [second_commit] else [first_commit]"
  have f: "concat (map ?f [1..<2 + 1]) = [second_commit, first_commit]" by (simp add: upt_rec)
  have order: "sort_key commit_id [second_commit, first_commit] = [first_commit, second_commit]"
    by (simp add: first_commit_def second_commit_def)
  have names: "file_name 2 \<noteq> file_name 1" by (simp add: file_name_inject)
  have "IsCorrect (sort_key commit_id) 3 2 2 ?d = Some
      (if int (length (concat (map ?f [1..<2 + 1]))) = sint (2 :: i32)
       then Inr (serial_from (sort_key commit_id (concat (map ?f [1..<2 + 1]))) (\<lambda>r. 100)) else Inl Assert_failed)
    \<and> (distinct (map commit_id (concat (map ?f [1..<2 + 1]))) \<longrightarrow>
        sort_key commit_id (concat (map ?f [1..<2 + 1])) = sort_key commit_id (concat (map ?f [1..<2 + 1])))"
  proof (rule check_accepts_serial_logs [OF sorts_logs_sort_key])
    fix n :: nat assume "n \<in> {1..2}"
    then have "n = 1 \<or> n = 2" by auto
    then show "?d (file_name (word_of_nat n)) = Some (concat (map log_line (?f n)))"
      "\<forall>e \<in> set (?f n). log_fits e \<and> log_in_range 3 e"
      using names by (auto simp: first_commit_def second_commit_def log_fits_def log_in_range_def)
  qed (simp add: upt_rec)
  then show ?thesis unfolding f order
    by (simp add: logged_values_def run_serially_def Let_def first_commit_def second_commit_def)
qed

theorem check_needs_every_file_witness: "IsCorrect (sort_key commit_id) 3 2 1 [file_name 1 \<mapsto> log_line first_commit] = None"
  by (rule check_needs_every_file [of 2]) (simp_all add: file_name_inject)

end
