(* ===== verification/TrxSerial.thy ===== *)
theory TrxSerial
  imports TrxCommits LogCheck
begin

text \<open>
  What follows for the transactions over any lock service: they are serializable in the order
  of their commit ids, what a transaction read stays so until it commits, rollbacks leave
  nothing, and when all threads have finished the program's own check \<open>IsCorrect\<close> accepts
  the files they wrote. The lemmas of the locale \<open>lock_service\<close> at the end say so for all
  runs of a machine.
\<close>

section \<open>The check of a finished run\<close>

lemma entries_by_owner:
  assumes "length (writers s) = length (committed s)" and "distinct ts" and "set (writers s) \<subseteq> set ts"
  shows "mset (concat (map (\<lambda>t. entries_of t s) ts)) = mset (committed s)"
proof -
  let ?zs = "zip (committed s) (writers s)"
  have zs: "map fst ?zs = committed s" "map snd ?zs = writers s" using assms(1) by simp_all
  have "mset (concat (map (\<lambda>t. entries_of t s) ts)) = (\<Sum>t\<leftarrow>ts. mset (entries_of t s))"
    by (induction ts) simp_all
  also have "\<dots> = (\<Sum>t\<in>set ts. mset (entries_of t s))" by (rule sum_list_distinct_conv_sum_set [OF assms(2)])
  also have "\<dots> = (\<Sum>t\<in>set ts. mset (map fst (filter (\<lambda>(e, w). w = t) ?zs)))" by (simp add: entries_of_def)
  also have "\<dots> = mset (map fst ?zs)"
    by (rule mset_by_owner [symmetric]) (use assms(3) zs(2) in simp_all)
  finally show ?thesis by (simp only: zs(1))
qed

lemma ids_sorted:
  assumes "ids_ok s"
  shows "sorted (map commit_id (committed s))" "inj_on commit_id (set (committed s))"
proof -
  have id: "commit_id (committed s ! p) = int p + 1" if "p < length (committed s)" for p
    using assms that by (simp add: ids_ok_def)
  then show "sorted (map commit_id (committed s))" by (auto simp: sorted_iff_nth_mono)
  show "inj_on commit_id (set (committed s))"
  proof (rule inj_onI)
    fix a b assume ab: "a \<in> set (committed s)" "b \<in> set (committed s)" "commit_id a = commit_id b"
    obtain p where p: "p < length (committed s)" "committed s ! p = a" using ab(1) by (auto simp: in_set_conv_nth)
    obtain q where q: "q < length (committed s)" "committed s ! q = b" using ab(2) by (auto simp: in_set_conv_nth)
    have "int p = int q" using id [OF p(1)] id [OF q(1)] ab(3) p(2) q(2) by simp
    then show "a = b" using p q by simp
  qed
qed

definition all_finished :: "trx_sys \<Rightarrow> bool" where
  "all_finished s \<longleftrightarrow> 0 < n_threads s \<and> (\<forall>t < n_threads s. tpcs s ! t = Finished)"

text \<open>In a finished run every thread has its number and its file, with all its entries.\<close>

lemma finished_files:
  assumes inv: "two_phase s" and L: "logged s ts" and fin: "all_finished s"
  shows "length ts = n_threads s" "set ts = {..<n_threads s}"
    "\<And>k. k < n_threads s \<Longrightarrow> files s (file_name (word_of_nat (k + 1))) = Some (concat (map log_line (entries_of (ts ! k) s)))"
    "int (length (committed s)) = sint (last_global_execution_order (mem s))"
proof -
  have N: "numbers_ok s ts" and I: "ids_ok s" using L by (simp_all add: logged_def)
  have pc: "tpcs s ! t = Finished" if "t < n_threads s" for t using fin that by (simp add: all_finished_def)
  have "t \<in> dom (number_of (mem s))" if t: "t < n_threads s" for t
    using busy_number [OF inv t] pc [OF t] by (metis domI tpc.distinct(19))
  then show all: "set ts = {..<n_threads s}" using N by (auto simp: numbers_ok_def)
  then show len: "length ts = n_threads s" using N distinct_card [of ts] by (metis card_lessThan numbers_ok_def)
  show "files s (file_name (word_of_nat (k + 1))) = Some (concat (map log_line (entries_of (ts ! k) s)))"
    if k: "k < n_threads s" for k
  proof -
    have "number_of (mem s) (ts ! k) = Some (word_of_nat (k + 1))" using N k len by (simp add: numbers_ok_def)
    then have ok: "file_ok s (ts ! k) (word_of_nat (k + 1))" using L unfolding logged_def files_ok_def by blast
    have "ts ! k < n_threads s" using k len all nth_mem [of k ts] by auto
    then have "tpcs s ! (ts ! k) = Finished" by (rule pc)
    then show ?thesis using ok by (auto simp: file_ok_def printed_def split: option.splits)
  qed
  have "0 \<in> failures s" using fin pc by (auto simp: failures_def all_finished_def)
  then have "failures s \<noteq> {}" by blast
  then show "int (length (committed s)) = sint (last_global_execution_order (mem s))" using I by (simp add: ids_ok_def)
qed

text \<open>The entries by thread number, which together are the history of the commits.\<close>

lemma finished_entries:
  assumes inv: "two_phase s" and L: "logged s ts" and fin: "all_finished s"
  obtains f where "\<And>n. n \<in> {1..n_threads s} \<Longrightarrow> files s (file_name (word_of_nat n)) = Some (concat (map log_line (f n)))"
    and "\<And>n. \<forall>e \<in> set (f n). log_fits e \<and> log_in_range (record_count (mem s)) e"
    and "mset (concat (map f [1..<n_threads s + 1])) = mset (committed s)"
proof -
  have N: "numbers_ok s ts" and I: "ids_ok s" and E: "entries_ok s" using L by (simp_all add: logged_def)
  note F = finished_files [OF assms]
  define f where "f n = entries_of (ts ! (n - 1)) s" for n
  have "map f [1..<n_threads s + 1] = map (\<lambda>t. entries_of t s) ts"
    by (rule nth_equalityI) (simp_all add: F(1) f_def del: upt_Suc)
  then have es: "concat (map f [1..<n_threads s + 1]) = concat (map (\<lambda>t. entries_of t s) ts)" by simp
  have m: "mset (concat (map f [1..<n_threads s + 1])) = mset (committed s)"
    unfolding es by (rule entries_by_owner) (use N I in \<open>auto simp: numbers_ok_def ids_ok_def\<close>)
  have lines: "files s (file_name (word_of_nat n)) = Some (concat (map log_line (f n)))" if n: "n \<in> {1..n_threads s}" for n
  proof -
    have "n - 1 < n_threads s" "n - 1 + 1 = n" using n by auto
    then show ?thesis using F(3) [of "n - 1"] by (simp only: f_def)
  qed
  have "set (f n) \<subseteq> set (committed s)" for n by (auto simp: f_def entries_of_def dest: set_zip_leftD)
  then have "\<forall>e \<in> set (f n). log_fits e \<and> log_in_range (record_count (mem s)) e" for n using E by (auto simp: entries_ok_def)
  then show thesis using that lines m by blast
qed

lemma finished_IsCorrect:
  assumes srt: "sorts_logs sort_logs" and inv: "two_phase s" and L: "logged s ts" and fin: "all_finished s"
  shows "IsCorrect sort_logs (record_count (mem s)) (n_threads s) (last_global_execution_order (mem s)) (files s) = Some (Inr True)"
proof -
  have I: "ids_ok s" and E: "entries_ok s" using L by (simp_all add: logged_def)
  obtain f where f: "\<And>n. n \<in> {1..n_threads s} \<Longrightarrow> files s (file_name (word_of_nat n)) = Some (concat (map log_line (f n)))"
    "\<And>n. \<forall>e \<in> set (f n). log_fits e \<and> log_in_range (record_count (mem s)) e"
    and m: "mset (concat (map f [1..<n_threads s + 1])) = mset (committed s)" using finished_entries [OF inv L fin] by blast
  let ?es = "concat (map f [1..<n_threads s + 1])"
  have len: "length ?es = length (committed s)" using m by (metis size_mset)
  have "inj_on commit_id (set ?es)" using ids_sorted(2) [OF I] mset_eq_setD [OF m] by (simp only:)
  then have "sort_logs ?es = sort_key commit_id ?es" by (rule sorts_logs_unique [OF srt])
  also have "\<dots> = committed s"
    using ids_sorted [OF I] m by (intro sort_key_inj_key_eq) (simp_all add: set_mset_mset [symmetric] del: set_mset_mset upt_Suc)
  finally have sort: "sort_logs ?es = committed s" .
  have "int (length (committed s)) < 2 ^ 31" using I by (auto simp: ids_ok_def)
  then have "length ?es < 2 ^ 63" unfolding len by simp
  then have "IsCorrect sort_logs (record_count (mem s)) (n_threads s) (last_global_execution_order (mem s)) (files s) = Some
    (if int (length ?es) = sint (last_global_execution_order (mem s)) then Inr (serial_from (sort_logs ?es) (\<lambda>r. 100)) else Inl Assert_failed)"
    using f by (intro IsCorrect_verdict [OF srt]) simp_all
  then show ?thesis using E unfolding len sort finished_files(4) [OF inv L fin] by (simp add: entries_ok_def)
qed

section \<open>Serial values\<close>

lemma one_writer:
  assumes inv: "two_phase s" and u: "u < n_threads s" "pend s u r \<noteq> 0" and v: "v < n_threads s" "pend s v r \<noteq> 0"
  shows "u = v"
proof -
  have "(j_pending (tpcs s ! u) (length (deque u (mem s))) \<and> r = rec_j (locs s ! u))
      \<or> (k_pending (tpcs s ! u) \<and> r = rec_k (locs s ! u))"
    using u(2) by (auto simp: pend_def pending_def split: if_splits)
  then have "\<exists>k. held_at s u k \<and> fst (wanted (locs s ! u) ! k) = r"
    using j_pending_held [OF inv u(1)] k_pending_held [OF inv u(1)] by (metis One_nat_def fst_conv wanted_nth(2,3))
  then show ?thesis using pend_other [OF inv _ v(1)] v(2) by metis
qed

lemma serial_state:
  assumes inv: "two_phase s" "valued s" "logged s ts" and r: "r \<in> {1..record_count (mem s)}"
  shows "serial_from (committed s) (\<lambda>r. 100)
    \<and> value_at (mem s) r = serial_db (committed s) r + (\<Sum>u<n_threads s. pend s u r)
    \<and> (\<forall>u < n_threads s. \<forall>v < n_threads s. pend s u r \<noteq> 0 \<and> pend s v r \<noteq> 0 \<longrightarrow> u = v)"
proof -
  have E: "entries_ok s" using inv(3) by (simp add: logged_def)
  have "lock_table (mem s) r \<noteq> None" using E r unfolding entries_ok_def by metis
  moreover have "\<forall>u < n_threads s. \<forall>v < n_threads s. pend s u r \<noteq> 0 \<and> pend s v r \<noteq> 0 \<longrightarrow> u = v"
    using one_writer [OF inv(1)] by blast
  ultimately show ?thesis using E inv(2) by (simp add: entries_ok_def valued_def)
qed

lemma quiescent_state:
  assumes inv: "valued s" "logged s ts" and "\<forall>t < n_threads s. tpcs s ! t = Picking \<or> tpcs s ! t = Finished"
    and r: "r \<in> {1..record_count (mem s)}"
  shows "value_at (mem s) r = serial_db (committed s) r"
proof -
  have "pend s u r = 0" if "u < n_threads s" for u using assms(3) that by (auto simp: pend_def pending_def)
  then have "(\<Sum>u<n_threads s. pend s u r) = 0" by (intro sum.neutral) simp
  moreover have "lock_table (mem s) r \<noteq> None" using inv(2) r unfolding logged_def entries_ok_def by metis
  ultimately show ?thesis using inv(1) by (simp add: valued_def)
qed

lemma read_state:
  assumes inv: "two_phase s" "valued s" and t: "t < n_threads s" "has_read (tpcs s ! t)"
  shows "record_i (locs s ! t) = serial_db (committed s) (rec_i (locs s ! t))
    \<and> value_at (mem s) (rec_i (locs s ! t)) = record_i (locs s ! t)"
proof -
  have r: "record_i (locs s ! t) = serial_db (committed s) (rec_i (locs s ! t))"
    using inv(2) t by (simp add: valued_def thread_valued_def)
  have "records_ok (mem s) (locs s ! t)"
    by (rule kept_records [OF inv(1) t(1)]) (use t(2) in \<open>cases "tpcs s ! t"; simp add: idle_pc_def\<close>)
  then have tab: "lock_table (mem s) (rec_i (locs s ! t)) \<noteq> None" "rec_i (locs s ! t) \<noteq> rec_j (locs s ! t)"
    "rec_i (locs s ! t) \<noteq> rec_k (locs s ! t)" by (simp_all add: records_ok_def wanted_def)
  have "value_at (mem s) (rec_i (locs s ! t)) = serial_db (committed s) (rec_i (locs s ! t))"
    using serial_read [OF inv has_read_held [OF inv(1) t]] tab by (simp add: pend_def pending_def)
  then show ?thesis using r by simp
qed

lemma ids_state:
  assumes "logged s ts"
  shows "map commit_id (committed s) = map (\<lambda>p. int p + 1) [0..<length (committed s)]
    \<and> int (length (committed s)) \<le> sint (last_global_execution_order (mem s))
    \<and> sint (global_execution_count (mem s)) = int (length (committed s)) + int (card (failures s))
    \<and> (failures s = {} \<or> int (length (committed s)) = sint (last_global_execution_order (mem s)))"
proof -
  have "map commit_id (committed s) = map (\<lambda>p. int p + 1) [0..<length (committed s)]"
    using assms by (intro nth_equalityI) (simp_all add: logged_def ids_ok_def)
  then show ?thesis using assms by (auto simp: logged_def ids_ok_def)
qed

section \<open>All runs over a lock service\<close>

context lock_service begin

lemma service_serializable:
  assumes "reach init step s" and "r \<in> {1..record_count (mem (view s))}"
  shows "serial_from (committed (view s)) (\<lambda>r. 100)
    \<and> value_at (mem (view s)) r = serial_db (committed (view s)) r + (\<Sum>u<n_threads (view s). pend (view s) u r)
    \<and> (\<forall>u < n_threads (view s). \<forall>v < n_threads (view s). pend (view s) u r \<noteq> 0 \<and> pend (view s) v r \<noteq> 0 \<longrightarrow> u = v)"
  using service_runs [OF assms(1)] serial_state assms(2) by blast

lemma service_check:
  assumes "sorts_logs sort_logs" and "reach init step s" and "all_finished (view s)"
  shows "IsCorrect sort_logs (record_count (mem (view s))) (n_threads (view s)) (last_global_execution_order (mem (view s)))
    (files (view s)) = Some (Inr True)"
  using service_runs [OF assms(2)] finished_IsCorrect [OF assms(1) _ _ assms(3)] by blast

lemma service_quiescent:
  assumes "reach init step s" and "\<forall>t < n_threads (view s). tpcs (view s) ! t = Picking \<or> tpcs (view s) ! t = Finished"
    and "r \<in> {1..record_count (mem (view s))}"
  shows "value_at (mem (view s)) r = serial_db (committed (view s)) r"
  using service_runs [OF assms(1)] quiescent_state [OF _ _ assms(2,3)] by blast

lemma service_reads:
  assumes "reach init step s" and "t < n_threads (view s)" and "has_read (tpcs (view s) ! t)"
  shows "record_i (locs (view s) ! t) = serial_db (committed (view s)) (rec_i (locs (view s) ! t))
    \<and> value_at (mem (view s)) (rec_i (locs (view s) ! t)) = record_i (locs (view s) ! t)"
  using service_runs [OF assms(1)] read_state [OF _ _ assms(2,3)] by blast

lemma service_ids:
  assumes "reach init step s"
  shows "map commit_id (committed (view s)) = map (\<lambda>p. int p + 1) [0..<length (committed (view s))]
    \<and> int (length (committed (view s))) \<le> sint (last_global_execution_order (mem (view s)))
    \<and> sint (global_execution_count (mem (view s))) = int (length (committed (view s))) + int (card (failures (view s)))
    \<and> (failures (view s) = {} \<or> int (length (committed (view s))) = sint (last_global_execution_order (mem (view s))))"
  using service_runs [OF assms] ids_state by blast

end

end
