(* ===== verification/TrxService.thy ===== *)
theory TrxService
  imports TrxSerial
begin

text \<open>
  The lock manager with the global mutex is a lock service: its locking invariant gives the
  two-phase contract, and \<open>AcquireLock\<close>, the wake-up and \<open>ReleaseLock\<close> are steps inside the
  lock manager.
\<close>

section \<open>The contract\<close>

lemma locking_thread_kept:
  assumes inv: "locking s Q" and t: "t < n_threads s" "tpcs s ! t \<noteq> Picking"
  shows "thread_kept s t"
proof -
  obtain x where x: "trx_node_table (mem s) t = Some x" "node_fine (mem s) (tpcs s ! t) (locs s ! t) t x"
    "deque t (mem s) = trx_lock_deque x" using thread_node [OF inv t] by metis
  have "k < length (deque t (mem s))" if "k < granted_to (tpcs s ! t) (length (deque t (mem s)))" for k
    using that granted_count [of "tpcs s ! t" "length (deque t (mem s))"] thread_count [OF inv t] by (auto simp: count_near_def)
  then show ?thesis
    using x thread_slot [OF inv t] order_trans [OF kept_from_live]
    by (auto simp: thread_kept_def Let_def count_near_def node_fine_def)
qed

lemma locking_two_phase:
  assumes inv: "locking s Q"
  shows "two_phase s"
proof -
  have held: "deque t (mem s) ! k < length (heap (mem s)) \<and> state (lk (mem s) (deque t (mem s) ! k)) = ACTIVE
      \<and> thread_id (lk (mem s) (deque t (mem s) ! k)) = t
      \<and> record_id (lk (mem s) (deque t (mem s) ! k)) = fst (wanted (locs s ! t) ! k)
      \<and> mode (lk (mem s) (deque t (mem s) ! k)) = snd (wanted (locs s ! t) ! k)"
    if "held_at s t k" for t k
    using that locking_thread_kept [OF inv, of t] by (simp add: held_at_def thread_kept_def Let_def slot_fine_def prod_eq_iff)
  have "held_apart s t k u k'" if "held_at s t k" "held_at s u k'" "t \<noteq> u" for t u k k'
  proof -
    let ?a = "deque t (mem s) ! k" and ?b = "deque u (mem s) ! k'"
    note a = held [OF that(1)] and b = held [OF that(2)]
    have "?a \<noteq> ?b" using a b that(3) by auto
    then show ?thesis
      using granted_locks_compatible [OF inv, of ?a ?b] a b
      by (simp add: held_apart_def granted_def)
  qed
  moreover have "length (locs s) = n_threads s" by (rule lock_inv_parts(3) [OF locking_lock_inv [OF inv]])
  ultimately show ?thesis using locking_thread_kept [OF inv] unfolding two_phase_def by blast
qed

section \<open>The steps inside the lock manager\<close>

lemma core_diff: "core l = core l' \<Longrightarrow> diff l = diff l'"
  by (simp add: core_def)

lemma acquired_number:
  "acquired_as t md r m Q a S cl cn m' \<Longrightarrow> number_of m' = number_of m"
  by (auto simp: acquired_as_def number_of_def fun_eq_iff option.map_comp comp_def)

lemma acquired_deque:
  assumes "acquired_as t md r m Q a S cl cn m'" and "trx_node_table m t = Some x"
  shows "deque u m' = (if u = t then deque t m @ [a] else deque u m)"
  using assms by (simp add: acquired_as_def deque_def trx_of_def)

lemma acquire_move:
  assumes inv: "locking s Q" and t: "t < n_threads s" "tpcs s ! t = Calling st" and step: "acquire_call t st s = Inr s'"
  shows "lock_move t s s'"
proof -
  obtain a m' S cl cn p where acq: "s' = go t p m' s" "acquired_as t (stage_mode st) (stage_record st (locs s ! t)) (mem s) Q a S cl cn m'"
    and out: "acquire_outcome (mem s) Q t st (stage_record st (locs s ! t)) a S cl cn p"
    using acquire_call_ok [OF inv t] step by auto
  have pick: "tpcs s ! t \<noteq> Picking" using t(2) by simp
  obtain x where x: "trx_node_table (mem s) t = Some x" using thread_node [OF inv t(1) pick] by metis
  note dq = acquired_deque [OF acq(2) x]
  have len: "length (deque t (mem s)) = stage_no st" using thread_count [OF inv t(1) pick] t(2) by simp
  have p: "p = Using st a \<or> p = Undoing False 0 \<or> p = Waiting st a" using out by (auto simp: acquire_outcome_def)
  have "diff (lk m' (deque u (mem s) ! k)) = diff (lk (mem s) (deque u (mem s) ! k))" if held: "held_at s u k" for u k
  proof -
    let ?b = "deque u (mem s) ! k"
    have b: "?b < length (heap (mem s))" "state (lk (mem s) ?b) = ACTIVE" using held_lock [OF locking_two_phase [OF inv] held] by auto
    moreover have "?b \<noteq> a" using b acq(2) by (auto simp: acquired_as_def)
    ultimately have "core (lk m' ?b) = core (lk (mem s) ?b)" using acq(2) by (simp add: acquired_as_def)
    then show ?thesis by (rule core_diff)
  qed
  moreover have "same_data (mem s) m'" using acq(2) acquired_number [OF acq(2)] by (simp add: same_data_def acquired_as_def)
  ultimately show ?thesis
    using t(2) p len by (auto simp: lock_move_def acq(1) dq undo_from_def)
qed

lemma wake_up_move:
  assumes "tpcs s ! t = Waiting st a"
  shows "lock_move t s (wake_up t st a s)"
proof -
  have dq: "deque u (AcquireLock_resume t a m) = deque u m" for u m
    by (simp add: AcquireLock_resume_def deque_def trx_of_def upd_trx_def upd_lock_def split: option.splits)
  have "same_data m (AcquireLock_resume t a m)" for m
    by (auto simp: same_data_def AcquireLock_resume_def values_of_def number_of_def upd_trx_def upd_lock_def globals_def fun_eq_iff option.map_comp comp_def split: option.splits)
  then show ?thesis
    using assms by (auto simp: lock_move_def wake_up_def dq) (simp add: AcquireLock_resume_def nth_upd)
qed

lemma released_diff:
  assumes rel: "released_as a m Q Q' m'" and b: "b < length (heap m)" and a: "a < length (heap m)"
  shows "diff (lk m' b) = diff (lk m b)"
proof -
  have "core (lk m' b) = core ((heap_released a m ! b)\<lparr>signal_flag := signal_flag (heap_released a m ! b)
      \<or> b \<in> set (wake_list (heap_released a m) (Q (record_id (lk m a))))\<rparr>)"
    using rel b by (simp add: released_as_def Let_def)
  then have "diff (lk m' b) = diff (heap_released a m ! b)" by (simp add: core_def)
  then show ?thesis using a by (simp add: heap_released_def nth_upd)
qed

lemma released_data: "released_as a m Q Q' m' \<Longrightarrow> same_data m m'"
  by (auto simp: released_as_def Let_def same_data_def number_of_def fun_eq_iff option.map_comp comp_def)

lemma release_move:
  assumes inv: "locking s Q" and t: "t < n_threads s" "tpcs s ! t \<noteq> Picking"
    and n: "live_from (tpcs s ! t) (length (deque t (mem s))) = n" "n < length (deque t (mem s))"
    and rel: "released_as (deque t (mem s) ! n) (mem s) Q Q' m'"
    and s': "mem s' = m'" "tpcs s' = (tpcs s)[t := p]" "locs s' = locs s" "committed s' = committed s"
      "files s' = files s" "writers s' = writers s"
    and p: "call_returns (tpcs s ! t) (deque t (mem s)) p"
  shows "lock_move t s s'"
proof -
  have "slot_fine (mem s) (tpcs s ! t) (locs s ! t) t (deque t (mem s)) n" using thread_slot [OF inv t] n by simp
  then have a: "deque t (mem s) ! n < length (heap (mem s))" by (simp add: slot_fine_def)
  show ?thesis
    using t(2) p s' released_diff [OF rel _ a] held_lock(1) [OF locking_two_phase [OF inv]] released_deque [OF rel] released_data [OF rel]
    by (auto simp: lock_move_def)
qed

lemma release_next_move:
  assumes inv: "locking s Q" and t: "t < n_threads s" "tpcs s ! t = Releasing cid n rs vs"
    and step: "release_next t cid n rs vs s = Inr s'"
  shows "lock_move t s s'"
proof -
  obtain Q' m' where r: "s' = go t (commit_from cid (Suc n) rs vs (deque t (mem s))) m' s"
    "released_as (deque t (mem s) ! n) (mem s) Q Q' m'" "length (deque t (mem s)) = 3" "n < 3"
    using release_next_ok [OF inv t] step by auto
  show ?thesis by (rule release_move [OF inv t(1) _ _ _ r(2)]) (use t r in simp_all)
qed

lemma finish_fields [simp]:
  "tpcs (finish_thread t p s) = tpcs s" "locs (finish_thread t p s) = locs s" "committed (finish_thread t p s) = committed s"
  "files (finish_thread t p s) = files s" "writers (finish_thread t p s) = writers s" "mem (finish_thread t p s) = mem s"
  by (simp_all add: finish_thread_def)

lemma undo_release_move:
  assumes inv: "locking s Q" and t: "t < n_threads s" "tpcs s ! t = Undo_release f n" and step: "undo_release t f n s = Inr s'"
  shows "lock_move t s s'"
proof -
  define p where "p = undo_from f (Suc n) (deque t (mem s))"
  obtain Q' m' where r: "s' = go t p m' (finish_thread t p (s\<lparr>mem := m'\<rparr>))"
    "released_as (deque t (mem s) ! n) (mem s) Q Q' m'" "n < length (deque t (mem s))"
    using undo_release_ok [OF inv t] step unfolding p_def by auto
  show ?thesis by (rule release_move [OF inv t(1) _ _ _ r(2), of s' p]) (use t r in \<open>simp_all add: p_def\<close>)
qed

section \<open>The service\<close>

lemma access_service:
  assumes inv: "locking s Q" and t: "t < n_threads s" "can_go t s" and step: "trx_access t s = Inr s'"
  shows "lock_move t s s' \<or> data_move t s s'"
proof (cases "data_pc (tpcs s ! t)")
  case True
  then show ?thesis using step by (simp add: data_move_def)
next
  case False
  then show ?thesis
    using t step acquire_move [OF inv t(1)] wake_up_move release_next_move [OF inv t(1)] undo_release_move [OF inv t(1)]
    by (cases "tpcs s ! t") (auto simp: trx_access_def can_go_def)
qed

lemma trx_service_step:
  assumes inv: "locking s Q" and step: "trx_step s s'"
  shows "service_step s s'"
proof -
  obtain e where "trx_act e s s'" "\<And>t. e \<noteq> Spurious t" using step by (auto simp: trx_step_def)
  then show ?thesis
    unfolding service_step_def using access_service [OF inv] by (cases rule: trx_act.cases) blast+
qed

interpretation trx_service: lock_service trx_start trx_step "\<lambda>s. \<exists>Q. locking s Q" "\<lambda>s. s"
  by unfold_locales (use locking_two_phase trx_service_step in blast)+

end
