(* ===== verification/TrxProps.thy ===== *)
theory TrxProps
  imports TrxRun
begin

text \<open>
  Properties of the transactions under the global mutex, for all reachable states: no access
  fails, exclusive locks exclude, transactions are two-phase, the deadlock check is exact,
  nobody sleeps without a lock ahead that somebody still holds, and the machine never stops
  with an unfinished thread.
\<close>

section \<open>Consequences of the invariant\<close>

lemma reach_locking: "trx_reach s \<Longrightarrow> \<exists>Q. locking s Q"
  by (rule trx_locking.always)

text \<open>A thread that sleeps has a lock of another unfinished transaction ahead of its own.\<close>

lemma sleeper_awaits:
  assumes inv: "locking s Q" and t: "t < n_threads s" "tpcs s ! t = Waiting st a"
    and sleeps: "cond (trx_of t (mem s)) \<noteq> Notified"
  shows "\<exists>b \<in> set (ahead (mem s) Q a). b \<in> set (unreleased (mem s) (tpcs s) (thread_id (lk (mem s) b)))"
proof -
  note li = locking_lock_inv [OF inv]
  obtain x where x: "trx_node_table (mem s) t = Some x" "node_fine (mem s) (tpcs s ! t) (locs s ! t) t x"
    "trx_of t (mem s) = x" using thread_node [OF inv t(1)] t(2) by (metis tpc.distinct(3))
  then have flag: "\<not> signal_flag (lk (mem s) a)"
    using sleeps t(2) by (auto simp: node_fine_def split: if_splits)
  have a: "a < length (heap (mem s))" "state (lk (mem s) a) = WAIT" using waiting_lock [OF li t] by auto
  then have "a \<in> set (Q (record_id (lk (mem s) a)))" using live_in_queue [OF li a(1)] by simp
  then obtain ys where q: "Q (record_id (lk (mem s) a)) = ahead (mem s) Q a @ a # ys"
    unfolding ahead_def using takeWhile_split by metis
  have "awaited (mem s) (tpcs s) (ahead (mem s) Q a @ a # ys)"
    using lock_inv_parts(10) [OF li, of "record_id (lk (mem s) a)"] q by metis
  from awaitedD [OF this a(2) flag] show ?thesis .
qed

lemma unreleased_thread_busy:
  "b \<in> set (unreleased m ps u) \<Longrightarrow> ps ! u \<noteq> Picking \<and> ps ! u \<noteq> Finished"
  by (cases "ps ! u") (auto simp: unreleased_def)

lemma unreleased_owner:
  assumes inv: "locking s Q" and "b \<in> set (ahead (mem s) Q a)"
    and "b \<in> set (unreleased (mem s) (tpcs s) (thread_id (lk (mem s) b)))"
  shows "thread_id (lk (mem s) b) < n_threads s"
proof -
  note li = locking_lock_inv [OF inv]
  have "b \<in> set (Q (record_id (lk (mem s) a)))" using assms(2) by (auto simp: ahead_def dest: set_takeWhileD)
  then show ?thesis using owner_in_range [OF li] queued_in_heap [OF li] by blast
qed

text \<open>If nobody can go, every unfinished thread sleeps and waits behind another one that does.\<close>

lemma some_thread_moves:
  assumes inv: "locking s Q" and t: "t < n_threads s" "tpcs s ! t \<noteq> Finished"
  shows "\<exists>u < n_threads s. tpcs s ! u = Picking \<or> can_go u s"
proof (rule ccontr)
  assume stuck: "\<not> ?thesis"
  note li = locking_lock_inv [OF inv]
  define W where "W = {u. u < n_threads s \<and> tpcs s ! u \<noteq> Finished}"
  have sleeping: "\<exists>st a. tpcs s ! u = Waiting st a \<and> cond (trx_of u (mem s)) \<noteq> Notified" if "u \<in> W" for u
    using stuck that by (cases "tpcs s ! u") (auto simp: W_def can_go_def)
  have succ: "\<exists>v \<in> W. (u, v) \<in> waits_behind (mem s) Q" if u: "u \<in> W" for u
  proof -
    obtain st a where a: "tpcs s ! u = Waiting st a" "cond (trx_of u (mem s)) \<noteq> Notified" using sleeping [OF u] by blast
    have un: "u < n_threads s" using u by (simp add: W_def)
    obtain b where b: "b \<in> set (ahead (mem s) Q a)"
      "b \<in> set (unreleased (mem s) (tpcs s) (thread_id (lk (mem s) b)))"
      using sleeper_awaits [OF inv un a] by blast
    define v where "v = thread_id (lk (mem s) b)"
    have v: "v < n_threads s" using unreleased_owner [OF inv b] by (simp add: v_def)
    then have W: "v \<in> W" using unreleased_thread_busy [OF b(2) [folded v_def]] by (simp add: W_def)
    obtain st' a' where wait: "tpcs s ! v = Waiting st' a'" using sleeping [OF W] by blast
    obtain x :: trx_node and k where "trx_lock_deque x ! k = b" "slot_fine (mem s) (tpcs s ! v) (locs s ! v) v (trx_lock_deque x) k"
      using unreleased_fine [OF li v b(2) [folded v_def]] by blast
    then have "state (lk (mem s) b) = expected (tpcs s ! v) (length (trx_lock_deque x)) k"
      by (simp only: slot_fine_def)
    then have "state (lk (mem s) b) \<noteq> OBSOLETE" using wait by simp
    moreover have "conflict_lock (trx_of u (mem s)) = Some a"
    proof -
      have "tpcs s ! u \<noteq> Picking" using a(1) by simp
      then have "node_fine (mem s) (tpcs s ! u) (locs s ! u) u (trx_of u (mem s))"
        by (rule thread_node [OF inv un]) simp
      then show ?thesis using a(1) by (simp add: node_fine_def)
    qed
    ultimately have "(u, v) \<in> waits_behind (mem s) Q" using b(1) unfolding waits_behind_iff v_def by blast
    then show ?thesis using W by blast
  qed
  have "W \<noteq> {}" "finite W" using t by (auto simp: W_def)
  define E where "E = waits_behind (mem s) Q \<inter> W \<times> W"
  have "acyclic E" by (rule acyclic_subset [OF lock_inv_parts(5) [OF li]]) (simp add: E_def)
  moreover have "finite E" using \<open>finite W\<close> by (simp add: E_def)
  ultimately have wf: "wf (E\<inverse>)" by (intro finite_acyclic_wf_converse)
  obtain w where "w \<in> W" using \<open>W \<noteq> {}\<close> by blast
  with wf obtain z where z: "z \<in> W" "\<And>y. (y, z) \<in> E\<inverse> \<Longrightarrow> y \<notin> W"
    by (rule wfE_min [of "E\<inverse>" w W]) (rule that)
  obtain y where y: "y \<in> W" "(z, y) \<in> waits_behind (mem s) Q" using succ [OF z(1)] by blast
  then have "(y, z) \<in> E\<inverse>" using z(1) by (simp add: E_def)
  from z(2) [OF this] y(1) show False by contradiction
qed

section \<open>Two phases\<close>

text \<open>The program points before the first release, and how many calls have their lock.\<close>

fun calls_done :: "tpc \<Rightarrow> nat option" where
  "calls_done (Calling st) = Some (stage_no st)"
| "calls_done (Using st a) = Some (Suc (stage_no st))"
| "calls_done Commit_call = Some 3"
| "calls_done (Reading_back cid n rs vs) = (if n = 0 then Some 3 else None)"
| "calls_done p = None"

lemma all_locks_held:
  assumes inv: "locking s Q" and t: "t < n_threads s" and n: "calls_done (tpcs s ! t) = Some n"
  shows "map (\<lambda>a. (record_id (lk (mem s) a), mode (lk (mem s) a), state (lk (mem s) a))) (deque t (mem s))
    = map (\<lambda>(r, md). (r, md, ACTIVE)) (take n (wanted (locs s ! t)))"
proof (rule nth_equalityI)
  have pick: "tpcs s ! t \<noteq> Picking" using n by auto
  have le: "stage_no st \<le> 2" "stage_no st \<le> 3" for st by (cases st; simp)+
  have len: "length (deque t (mem s)) = n" using thread_count [OF inv t pick] n
    by (cases "tpcs s ! t") (simp_all split: if_splits)
  have le3: "n \<le> 3" using n le by (cases "tpcs s ! t") (auto split: if_splits)
  then show "length (map (\<lambda>a. (record_id (lk (mem s) a), mode (lk (mem s) a), state (lk (mem s) a))) (deque t (mem s)))
    = length (map (\<lambda>(r, md). (r, md, ACTIVE)) (take n (wanted (locs s ! t))))" using len le3 by (simp add: wanted_def)
  fix k assume "k < length (map (\<lambda>a. (record_id (lk (mem s) a), mode (lk (mem s) a), state (lk (mem s) a))) (deque t (mem s)))"
  then have k: "k < n" "k < length (deque t (mem s))" using len by simp_all
  have "live_from (tpcs s ! t) (length (deque t (mem s))) = 0" using n by (cases "tpcs s ! t") (auto split: if_splits)
  then have "slot_fine (mem s) (tpcs s ! t) (locs s ! t) t (deque t (mem s)) k"
    using thread_slot [OF inv t pick _ k(2)] by simp
  moreover have "k < length (take n (wanted (locs s ! t)))" using k le3 by (simp add: wanted_def)
  moreover have "expected (tpcs s ! t) (length (deque t (mem s))) k = ACTIVE"
    using n by (cases "tpcs s ! t") auto
  ultimately show "map (\<lambda>a. (record_id (lk (mem s) a), mode (lk (mem s) a), state (lk (mem s) a))) (deque t (mem s)) ! k
    = map (\<lambda>(r, md). (r, md, ACTIVE)) (take n (wanted (locs s ! t))) ! k"
    using k len by (simp add: slot_fine_def case_prod_unfold prod_eq_iff)
qed

section \<open>Properties\<close>

text \<open>
  C13: in every reachable state, whatever a thread does next - its critical section of
  \<open>AcquireLock\<close> or \<open>ReleaseLock\<close>, reading or changing a record, committing, rolling back -
  fails no assertion, dereferences no null pointer and ends all its loops.
\<close>

theorem no_transaction_access_fails:
  assumes "trx_reach s" and "t < n_threads s" and "can_go t s"
  shows "\<exists>s'. trx_access t s = Inr s'"
  using reach_locking [OF assms(1)] trx_access_ok [OF _ assms(2,3)] by blast

text \<open>
  C7: two granted locks on one record are both shared: of two transactions that hold a
  lock on a record none writes it.
\<close>

theorem exclusive_locks_exclude:
  assumes "trx_reach s" and "a < length (heap (mem s))" and "b < length (heap (mem s))" and "a \<noteq> b"
    and "record_id (lk (mem s) a) = record_id (lk (mem s) b)"
    and "state (lk (mem s) a) = ACTIVE" and "state (lk (mem s) b) = ACTIVE"
  shows "mode (lk (mem s) a) = SHARED \<and> mode (lk (mem s) b) = SHARED"
  using reach_locking [OF assms(1)] granted_locks_compatible [OF _ assms(2-5)] assms(6,7)
  by (auto simp: granted_def)

text \<open>
  C8: the machine is never stuck: as long as some thread has not finished, some thread can
  make its next access or pick its next transaction.
\<close>

theorem transactions_never_stuck:
  assumes "trx_reach s" and "t < n_threads s" and "tpcs s ! t \<noteq> Finished"
  shows "\<exists>u < n_threads s. tpcs s ! u = Picking \<or> (can_go u s \<and> (\<exists>s'. trx_access u s = Inr s'))"
proof -
  obtain Q where Q: "locking s Q" using reach_locking [OF assms(1)] by blast
  obtain u where "u < n_threads s" "tpcs s ! u = Picking \<or> can_go u s" using some_thread_moves [OF Q assms(2,3)] by blast
  then show ?thesis using trx_access_ok [OF Q] by blast
qed

text \<open>
  C12: no wake-up is lost: on the path from the record's head to the lock of a thread that
  sleeps and was not notified there is a lock which an unfinished transaction still has to
  release.
\<close>

theorem no_lost_wake_up:
  assumes "trx_reach s" and "t < n_threads s" and "tpcs s ! t = Waiting st a" and "cond (trx_of t (mem s)) = Sleeping"
  shows "\<exists>node bs b. lock_table (mem s) (record_id (lk (mem s) a)) = Some node
    \<and> collect_locks (Suc (length (heap (mem s)))) (heap (mem s)) (head node) a = Inr bs \<and> b \<in> set bs
    \<and> thread_id (lk (mem s) b) < n_threads s
    \<and> b \<in> set (unreleased (mem s) (tpcs s) (thread_id (lk (mem s) b)))"
proof -
  obtain Q where Q: "locking s Q" using reach_locking [OF assms(1)] by blast
  obtain b where b: "b \<in> set (ahead (mem s) Q a)"
    "b \<in> set (unreleased (mem s) (tpcs s) (thread_id (lk (mem s) b)))"
    using sleeper_awaits [OF Q assms(2,3)] assms(4) by auto
  note li = locking_lock_inv [OF Q]
  let ?r = "record_id (lk (mem s) a)"
  have "a \<in> set (Q ?r)" using live_in_queue [OF li] waiting_lock [OF li assms(2,3)] by simp
  then obtain ys where q: "Q ?r = ahead (mem s) Q a @ a # ys" unfolding ahead_def using takeWhile_split by metis
  then obtain node where node: "lock_table (mem s) ?r = Some node" "queue_ok (mem s) Q ?r node"
    using lock_inv_parts(1) [OF li] unfolding table_inv_def by fastforce
  have chain: "chain (heap (mem s)) (head node) (ahead (mem s) Q a @ a # ys)" "distinct (ahead (mem s) Q a @ a # ys)"
    using node(2) q by (simp_all only: queue_ok_def)
  have "collect_locks (Suc (length (heap (mem s)))) (heap (mem s)) (head node) a = Inr (ahead (mem s) Q a)"
    by (rule collect_locks_result [OF chain(1)]) (use chain(2) chain_length [OF chain] in auto)
  then show ?thesis using node(1) b unreleased_owner [OF Q b] by blast
qed

text \<open>
  C14: transactions are two-phase: until the commit reads its first record back, the
  transaction holds an active lock for every call it has made, on the records and in the
  modes of the calls and in their order.
\<close>

theorem locks_kept_until_commit:
  assumes "trx_reach s" and "t < n_threads s" and "calls_done (tpcs s ! t) = Some n"
  shows "map (\<lambda>a. (record_id (lk (mem s) a), mode (lk (mem s) a), state (lk (mem s) a))) (deque t (mem s))
    = map (\<lambda>(r, md). (r, md, ACTIVE)) (take n (wanted (locs s ! t)))"
  using reach_locking [OF assms(1)] all_locks_held [OF _ assms(2,3)] by blast

text \<open>
  C10: \<open>AcquireLock\<close> on a well-formed memory, for a thread that has a node and waits for
  nothing: a lock that is new or released is appended to the record's queue, no other lock
  and no value changes, and the lock is granted at once, refused, or waits, exactly as the
  queue before the call demands: it waits if a live lock ahead conflicts, and is refused if
  some transaction with a live lock ahead waits, directly or not, for this one.
\<close>

theorem acquire_lock_contract:
  assumes "table_inv m Q" and "trx_inv m Q" and "lock_table m r \<noteq> None"
    and "trx_node_table m me = Some x" and "conflict_lock x = None" and "trx_thread_id x = me"
  shows "\<exists>a m'. AcquireLock_mutex me md r m =
      Inr (if \<not> must_wait m Q md r then Granted a else if closes_cycle m Q me r then Deadlocked else Blocked a, m')
    \<and> (if \<not> must_wait m Q md r then acquired_as me md r m Q a ACTIVE None (cond x) m'
       else if closes_cycle m Q me r then acquired_as me md r m Q a OBSOLETE None (cond x) m'
       else acquired_as me md r m Q a WAIT (Some a) Sleeping m')"
  using assms by (rule AcquireLock_mutex_ok)

text \<open>
  C11: \<open>ReleaseLock\<close> on a well-formed memory, for a queued lock nobody waits with: the lock
  becomes obsolete, the released locks at the front of the record's queue leave it, and if
  the front was released then exactly the new first lock and, if it is shared, the shared
  locks right behind it are signalled, those that sleep being notified. Nothing else changes.
\<close>

theorem release_lock_contract:
  assumes "table_inv m Q" and "trx_inv m Q" and "a < length (heap m)" and "Q (record_id (lk m a)) \<noteq> []"
    and "\<And>t x c. trx_node_table m t = Some x \<Longrightarrow> conflict_lock x = Some c \<Longrightarrow> state (lk m c) = WAIT \<and> c \<noteq> a"
  shows "\<exists>Q' m'. ReleaseLock_mutex a m = Inr m' \<and> released_as a m Q Q' m'"
  using assms by (rule ReleaseLock_mutex_ok)

text \<open>
  C29: with a spurious wake-up, which the standard allows for a \<open>wait\<close> without a predicate
  in a loop, two transactions hold active exclusive locks on one record: the waiting thread
  of \<open>AcquireLock\<close> goes on and activates its lock without looking at \<open>signal_flag\<close> again.
\<close>

theorem spurious_wake_up_breaks_exclusion:
  "\<exists>s a b. reach trx_start trx_step_spurious s \<and> a < length (heap (mem s)) \<and> b < length (heap (mem s)) \<and> a \<noteq> b
    \<and> record_id (lk (mem s) a) = record_id (lk (mem s) b)
    \<and> thread_id (lk (mem s) a) \<noteq> thread_id (lk (mem s) b)
    \<and> state (lk (mem s) a) = ACTIVE \<and> state (lk (mem s) b) = ACTIVE
    \<and> mode (lk (mem s) a) = EXCLUSIVE \<and> mode (lk (mem s) b) = EXCLUSIVE"
proof -
  have "case run_trx [Pick 0 1 2 3, Go 0, Go 0, Go 0, Pick 1 1 2 3, Go 1, Go 1, Go 1, Spurious 1]
      (trx_sys_new 2 3 2 Map.empty) of None \<Rightarrow> False | Some s \<Rightarrow>
    length (heap (mem s)) = 4 \<and> (\<forall>a \<in> {1, 3}. record_id (lk (mem s) a) = 2 \<and> state (lk (mem s) a) = ACTIVE
      \<and> mode (lk (mem s) a) = EXCLUSIVE) \<and> thread_id (lk (mem s) 1) = 0 \<and> thread_id (lk (mem s) 3) = 1"
    by (simp add: run_eval cong: and_then_weak let_weak_cong del: and_then_Inr)
  then obtain s where s: "run_trx [Pick 0 1 2 3, Go 0, Go 0, Go 0, Pick 1 1 2 3, Go 1, Go 1, Go 1, Spurious 1]
      (trx_sys_new 2 3 2 Map.empty) = Some s"
    and "length (heap (mem s)) = 4 \<and> (\<forall>a \<in> {1, 3}. record_id (lk (mem s) a) = 2 \<and> state (lk (mem s) a) = ACTIVE
      \<and> mode (lk (mem s) a) = EXCLUSIVE) \<and> thread_id (lk (mem s) 1) = 0 \<and> thread_id (lk (mem s) 3) = 1"
    by (auto split: option.splits simp del: run_trx.simps)
  moreover have "trx_start (trx_sys_new 2 3 2 Map.empty)"
    unfolding trx_start_def by (intro exI [of _ 2] exI [of _ 3]) (simp add: sizes_ok_def word_sle_eq)
  then have "reach trx_start trx_step_spurious s" by (intro steps_spurious_reach [OF s] reach_start)
  ultimately show ?thesis by (intro exI [of _ s] exI [of _ 1] exI [of _ 3]) simp
qed

section \<open>Witnesses\<close>

text \<open>
  Transaction 1 waits for record 2, on which transaction 0 holds the exclusive lock; both
  have read record 1.
\<close>

definition one_waits :: "trx_event list" where
  "one_waits = [Pick 0 1 2 3, Go 0, Go 0, Go 0, Pick 1 1 2 3, Go 1, Go 1, Go 1]"

lemma one_waits_state:
  obtains s where "trx_reach s" and "n_threads s = 2" and "tpcs s ! 0 = Using Update_j 1"
    and "tpcs s ! 1 = Waiting Update_j 3" and "cond (trx_of 1 (mem s)) = Sleeping" and "length (heap (mem s)) = 4"
    and "state (lk (mem s) 0) = ACTIVE" and "state (lk (mem s) 2) = ACTIVE"
    and "record_id (lk (mem s) 0) = 1" and "record_id (lk (mem s) 2) = 1" and "can_go 0 s"
    and "state (lk (mem s) 1) = ACTIVE"
proof (rule state_from_run)
  show "case run_trx one_waits (trx_sys_new 2 3 2 Map.empty) of None \<Rightarrow> False | Some s \<Rightarrow>
      n_threads s = 2 \<and> tpcs s ! 0 = Using Update_j 1 \<and> tpcs s ! 1 = Waiting Update_j 3
      \<and> cond (trx_of 1 (mem s)) = Sleeping \<and> length (heap (mem s)) = 4
      \<and> state (lk (mem s) 0) = ACTIVE \<and> state (lk (mem s) 2) = ACTIVE
      \<and> record_id (lk (mem s) 0) = 1 \<and> record_id (lk (mem s) 2) = 1 \<and> can_go 0 s \<and> state (lk (mem s) 1) = ACTIVE"
    by (simp add: one_waits_def run_eval cong: and_then_weak let_weak_cong del: and_then_Inr)
qed (use that in \<open>simp_all add: one_waits_def sizes_ok_def word_sle_eq\<close>)

theorem no_transaction_access_fails_witness:
  "\<exists>s s'. trx_reach s \<and> tpcs s ! 0 = Using Update_j 1 \<and> trx_access 0 s = Inr s'"
proof -
  obtain s where s: "trx_reach s" "n_threads s = 2" "tpcs s ! 0 = Using Update_j 1" "can_go 0 s" by (rule one_waits_state)
  then show ?thesis using no_transaction_access_fails [of s 0] by auto
qed

theorem exclusive_locks_exclude_witness:
  "\<exists>s. trx_reach s \<and> record_id (lk (mem s) 0) = record_id (lk (mem s) 2)
    \<and> mode (lk (mem s) 0) = SHARED \<and> mode (lk (mem s) 2) = SHARED"
proof -
  obtain s where s: "trx_reach s" "length (heap (mem s)) = 4" "state (lk (mem s) 0) = ACTIVE"
    "state (lk (mem s) 2) = ACTIVE" "record_id (lk (mem s) 0) = 1" "record_id (lk (mem s) 2) = 1"
    by (rule one_waits_state)
  then show ?thesis using exclusive_locks_exclude [of s 0 2] by auto
qed

theorem transactions_never_stuck_witness:
  "\<exists>s u. trx_reach s \<and> tpcs s ! 1 = Waiting Update_j 3 \<and> u < 2
    \<and> (tpcs s ! u = Picking \<or> (can_go u s \<and> (\<exists>s'. trx_access u s = Inr s')))"
proof -
  obtain s where s: "trx_reach s" "n_threads s = 2" "tpcs s ! 1 = Waiting Update_j 3" by (rule one_waits_state)
  then show ?thesis using transactions_never_stuck [of s 1] by auto
qed

theorem no_lost_wake_up_witness:
  "\<exists>s node bs b. trx_reach s \<and> lock_table (mem s) (record_id (lk (mem s) 3)) = Some node
    \<and> collect_locks (Suc (length (heap (mem s)))) (heap (mem s)) (head node) 3 = Inr bs \<and> b \<in> set bs
    \<and> thread_id (lk (mem s) b) < 2
    \<and> b \<in> set (unreleased (mem s) (tpcs s) (thread_id (lk (mem s) b)))"
proof -
  obtain s where s: "trx_reach s" "n_threads s = 2" "tpcs s ! 1 = Waiting Update_j 3"
    "cond (trx_of 1 (mem s)) = Sleeping" by (rule one_waits_state)
  then show ?thesis using no_lost_wake_up [of s 1 Update_j 3] by (simp del: collect_locks.simps) blast
qed

theorem locks_kept_until_commit_witness:
  "\<exists>s. trx_reach s \<and> map (\<lambda>a. (record_id (lk (mem s) a), mode (lk (mem s) a), state (lk (mem s) a))) (deque 0 (mem s))
    = [(1, SHARED, ACTIVE), (2, EXCLUSIVE, ACTIVE), (3, EXCLUSIVE, ACTIVE)]"
proof -
  have "case run_trx [Pick 0 1 2 3, Go 0, Go 0, Go 0, Go 0, Go 0, Go 0] (trx_sys_new 1 3 2 Map.empty) of None \<Rightarrow> False
    | Some s \<Rightarrow> n_threads s = 1 \<and> tpcs s ! 0 = Commit_call \<and> wanted (locs s ! 0) = [(1, SHARED), (2, EXCLUSIVE), (3, EXCLUSIVE)]"
    by (simp add: wanted_def run_eval cong: and_then_weak let_weak_cong del: and_then_Inr)
  then obtain s where s: "trx_reach s" "n_threads s = 1 \<and> tpcs s ! 0 = Commit_call
      \<and> wanted (locs s ! 0) = [(1, SHARED), (2, EXCLUSIVE), (3, EXCLUSIVE)]"
    by (rule state_from_run) (simp_all add: sizes_ok_def word_sle_eq)
  then show ?thesis using locks_kept_until_commit [of s 0 3] by auto
qed

theorem acquire_lock_contract_witness:
  "\<exists>m Q (x :: trx_node). table_inv m Q \<and> must_wait m Q EXCLUSIVE 1 \<and>
    (\<exists>a m'. AcquireLock_mutex 0 EXCLUSIVE 1 m = Inr (if closes_cycle m Q 0 1 then Deadlocked else Blocked a, m')
      \<and> (if closes_cycle m Q 0 1 then acquired_as 0 EXCLUSIVE 1 m Q a OBSOLETE None (cond x) m'
         else acquired_as 0 EXCLUSIVE 1 m Q a WAIT (Some a) Sleeping m'))"
proof -
  obtain s where s: "trx_reach s" "n_threads s = 2" "tpcs s ! 0 = Using Update_j 1" "length (heap (mem s)) = 4"
    "state (lk (mem s) 2) = ACTIVE" "record_id (lk (mem s) 2) = 1" by (rule one_waits_state)
  obtain Q where Q: "locking s Q" using reach_locking [OF s(1)] by blast
  note li = locking_lock_inv [OF Q]
  obtain x where x: "trx_node_table (mem s) 0 = Some x" "node_fine (mem s) (tpcs s ! 0) (locs s ! 0) 0 x"
    using thread_node [OF Q, of 0] s(2,3) by auto
  have two: "2 \<in> set (Q 1)" using live_in_queue [OF li, of 2] s(4-6) by simp
  then have mw: "must_wait (mem s) Q EXCLUSIVE 1" using s(5) unfolding must_wait_def by (intro bexI [of _ 2]) simp_all
  moreover have "lock_table (mem s) 1 \<noteq> None"
    using two lock_inv_parts(1) [OF li] unfolding table_inv_def by fastforce
  moreover have "conflict_lock x = None" "trx_thread_id x = 0" using x(2) s(3) by (simp_all add: node_fine_def)
  ultimately have "\<exists>a m'. AcquireLock_mutex 0 EXCLUSIVE 1 (mem s) =
        Inr (if closes_cycle (mem s) Q 0 1 then Deadlocked else Blocked a, m')
      \<and> (if closes_cycle (mem s) Q 0 1 then acquired_as 0 EXCLUSIVE 1 (mem s) Q a OBSOLETE None (cond x) m'
         else acquired_as 0 EXCLUSIVE 1 (mem s) Q a WAIT (Some a) Sleeping m')"
    using acquire_lock_contract [OF lock_inv_parts(1,2) [OF li] _ x(1), of 1 EXCLUSIVE]
    by (simp only: not_True_eq_False if_False simp_thms)
  then show ?thesis using mw lock_inv_parts(1) [OF li]
    by (intro exI [of _ "mem s"] exI [of _ Q] exI [of _ x] conjI)
qed

theorem release_lock_contract_witness:
  "\<exists>m Q Q' m'. table_inv m Q \<and> 1 < length (heap m) \<and> ReleaseLock_mutex 1 m = Inr m' \<and> released_as 1 m Q Q' m'"
proof -
  obtain s where s: "trx_reach s" "n_threads s = 2" "tpcs s ! 0 = Using Update_j 1" "length (heap (mem s)) = 4"
    "state (lk (mem s) 1) = ACTIVE" by (rule one_waits_state)
  obtain Q where Q: "locking s Q" using reach_locking [OF s(1)] by blast
  note li = locking_lock_inv [OF Q]
  have a: "1 < length (heap (mem s))" using s(4) by simp
  have "state (lk (mem s) c) = WAIT \<and> c \<noteq> 1"
    if "trx_node_table (mem s) t = Some x" "conflict_lock x = Some c" for t x c
    using conflict_waits [OF li that] s(5) by auto
  then show ?thesis
    using release_lock_contract [OF lock_inv_parts(1,2) [OF li] a lock_inv_parts(6) [OF li a]] lock_inv_parts(1) [OF li] a
    by blast
qed

theorem IsDeadlock2_correct_witness:
  "\<exists>m Q. table_inv m Q \<and> IsDeadlock2 1 [0] m = Inr (True, m)
    \<and> (\<exists>a \<in> set [0]. state (lk m a) \<noteq> OBSOLETE \<and> (thread_id (lk m a), 1) \<in> (waits_behind m Q)\<^sup>+)"
proof -
  have "case run_trx [Pick 0 1 2 3, Go 0, Go 0, Pick 1 2 1 3, Go 1, Go 1, Go 0]
      (trx_sys_new 2 3 2 Map.empty) of None \<Rightarrow> False
    | Some s \<Rightarrow> length (heap (mem s)) = 3 \<and> (case IsDeadlock2 1 [0] (mem s) of Inr (b, m) \<Rightarrow> b | _ \<Rightarrow> False)"
    by (simp add: run_eval cong: and_then_weak let_weak_cong del: and_then_Inr)
  then obtain s where s: "trx_reach s" "length (heap (mem s)) = 3
      \<and> (case IsDeadlock2 1 [0] (mem s) of Inr (b, m) \<Rightarrow> b | _ \<Rightarrow> False)"
    by (rule state_from_run) (simp_all add: sizes_ok_def word_sle_eq)
  obtain Q where Q: "locking s Q" using reach_locking [OF s(1)] by blast
  note li = locking_lock_inv [OF Q]
  show ?thesis
    using IsDeadlock2_correct [OF lock_inv_parts(1,2) [OF li], of "[0]" 1] s(2) lock_inv_parts(1) [OF li]
    by (intro exI [of _ "mem s"] exI [of _ Q]) (auto simp del: deadlock_search.simps)
qed

end
