(* ===== verification/TrxCorrect.thy ===== *)
theory TrxCorrect
  imports TrxService TrxProps
begin

text \<open>
  The transactions are serializable in the order of their commit ids, and the program's own
  check confirms it: when all threads have finished, \<open>IsCorrect\<close> reads the files they wrote
  and returns true.
\<close>

section \<open>Properties\<close>

text \<open>
  C4: when every thread has finished, the program's own check succeeds on the files the
  threads wrote, whatever \<open>std::sort\<close> does with equal entries: \<open>IsCorrect\<close> returns, its
  assertion on the number of log entries holds, and it answers true.
\<close>

theorem finished_runs_pass_the_check:
  assumes "trx_reach s" and "all_finished s" and "sorts_logs sort_logs"
  shows "IsCorrect sort_logs (record_count (mem s)) (n_threads s) (last_global_execution_order (mem s)) (files s) = Some (Inr True)"
  by (rule trx_service.service_check [OF assms(3,1,2)])

text \<open>
  C5: the transactions are serializable in the order of their commit ids: the values noted
  at the commits are those of a serial execution, and every record always has its serial
  value plus the changes of the transactions that are neither committed nor rolled back,
  of which at most one has changed it.
\<close>

theorem transactions_serializable:
  assumes "trx_reach s" and "r \<in> {1..record_count (mem s)}"
  shows "serial_from (committed s) (\<lambda>r. 100)
    \<and> value_at (mem s) r = serial_db (committed s) r + (\<Sum>u<n_threads s. pend s u r)
    \<and> (\<forall>u < n_threads s. \<forall>v < n_threads s. pend s u r \<noteq> 0 \<and> pend s v r \<noteq> 0 \<longrightarrow> u = v)"
  by (rule trx_service.service_serializable [OF assms])

text \<open>
  C15: when no transaction is running, the records hold exactly the serial execution of the
  committed transactions: what aborted and refused transactions did has been undone.
\<close>

theorem quiescent_values_are_serial:
  assumes "trx_reach s" and "\<forall>t < n_threads s. tpcs s ! t = Picking \<or> tpcs s ! t = Finished"
    and "r \<in> {1..record_count (mem s)}"
  shows "value_at (mem s) r = serial_db (committed s) r"
  by (rule trx_service.service_quiescent [OF assms])

text \<open>
  C16: reads are repeatable: what a transaction read from its first record is, until it
  commits, the value the transactions committed so far have given it.
\<close>

theorem reads_are_repeatable:
  assumes "trx_reach s" and "t < n_threads s" and "has_read (tpcs s ! t)"
  shows "record_i (locs s ! t) = serial_db (committed s) (rec_i (locs s ! t))
    \<and> value_at (mem s) (rec_i (locs s ! t)) = record_i (locs s ! t)"
  by (rule trx_service.service_reads [OF assms])

text \<open>
  C17: the commit ids are 1, 2, 3, ... without gaps, never beyond the last one; the count of
  executions, an \<open>int\<close>, does not overflow; and once a commit came too late all ids are used.
\<close>

theorem commit_ids_consecutive:
  assumes "trx_reach s"
  shows "map commit_id (committed s) = map (\<lambda>p. int p + 1) [0..<length (committed s)]
    \<and> int (length (committed s)) \<le> sint (last_global_execution_order (mem s))
    \<and> sint (global_execution_count (mem s)) = int (length (committed s)) + int (card (failures s))
    \<and> (failures s = {} \<or> int (length (committed s)) = sint (last_global_execution_order (mem s)))"
  by (rule trx_service.service_ids [OF assms])

section \<open>Witnesses\<close>

text \<open>One thread commits one transaction and fails to commit a second one.\<close>

definition one_commit :: "trx_event list" where
  "one_commit = [Pick 0 1 2 3] @ replicate 14 (Go 0) @ [Pick 0 2 1 3] @ replicate 13 (Go 0)"

lemma one_commit_state:
  obtains s where "trx_reach s" and "all_finished s" and "length (committed s) = 1" and "n_threads s = 1"
    and "record_count (mem s) = 3" and "last_global_execution_order (mem s) = 1"
proof (rule state_from_run)
  show "case run_trx one_commit (trx_sys_new 1 3 1 Map.empty) of None \<Rightarrow> False | Some s \<Rightarrow>
      all_finished s \<and> length (committed s) = 1 \<and> n_threads s = 1
      \<and> record_count (mem s) = 3 \<and> last_global_execution_order (mem s) = 1"
    by (simp add: one_commit_def all_finished_def run_eval cong: and_then_weak let_weak_cong del: and_then_Inr)
qed (use that in \<open>simp_all add: one_commit_def replicate_num sizes_ok_def word_sle_eq\<close>)

theorem finished_runs_pass_the_check_witness:
  "\<exists>s. trx_reach s \<and> length (committed s) = 1 \<and> IsCorrect (sort_key commit_id) 3 1 1 (files s) = Some (Inr True)"
proof -
  obtain s where s: "trx_reach s" "all_finished s" "length (committed s) = 1" "n_threads s = 1"
    "record_count (mem s) = 3" "last_global_execution_order (mem s) = 1" by (rule one_commit_state)
  then show ?thesis using finished_runs_pass_the_check [OF s(1,2) sorts_logs_sort_key] by auto
qed

theorem transactions_serializable_witness:
  "\<exists>s. trx_reach s \<and> length (committed s) = 1 \<and> serial_from (committed s) (\<lambda>r. 100)
    \<and> value_at (mem s) 2 = serial_db (committed s) 2 + (\<Sum>u<1. pend s u 2)"
proof -
  obtain s where s: "trx_reach s" "length (committed s) = 1" "n_threads s = 1" "record_count (mem s) = 3"
    by (rule one_commit_state)
  then show ?thesis using transactions_serializable [OF s(1), of 2] by auto
qed

theorem quiescent_values_are_serial_witness:
  "\<exists>s. trx_reach s \<and> length (committed s) = 1 \<and> value_at (mem s) 2 = serial_db (committed s) 2"
proof -
  obtain s where s: "trx_reach s" "all_finished s" "length (committed s) = 1" "record_count (mem s) = 3"
    by (rule one_commit_state)
  then show ?thesis using quiescent_values_are_serial [OF s(1), of 2] by (auto simp: all_finished_def)
qed

theorem reads_are_repeatable_witness:
  "\<exists>s. trx_reach s \<and> tpcs s ! 0 = Using Update_j 1 \<and> value_at (mem s) (rec_i (locs s ! 0)) = record_i (locs s ! 0)"
proof -
  obtain s where s: "trx_reach s" "n_threads s = 2" "tpcs s ! 0 = Using Update_j 1" by (rule one_waits_state)
  then show ?thesis using reads_are_repeatable [OF s(1), of 0] by auto
qed

theorem commit_ids_consecutive_witness:
  "\<exists>s. trx_reach s \<and> map commit_id (committed s) = [1] \<and> sint (global_execution_count (mem s)) = 1 + int (card (failures s))"
proof -
  obtain s where s: "trx_reach s" "length (committed s) = 1" by (rule one_commit_state)
  then show ?thesis using commit_ids_consecutive [OF s(1)] by (intro exI [of _ s]) simp
qed

end
