(* ===== verification/LockFree.thy ===== *)
theory LockFree
  imports TrxMachine
begin

text \<open>
  The lock manager without the global mutex: \<open>AcquireLock\<close> (\<^verbatim>\<open>src/Acquire.cpp\<close>),
  \<open>IsDeadlock\<close> (\<^verbatim>\<open>src/Deadlock.cpp\<close>) and \<open>ReleaseLock\<close> (\<^verbatim>\<open>src/Release.cpp\<close>) as steps that
  make one access to shared memory each, and threads that run \<open>RepeatTrx\<close>. A step function
  takes the program point and the memory and gives the next ones.

  Several accesses are one step only where no other thread can tell: the two flags of an own
  lock (others only set them), the spinning condition on the lock before (its id and the head
  are set once), the sections under a transaction's mutex (the notification matters only to
  a thread that sleeps, and then its lock's state does not change).
\<close>

section \<open>Program points\<close>

text \<open>
  In \<open>IsDeadlock\<close>: \<open>q\<close> is the queue, \<open>pass\<close> the set of transactions passed, \<open>u\<close> the
  transaction looked at, \<open>c\<close> its conflict lock with id \<open>i\<close>, \<open>tmp\<close> the locks gathered, \<open>x\<close>
  the target.
\<close>

datatype search =
    Ds_init nat "nat list"
  | Ds_pop "nat list" "nat set"
  | Ds_conflict "nat list" "nat set" nat
  | Ds_id "nat list" "nat set" nat nat
  | Ds_head "nat list" "nat set" nat nat u64
  | Ds_same_conflict "nat list" "nat set" nat nat u64 "nat list" nat
  | Ds_same_id "nat list" "nat set" nat nat u64 "nat list" nat
  | Ds_next "nat list" "nat set" nat nat u64 "nat list" nat
  | Ds_behind "nat list" "nat set" nat nat u64 "nat list" nat
  | Ds_restart "nat list" "nat set" nat nat u64
  | Ds_restart_id "nat list" "nat set" nat nat u64 nat
  | Ds_answer bool

text \<open>
  In \<open>AcquireLock\<close>: \<open>a\<close> is the new lock, \<open>b\<close> the previous tail, \<open>w\<close> the vector of waiting
  locks, \<open>x\<close> the target, and in the check of the vector \<open>i\<close> the number of its locks left.
\<close>

datatype acq =
    Aq_find nat
  | Aq_renew nat nat
  | Aq_mode nat
  | Aq_tail nat
  | Aq_connect nat nat
  | Aq_await nat nat
  | Aq_id nat nat
  | Aq_pass nat nat
  | Aq_first_id nat
  | Aq_first_head nat
  | Aq_announce nat
  | Aq_head nat
  | Aq_collect nat "nat list" nat
  | Aq_next nat "nat list" nat
  | Aq_state nat "nat list" nat
  | Aq_behind nat "nat list" nat
  | Aq_compare nat "nat list" nat
  | Aq_wait nat "nat list" nat
  | Aq_again_state nat "nat list" nat
  | Aq_again_id nat "nat list" nat
  | Aq_unwait nat "nat list" nat
  | Aq_search nat "nat list" search
  | Aq_refuse nat
  | Aq_refused nat
  | Aq_signal nat
  | Aq_sleep nat
  | Aq_clear nat

text \<open>How a step of \<open>AcquireLock\<close> leaves it: not yet, with the lock, or with a null pointer.\<close>

datatype acq_next = Aq_on acq | Aq_got nat | Aq_null

text \<open>In \<open>ReleaseLock\<close>: \<open>y\<close> is \<open>prev\<close> and \<open>x\<close> the target.\<close>

datatype rel =
    Rl_state
  | Rl_lock
  | Rl_head
  | Rl_first nat
  | Rl_next nat
  | Rl_move nat nat
  | Rl_pass nat nat
  | Rl_test nat
  | Rl_check nat
  | Rl_wake nat
  | Rl_mode nat
  | Rl_follow nat
  | Rl_look nat
  | Rl_look_mode nat
  | Rl_signal nat
  | Rl_unlock

section \<open>The steps of IsDeadlock\<close>

text \<open>One access of the search of thread \<open>me\<close> over the vector \<open>w\<close>.\<close>

definition search_loop :: "nat list \<Rightarrow> nat set \<Rightarrow> nat \<Rightarrow> nat \<Rightarrow> u64 \<Rightarrow> nat list \<Rightarrow> nat \<Rightarrow> search" where
  "search_loop q pass u c i tmp x =
     (if x = c then Ds_pop (q @ tmp) (insert u pass) else Ds_same_conflict q pass u c i tmp x)"

fun search_access :: "nat \<Rightarrow> nat list \<Rightarrow> search \<Rightarrow> memory \<Rightarrow> (search \<times> memory) res" where
  "search_access me w (Ds_init n q) m =
     Inr (if n = 0 then Ds_pop q {}
          else Ds_init (n - 1) (if state (lk m (w ! (n - 1))) \<noteq> OBSOLETE then q @ [w ! (n - 1)] else q), m)"
| "search_access me w (Ds_pop q pass) m =
     (case q of
        [] \<Rightarrow> Inr (Ds_answer False, m)
      | x # q' \<Rightarrow> Inr (if thread_id (lk m x) \<in> pass \<or> state (lk m x) = OBSOLETE then Ds_pop q' pass
                       else Ds_conflict q' pass (thread_id (lk m x)), m))"
| "search_access me w (Ds_conflict q pass u) m =
     (let m' = GetTrxNode u m in
      Inr (case conflict_lock (trx_of u m') of
             None \<Rightarrow> Ds_pop q (insert u pass)
           | Some c \<Rightarrow> Ds_id q pass u c, m'))"
| "search_access me w (Ds_id q pass u c) m = Inr (Ds_head q pass u c (lock_id_on_record (lk m c)), m)"
| "search_access me w (Ds_head q pass u c i) m =
     and_then (get_node (record_id (lk m c)) m) (\<lambda>node.
     and_then (deref (head node)) (\<lambda>x. Inr (search_loop q pass u c i [] x, m)))"
| "search_access me w (Ds_same_conflict q pass u c i tmp x) m =
     Inr (if conflict_lock (trx_of u m) \<noteq> Some c then Ds_pop q (insert u pass)
          else Ds_same_id q pass u c i tmp x, m)"
| "search_access me w (Ds_same_id q pass u c i tmp x) m =
     Inr (if lock_id_on_record (lk m c) \<noteq> i then Ds_pop q (insert u pass)
          else if thread_id (lk m x) = me \<and> state (lk m x) \<noteq> OBSOLETE then Ds_answer True
          else Ds_next q pass u c i (tmp @ [x]) x, m)"
| "search_access me w (Ds_next q pass u c i tmp x) m =
     Inr (case next_lock (lk m x) of
            None \<Rightarrow> Ds_restart q pass u c i
          | Some y \<Rightarrow> Ds_behind q pass u c i tmp y, m)"
| "search_access me w (Ds_behind q pass u c i tmp x) m =
     Inr (if i < lock_id_on_record (lk m x) then Ds_restart q pass u c i
          else search_loop q pass u c i tmp x, m)"
| "search_access me w (Ds_restart q pass u c i) m =
     and_then (get_node (record_id (lk m c)) m) (\<lambda>node.
     and_then (deref (head node)) (\<lambda>x. Inr (Ds_restart_id q pass u c i x, m)))"
| "search_access me w (Ds_restart_id q pass u c i x) m =
     Inr (if i \<le> lock_id_on_record (lk m x) then Ds_pop q (insert u pass)
          else search_loop q pass u c i [] x, m)"
| "search_access me w (Ds_answer b) m = Inr (Ds_answer b, m)"

section \<open>The steps of AcquireLock\<close>

text \<open>The stores that renew a recycled lock, in the code's order.\<close>

fun renew :: "nat \<Rightarrow> lock_t \<Rightarrow> lock_t" where
  "renew 0 l = l\<lparr>lock_id_on_record := 0xffffffffffffffff\<rparr>"
| "renew (Suc 0) l = l\<lparr>id_pass_flag := False\<rparr>"
| "renew (Suc (Suc 0)) l = l\<lparr>state := ACTIVE\<rparr>"
| "renew (Suc (Suc (Suc 0))) l = l\<lparr>next_lock := None\<rparr>"
| "renew (Suc (Suc (Suc (Suc 0)))) l = l\<lparr>diff := 0\<rparr>"
| "renew (Suc (Suc (Suc (Suc (Suc 0))))) l = l\<lparr>head_pass_flag := False\<rparr>"
| "renew _ l = l\<lparr>signal_flag := False\<rparr>"

definition n_renewals :: nat where
  "n_renewals = 7"

text \<open>The head of the record, which the code asserts or dereferences.\<close>

definition load_head :: "nat \<Rightarrow> memory \<Rightarrow> nat res" where
  "load_head r m =
     and_then (get_node r m) (\<lambda>node.
       case head node of None \<Rightarrow> Inl Assert_failed | Some x \<Rightarrow> Inr x)"

text \<open>The end of the check of the vector when \<open>i\<close> locks are left.\<close>

definition check_rest :: "nat \<Rightarrow> nat list \<Rightarrow> nat \<Rightarrow> acq" where
  "check_rest a w i = (if i = 0 then Aq_clear a else Aq_state a w i)"

text \<open>The loop condition of the walk from the head.\<close>

definition collect_loop :: "nat \<Rightarrow> nat list \<Rightarrow> nat \<Rightarrow> acq" where
  "collect_loop a w x = (if x = a then check_rest a w (length w) else Aq_collect a w x)"

definition search_result :: "nat \<Rightarrow> nat list \<Rightarrow> search \<Rightarrow> acq" where
  "search_result a w d =
     (case d of Ds_answer found \<Rightarrow> if found then Aq_refuse a else Aq_signal a | _ \<Rightarrow> Aq_search a w d)"

text \<open>The two ways to see that a lock of the vector is not ahead of \<open>a\<close> any more.\<close>

definition is_behind :: "nat \<Rightarrow> nat \<Rightarrow> memory \<Rightarrow> bool" where
  "is_behind a x m \<longleftrightarrow> lock_id_on_record (lk m a) < lock_id_on_record (lk m x)"

definition is_obsolete :: "nat \<Rightarrow> memory \<Rightarrow> bool" where
  "is_obsolete x m \<longleftrightarrow> state (lk m x) = OBSOLETE"

text \<open>Finding a lock, recycled or new, up to the exchange of the tail.\<close>

definition recyclable :: "lock_t \<Rightarrow> bool" where
  "recyclable l \<longleftrightarrow> state l = OBSOLETE \<and> id_pass_flag l \<and> head_pass_flag l"

definition count_recycled :: "nat \<Rightarrow> memory \<Rightarrow> memory" where
  "count_recycled me m = m\<lparr>recycled_lock_count := (recycled_lock_count m)(me := recycled_lock_count m me + 1)\<rparr>"

definition allocate :: "nat \<Rightarrow> nat \<Rightarrow> memory \<Rightarrow> memory" where
  "allocate me r m =
     m\<lparr>heap := heap m @ [lock_t_new r me],
       lock_saved_vectors := (lock_saved_vectors m)(me := (lock_saved_vectors m me)(r :=
         lock_saved_vectors m me r @ [length (heap m)]))\<rparr>"

definition prepare_step :: "nat \<Rightarrow> lock_mode \<Rightarrow> nat \<Rightarrow> acq \<Rightarrow> memory \<Rightarrow> acq \<times> memory" where
  "prepare_step me md r p m =
     (case p of
        Aq_find i \<Rightarrow>
          (if i < length (lock_saved_vectors m me r)
           then (let a = lock_saved_vectors m me r ! i in
                 (if recyclable (lk m a) then Aq_renew a 0 else Aq_find (Suc i), m))
           else (Aq_mode (length (heap m)), allocate me r m))
      | Aq_renew a n \<Rightarrow>
          (if Suc n < n_renewals then (Aq_renew a (Suc n), upd_lock a (renew n) m)
           else (Aq_mode a, count_recycled me (upd_lock a (renew n) m)))
      | Aq_mode a \<Rightarrow>
          (Aq_tail a, upd_trx me (\<lambda>x. x\<lparr>trx_lock_deque := trx_lock_deque x @ [a]\<rparr>)
             (upd_lock a (\<lambda>l. l\<lparr>mode := md\<rparr>) (count_lock me m)))
      | _ \<Rightarrow> (p, m))"

text \<open>Linking the lock: the exchange of the tail, the previous lock's \<open>next\<close>, the id.\<close>

definition link_step :: "nat \<Rightarrow> nat \<Rightarrow> acq \<Rightarrow> memory \<Rightarrow> (acq \<times> memory) res" where
  "link_step me r p m =
     (case p of
        Aq_tail a \<Rightarrow>
          and_then (get_node r m) (\<lambda>node.
            Inr (case tail node of None \<Rightarrow> Aq_first_id a | Some b \<Rightarrow> Aq_connect a b,
                 upd_node r (\<lambda>n. n\<lparr>tail := Some a\<rparr>) m))
      | Aq_connect a b \<Rightarrow> Inr (Aq_await a b, upd_lock b (\<lambda>l. l\<lparr>next_lock := Some a\<rparr>) m)
      | Aq_await a b \<Rightarrow>
          and_then (get_node r m) (\<lambda>node.
            Inr (if lock_id_on_record (lk m b) = 0xffffffffffffffff \<or> head node = None
                 then Aq_await a b else Aq_id a b, m))
      | Aq_id a b \<Rightarrow>
          Inr (Aq_pass a b, upd_lock a (\<lambda>l. l\<lparr>lock_id_on_record := lock_id_on_record (lk m b) + 1\<rparr>) m)
      | Aq_pass a b \<Rightarrow>
          and_then (assert_that (\<not> id_pass_flag (lk m b)) ()) (\<lambda>_.
            Inr (Aq_announce a, upd_lock b (\<lambda>l. l\<lparr>id_pass_flag := True\<rparr>) m))
      | Aq_first_id a \<Rightarrow> Inr (Aq_first_head a, upd_lock a (\<lambda>l. l\<lparr>lock_id_on_record := 0\<rparr>) m)
      | Aq_first_head a \<Rightarrow>
          and_then (get_node r m) (\<lambda>_. Inr (Aq_announce a, upd_node r (\<lambda>n. n\<lparr>head := Some a\<rparr>) m))
      | Aq_announce a \<Rightarrow>
          and_then (assert_that (conflict_lock (trx_of me m) = None) ()) (\<lambda>_.
            Inr (Aq_head a, upd_trx me (\<lambda>x. x\<lparr>conflict_lock := Some a\<rparr>) m))
      | _ \<Rightarrow> Inr (p, m))"

text \<open>Collecting the locks ahead, which reads only, and the check of the vector.\<close>

definition walk_step :: "nat \<Rightarrow> acq \<Rightarrow> memory \<Rightarrow> acq res" where
  "walk_step r p m =
     (case p of
        Aq_head a \<Rightarrow> and_then (load_head r m) (\<lambda>x. Inr (collect_loop a [] x))
      | Aq_collect a w x \<Rightarrow> Inr (if is_behind a x m then Aq_head a else Aq_next a (w @ [x]) x)
      | Aq_next a w x \<Rightarrow>
          Inr (case next_lock (lk m x) of None \<Rightarrow> Aq_head a | Some y \<Rightarrow> collect_loop a w y)
      | Aq_state a w i \<Rightarrow>
          Inr (if is_obsolete (w ! (i - 1)) m then check_rest a w (i - 1) else Aq_behind a w i)
      | Aq_behind a w i \<Rightarrow>
          Inr (if is_behind a (w ! (i - 1)) m then check_rest a w (i - 1) else Aq_compare a w i)
      | Aq_compare a w i \<Rightarrow>
          Inr (if mode (lk m a) = EXCLUSIVE \<or> mode (lk m (w ! (i - 1))) = EXCLUSIVE
               then Aq_wait a w i else check_rest a w (i - 1))
      | Aq_again_state a w i \<Rightarrow>
          Inr (if is_obsolete (w ! (i - 1)) m then Aq_unwait a w i else Aq_again_id a w i)
      | Aq_again_id a w i \<Rightarrow>
          Inr (if is_behind a (w ! (i - 1)) m then Aq_unwait a w i
               else Aq_search a w (Ds_init (length w) []))
      | _ \<Rightarrow> Inr p)"

text \<open>What the thread stores in its own lock and node while it decides whether to wait.\<close>

definition set_state :: "nat \<Rightarrow> lock_state \<Rightarrow> memory \<Rightarrow> memory" where
  "set_state a st m = upd_lock a (\<lambda>l. l\<lparr>state := st\<rparr>) m"

definition clear_conflict :: "nat \<Rightarrow> memory \<Rightarrow> memory" where
  "clear_conflict me m = upd_trx me (\<lambda>x. x\<lparr>conflict_lock := None\<rparr>) m"

definition decide_step :: "nat \<Rightarrow> acq \<Rightarrow> memory \<Rightarrow> acq_next \<times> memory" where
  "decide_step me p m =
     (case p of
        Aq_wait a w i \<Rightarrow> (Aq_on (Aq_again_state a w i), set_state a WAIT m)
      | Aq_unwait a w i \<Rightarrow> (Aq_on (check_rest a w (i - 1)), set_state a ACTIVE m)
      | Aq_refuse a \<Rightarrow> (Aq_on (Aq_refused a), set_state a OBSOLETE m)
      | Aq_refused a \<Rightarrow> (Aq_null, clear_conflict me m)
      | Aq_signal a \<Rightarrow>
          (if \<not> signal_flag (lk m a) then (Aq_on (Aq_sleep a), upd_trx me (\<lambda>x. x\<lparr>cond := Sleeping\<rparr>) m)
           else (Aq_on (Aq_clear a), set_state a ACTIVE m))
      | Aq_sleep a \<Rightarrow> (Aq_on (Aq_clear a), upd_trx me (\<lambda>x. x\<lparr>cond := No_waiter\<rparr>) (set_state a ACTIVE m))
      | Aq_clear a \<Rightarrow> (Aq_got a, clear_conflict me m)
      | _ \<Rightarrow> (Aq_on p, m))"

text \<open>One access of \<open>AcquireLock(md, r, trx)\<close> by thread \<open>me\<close>.\<close>

datatype phase = Preparing | Linking | Walking | Searching | Deciding

fun phase_of :: "acq \<Rightarrow> phase" where
  "phase_of (Aq_find i) = Preparing"
| "phase_of (Aq_renew a n) = Preparing"
| "phase_of (Aq_mode a) = Preparing"
| "phase_of (Aq_tail a) = Linking"
| "phase_of (Aq_connect a b) = Linking"
| "phase_of (Aq_await a b) = Linking"
| "phase_of (Aq_id a b) = Linking"
| "phase_of (Aq_pass a b) = Linking"
| "phase_of (Aq_first_id a) = Linking"
| "phase_of (Aq_first_head a) = Linking"
| "phase_of (Aq_announce a) = Linking"
| "phase_of (Aq_head a) = Walking"
| "phase_of (Aq_collect a w x) = Walking"
| "phase_of (Aq_next a w x) = Walking"
| "phase_of (Aq_state a w i) = Walking"
| "phase_of (Aq_behind a w i) = Walking"
| "phase_of (Aq_compare a w i) = Walking"
| "phase_of (Aq_again_state a w i) = Walking"
| "phase_of (Aq_again_id a w i) = Walking"
| "phase_of (Aq_search a w d) = Searching"
| "phase_of _ = Deciding"

definition AcquireLock_access :: "nat \<Rightarrow> lock_mode \<Rightarrow> nat \<Rightarrow> acq \<Rightarrow> memory \<Rightarrow> (acq_next \<times> memory) res" where
  "AcquireLock_access me md r p m =
     (case phase_of p of
        Preparing \<Rightarrow> Inr (map_prod Aq_on id (prepare_step me md r p m))
      | Linking \<Rightarrow> and_then (link_step me r p m) (\<lambda>(p', m'). Inr (Aq_on p', m'))
      | Walking \<Rightarrow> and_then (walk_step r p m) (\<lambda>p'. Inr (Aq_on p', m))
      | Searching \<Rightarrow>
          (case p of
             Aq_search a w d \<Rightarrow> and_then (search_access me w d m) (\<lambda>(d', m'). Inr (Aq_on (search_result a w d'), m'))
           | _ \<Rightarrow> Inr (Aq_on p, m))
      | Deciding \<Rightarrow> Inr (decide_step me p m))"

text \<open>
  Whether the next access stays inside: every pointer it follows is a lock of the heap, and
  a position in a vector is one of the vector's. The machine below makes an access that
  does not the error \<open>Out_of_range\<close>.
\<close>

definition is_lock :: "memory \<Rightarrow> nat \<Rightarrow> bool" where
  "is_lock m a \<longleftrightarrow> a < length (heap m)"

definition in_vector :: "memory \<Rightarrow> nat list \<Rightarrow> nat \<Rightarrow> bool" where
  "in_vector m w i \<longleftrightarrow> 0 < i \<and> i \<le> length w \<and> is_lock m (w ! (i - 1))"

fun search_in_range :: "memory \<Rightarrow> nat list \<Rightarrow> search \<Rightarrow> bool" where
  "search_in_range m w (Ds_init n q) \<longleftrightarrow> n = 0 \<or> in_vector m w n"
| "search_in_range m w (Ds_pop q pass) \<longleftrightarrow> q = [] \<or> is_lock m (hd q)"
| "search_in_range m w (Ds_conflict q pass u) \<longleftrightarrow> True"
| "search_in_range m w (Ds_id q pass u c) \<longleftrightarrow> is_lock m c"
| "search_in_range m w (Ds_head q pass u c i) \<longleftrightarrow> is_lock m c"
| "search_in_range m w (Ds_same_conflict q pass u c i tmp x) \<longleftrightarrow> True"
| "search_in_range m w (Ds_same_id q pass u c i tmp x) \<longleftrightarrow> is_lock m c \<and> is_lock m x"
| "search_in_range m w (Ds_next q pass u c i tmp x) \<longleftrightarrow> is_lock m x"
| "search_in_range m w (Ds_behind q pass u c i tmp x) \<longleftrightarrow> is_lock m x"
| "search_in_range m w (Ds_restart q pass u c i) \<longleftrightarrow> is_lock m c"
| "search_in_range m w (Ds_restart_id q pass u c i x) \<longleftrightarrow> is_lock m x"
| "search_in_range m w (Ds_answer b) \<longleftrightarrow> True"

fun acq_in_range :: "memory \<Rightarrow> nat \<Rightarrow> nat \<Rightarrow> acq \<Rightarrow> bool" where
  "acq_in_range m me r (Aq_find i) \<longleftrightarrow>
     (i < length (lock_saved_vectors m me r) \<longrightarrow> is_lock m (lock_saved_vectors m me r ! i))"
| "acq_in_range m me r (Aq_renew a n) \<longleftrightarrow> is_lock m a"
| "acq_in_range m me r (Aq_mode a) \<longleftrightarrow> is_lock m a"
| "acq_in_range m me r (Aq_tail a) \<longleftrightarrow> True"
| "acq_in_range m me r (Aq_connect a b) \<longleftrightarrow> is_lock m b"
| "acq_in_range m me r (Aq_await a b) \<longleftrightarrow> is_lock m b"
| "acq_in_range m me r (Aq_id a b) \<longleftrightarrow> is_lock m a \<and> is_lock m b"
| "acq_in_range m me r (Aq_pass a b) \<longleftrightarrow> is_lock m b"
| "acq_in_range m me r (Aq_first_id a) \<longleftrightarrow> is_lock m a"
| "acq_in_range m me r (Aq_first_head a) \<longleftrightarrow> True"
| "acq_in_range m me r (Aq_announce a) \<longleftrightarrow> True"
| "acq_in_range m me r (Aq_head a) \<longleftrightarrow> True"
| "acq_in_range m me r (Aq_collect a w x) \<longleftrightarrow> is_lock m a \<and> is_lock m x"
| "acq_in_range m me r (Aq_next a w x) \<longleftrightarrow> is_lock m x"
| "acq_in_range m me r (Aq_state a w i) \<longleftrightarrow> in_vector m w i"
| "acq_in_range m me r (Aq_behind a w i) \<longleftrightarrow> is_lock m a \<and> in_vector m w i"
| "acq_in_range m me r (Aq_compare a w i) \<longleftrightarrow> is_lock m a \<and> in_vector m w i"
| "acq_in_range m me r (Aq_wait a w i) \<longleftrightarrow> is_lock m a"
| "acq_in_range m me r (Aq_again_state a w i) \<longleftrightarrow> in_vector m w i"
| "acq_in_range m me r (Aq_again_id a w i) \<longleftrightarrow> is_lock m a \<and> in_vector m w i"
| "acq_in_range m me r (Aq_unwait a w i) \<longleftrightarrow> is_lock m a"
| "acq_in_range m me r (Aq_search a w d) \<longleftrightarrow> search_in_range m w d"
| "acq_in_range m me r (Aq_refuse a) \<longleftrightarrow> is_lock m a"
| "acq_in_range m me r (Aq_refused a) \<longleftrightarrow> True"
| "acq_in_range m me r (Aq_signal a) \<longleftrightarrow> is_lock m a"
| "acq_in_range m me r (Aq_sleep a) \<longleftrightarrow> is_lock m a"
| "acq_in_range m me r (Aq_clear a) \<longleftrightarrow> True"

section \<open>The steps of ReleaseLock\<close>

text \<open>
  One access of \<open>ReleaseLock\<close> on lock \<open>a\<close>. The head mutex of the record is taken at
  \<open>Rl_lock\<close> and given back at \<open>Rl_unlock\<close>; the machine below sees to that.
\<close>

definition ReleaseLock_access :: "nat \<Rightarrow> rel \<Rightarrow> memory \<Rightarrow> (rel \<times> memory) res" where
  "ReleaseLock_access a p m =
     (let r = record_id (lk m a) in
      case p of
        Rl_state \<Rightarrow> Inr (Rl_lock, set_state a OBSOLETE m)
      | Rl_lock \<Rightarrow> Inr (Rl_head, m)
      | Rl_head \<Rightarrow> and_then (load_head r m) (\<lambda>x. Inr (Rl_first x, m))
      | Rl_first x \<Rightarrow> Inr (if \<not> is_obsolete x m then Rl_unlock else Rl_next x, m)
      | Rl_next y \<Rightarrow> Inr (case next_lock (lk m y) of None \<Rightarrow> Rl_unlock | Some x \<Rightarrow> Rl_move y x, m)
      | Rl_move y x \<Rightarrow> Inr (Rl_pass y x, upd_node r (\<lambda>n. n\<lparr>head := Some x\<rparr>) m)
      | Rl_pass y x \<Rightarrow> Inr (Rl_test x, upd_lock y (\<lambda>l. l\<lparr>head_pass_flag := True\<rparr>) m)
      | Rl_test x \<Rightarrow> Inr (if is_obsolete x m then Rl_next x else Rl_check x, m)
      | Rl_check x \<Rightarrow>
          and_then (get_node r m) (\<lambda>node. and_then (assert_that (head node = Some x) ()) (\<lambda>_. Inr (Rl_wake x, m)))
      | Rl_wake x \<Rightarrow> Inr (Rl_mode x, wake x m)
      | Rl_mode x \<Rightarrow> Inr (if mode (lk m x) = SHARED then Rl_follow x else Rl_unlock, m)
      | Rl_follow x \<Rightarrow> Inr (case next_lock (lk m x) of None \<Rightarrow> Rl_unlock | Some y \<Rightarrow> Rl_look y, m)
      | Rl_look y \<Rightarrow> Inr (if is_obsolete y m then Rl_follow y else Rl_look_mode y, m)
      | Rl_look_mode y \<Rightarrow> Inr (if mode (lk m y) = EXCLUSIVE then Rl_unlock else Rl_signal y, m)
      | Rl_signal y \<Rightarrow> Inr (Rl_follow y, wake y m)
      | Rl_unlock \<Rightarrow> Inr (Rl_unlock, m))"

fun rel_in_range :: "memory \<Rightarrow> nat \<Rightarrow> rel \<Rightarrow> bool" where
  "rel_in_range m a (Rl_first x) \<longleftrightarrow> is_lock m a \<and> is_lock m x"
| "rel_in_range m a (Rl_next y) \<longleftrightarrow> is_lock m a \<and> is_lock m y"
| "rel_in_range m a (Rl_pass y x) \<longleftrightarrow> is_lock m a \<and> is_lock m y"
| "rel_in_range m a (Rl_test x) \<longleftrightarrow> is_lock m a \<and> is_lock m x"
| "rel_in_range m a (Rl_wake x) \<longleftrightarrow> is_lock m a \<and> is_lock m x"
| "rel_in_range m a (Rl_mode x) \<longleftrightarrow> is_lock m a \<and> is_lock m x"
| "rel_in_range m a (Rl_follow x) \<longleftrightarrow> is_lock m a \<and> is_lock m x"
| "rel_in_range m a (Rl_look y) \<longleftrightarrow> is_lock m a \<and> is_lock m y"
| "rel_in_range m a (Rl_look_mode y) \<longleftrightarrow> is_lock m a \<and> is_lock m y"
| "rel_in_range m a (Rl_signal y) \<longleftrightarrow> is_lock m a \<and> is_lock m y"
| "rel_in_range m a p \<longleftrightarrow> is_lock m a"

end
