(* ===== verification/LockFreeMachine.thy ===== *)
theory LockFreeMachine
  imports LockFree
begin

text \<open>
  Threads that run \<open>RepeatTrx\<close> of \<^verbatim>\<open>src/main.cpp\<close>, the version without the global mutex, as
  an interleaved machine. A thread is at a point of its transaction (\<open>tpc\<close>, as in the
  version with the mutex) and, inside \<open>AcquireLock\<close> or \<open>ReleaseLock\<close>, at a program point of
  that call; each step makes one access to shared memory. What \<open>Find\<close>, \<open>Update\<close>, \<open>Commit\<close>
  and \<open>Abort\<close> do outside these two calls is the same code in both versions.

  History: \<open>order\<close> has the locks of each record in the order of their exchanges of the
  tail, \<open>passed\<close> the number of them the head is past, \<open>fresh\<close> the locks that are allocated
  or being renewed and not inserted yet.
\<close>

section \<open>State\<close>

datatype fine = Idle | In_acquire acq | In_release rel

record lf_sys =
  base :: trx_sys
  fines :: "fine list"
  head_mutex :: "nat \<Rightarrow> nat option"
  order :: "nat \<Rightarrow> nat list"
  passed :: "nat \<Rightarrow> nat"
  fresh :: "nat set"

definition lf_sys_new :: "nat \<Rightarrow> nat \<Rightarrow> i32 \<Rightarrow> directory \<Rightarrow> lf_sys" where
  "lf_sys_new n_thr n_rec last_id d =
     \<lparr>base = trx_sys_new n_thr n_rec last_id d, fines = replicate n_thr Idle,
      head_mutex = (\<lambda>r. None), order = (\<lambda>r. []), passed = (\<lambda>r. 0), fresh = {}\<rparr>"

abbreviation memo :: "lf_sys \<Rightarrow> memory" where
  "memo s \<equiv> mem (base s)"

definition resume_at :: "nat \<Rightarrow> fine \<Rightarrow> trx_sys \<Rightarrow> lf_sys \<Rightarrow> lf_sys" where
  "resume_at t f b s = s\<lparr>base := b, fines := (fines s)[t := f]\<rparr>"

section \<open>Inside AcquireLock\<close>

fun fresh_lock :: "acq \<Rightarrow> nat set" where
  "fresh_lock (Aq_renew a (Suc n)) = {a}"
| "fresh_lock (Aq_mode a) = {a}"
| "fresh_lock _ = {}"

definition note_insertion :: "nat \<Rightarrow> acq \<Rightarrow> acq_next \<Rightarrow> lf_sys \<Rightarrow> lf_sys" where
  "note_insertion r p next_p s =
     (case p of
        Aq_tail a \<Rightarrow> s\<lparr>order := (order s)(r := order s r @ [a]), fresh := fresh s - {a}\<rparr>
      | _ \<Rightarrow> (case next_p of Aq_on q \<Rightarrow> s\<lparr>fresh := fresh s \<union> fresh_lock q\<rparr> | _ \<Rightarrow> s))"

text \<open>The call ends with the lock, or with a null pointer and the transaction calls \<open>Abort\<close>.\<close>

definition lf_acquire_step :: "nat \<Rightarrow> stage \<Rightarrow> acq \<Rightarrow> lf_sys \<Rightarrow> lf_sys res" where
  "lf_acquire_step t st p s =
     (let b = base s; r = stage_record st (locs b ! t) in
      and_then (AcquireLock_access t (stage_mode st) r p (mem b)) (\<lambda>(n, m).
        let s' = note_insertion r p n s in
        Inr (case n of
               Aq_on q \<Rightarrow> resume_at t (In_acquire q) (b\<lparr>mem := m\<rparr>) s'
             | Aq_got a \<Rightarrow> resume_at t Idle (go t (Using st a) m b) s'
             | Aq_null \<Rightarrow> resume_at t Idle (go t (undo_from False 0 (deque t m)) m b) s')))"

section \<open>Inside ReleaseLock\<close>

definition released_lock :: "nat \<Rightarrow> trx_sys \<Rightarrow> nat" where
  "released_lock t b =
     (case tpcs b ! t of
        Releasing cid n rs vs \<Rightarrow> deque t (mem b) ! n
      | Undo_release final n \<Rightarrow> deque t (mem b) ! n
      | _ \<Rightarrow> 0)"

text \<open>The loop of \<open>Commit\<close> or \<open>Abort\<close> goes on with the next lock.\<close>

definition release_return :: "nat \<Rightarrow> lf_sys \<Rightarrow> lf_sys" where
  "release_return t s =
     (let b = base s; m = mem b in
      case tpcs b ! t of
        Releasing cid n rs vs \<Rightarrow> resume_at t Idle (go t (commit_from cid (Suc n) rs vs (deque t m)) m b) s
      | Undo_release final n \<Rightarrow>
          (let p = undo_from final (Suc n) (deque t m) in
           resume_at t Idle (go t p m (finish_thread t p b)) s)
      | _ \<Rightarrow> s)"

definition note_release :: "nat \<Rightarrow> nat \<Rightarrow> rel \<Rightarrow> lf_sys \<Rightarrow> lf_sys" where
  "note_release t r p s =
     (case p of
        Rl_lock \<Rightarrow> s\<lparr>head_mutex := (head_mutex s)(r := Some t)\<rparr>
      | Rl_move y x \<Rightarrow> s\<lparr>passed := (passed s)(r := Suc (passed s r))\<rparr>
      | _ \<Rightarrow> s)"

definition lf_release_step :: "nat \<Rightarrow> nat \<Rightarrow> rel \<Rightarrow> lf_sys \<Rightarrow> lf_sys res" where
  "lf_release_step t a p s =
     (let b = base s; r = record_id (lk (mem b) a) in
      if p = Rl_unlock then Inr (release_return t (s\<lparr>head_mutex := (head_mutex s)(r := None)\<rparr>))
      else and_then (ReleaseLock_access a p (mem b)) (\<lambda>(q, m).
        Inr (resume_at t (In_release q) (b\<lparr>mem := m\<rparr>) (note_release t r p s))))"

section \<open>The machine\<close>

text \<open>
  Outside the two calls: the call itself, which looks up the thread's node, or the next
  access of \<open>Find\<close>, \<open>Update\<close>, \<open>Commit\<close> or \<open>Abort\<close>.
\<close>

definition outer_step :: "nat \<Rightarrow> lf_sys \<Rightarrow> lf_sys res" where
  "outer_step t s =
     (let b = base s in
      case tpcs b ! t of
        Calling st \<Rightarrow>
          (let m = GetTrxNode t (mem b) in
           and_then (assert_that (trx_thread_id (trx_of t m) = t) ()) (\<lambda>_.
             Inr (resume_at t (In_acquire (Aq_find 0)) (b\<lparr>mem := m\<rparr>) s)))
      | Releasing cid n rs vs \<Rightarrow> Inr (resume_at t (In_release Rl_state) b s)
      | Undo_release final n \<Rightarrow> Inr (resume_at t (In_release Rl_state) b s)
      | _ \<Rightarrow> and_then (trx_access t b) (\<lambda>b'. Inr (s\<lparr>base := b'\<rparr>)))"

definition lf_unchecked :: "nat \<Rightarrow> lf_sys \<Rightarrow> lf_sys res" where
  "lf_unchecked t s =
     (case fines s ! t of
        Idle \<Rightarrow> outer_step t s
      | In_acquire p \<Rightarrow>
          (case tpcs (base s) ! t of Calling st \<Rightarrow> lf_acquire_step t st p s | _ \<Rightarrow> Inr s)
      | In_release p \<Rightarrow> lf_release_step t (released_lock t (base s)) p s)"

text \<open>
  Outside the two calls the locks used are the one a call has returned and those of the
  transaction's deque.
\<close>

definition in_deque :: "nat \<Rightarrow> nat \<Rightarrow> memory \<Rightarrow> bool" where
  "in_deque t n m \<longleftrightarrow> n < length (deque t m) \<and> is_lock m (deque t m ! n)"

definition lf_in_range :: "nat \<Rightarrow> lf_sys \<Rightarrow> bool" where
  "lf_in_range t s \<longleftrightarrow>
     (let m = memo s; p = tpcs (base s) ! t in
      case fines s ! t of
        Idle \<Rightarrow> (case p of
            Using st a \<Rightarrow> is_lock m a
          | Reading_back cid n rs vs \<Rightarrow> in_deque t n m
          | Releasing cid n rs vs \<Rightarrow> in_deque t n m
          | Undoing f n \<Rightarrow> in_deque t n m
          | Undo_release f n \<Rightarrow> in_deque t n m
          | _ \<Rightarrow> True)
      | In_acquire q \<Rightarrow> (case p of Calling st \<Rightarrow> acq_in_range m t (stage_record st (locs (base s) ! t)) q | _ \<Rightarrow> True)
      | In_release q \<Rightarrow> rel_in_range m (released_lock t (base s)) q)"

text \<open>The next access: one through a pointer that is no lock, or past a vector, is an error.\<close>

definition lf_access :: "nat \<Rightarrow> lf_sys \<Rightarrow> lf_sys res" where
  "lf_access t s = (if lf_in_range t s then lf_unchecked t s else Inl Out_of_range)"

lemma lf_access_Inr: "lf_access t s = Inr s' \<longleftrightarrow> lf_in_range t s \<and> lf_unchecked t s = Inr s'"
  by (simp add: lf_access_def)

text \<open>A thread waits for a notification, for a head mutex, and has nothing to do when it picks or is finished.\<close>

definition lf_can_go :: "nat \<Rightarrow> lf_sys \<Rightarrow> bool" where
  "lf_can_go t s \<longleftrightarrow>
     (case fines s ! t of
        Idle \<Rightarrow> tpcs (base s) ! t \<noteq> Picking \<and> tpcs (base s) ! t \<noteq> Finished
      | In_acquire (Aq_sleep a) \<Rightarrow> cond (trx_of t (memo s)) = Notified
      | In_release Rl_lock \<Rightarrow> head_mutex s (record_id (lk (memo s) (released_lock t (base s)))) = None
      | _ \<Rightarrow> True)"

definition lf_pick :: "nat \<Rightarrow> nat \<Rightarrow> nat \<Rightarrow> nat \<Rightarrow> lf_sys \<Rightarrow> lf_sys" where
  "lf_pick t i j k s = s\<lparr>base := pick_step t i j k (base s)\<rparr>"

inductive lf_act :: "trx_event \<Rightarrow> lf_sys \<Rightarrow> lf_sys \<Rightarrow> bool" where
  lf_act_pick: "t < n_threads (base s) \<Longrightarrow> can_pick t i j k (base s) \<Longrightarrow>
    lf_act (Pick t i j k) s (lf_pick t i j k s)"
| lf_act_go: "t < n_threads (base s) \<Longrightarrow> lf_can_go t s \<Longrightarrow> lf_access t s = Inr s' \<Longrightarrow> lf_act (Go t) s s'"
| lf_act_spurious: "t < n_threads (base s) \<Longrightarrow> fines s ! t = In_acquire (Aq_sleep a) \<Longrightarrow>
    lf_access t s = Inr s' \<Longrightarrow> lf_act (Spurious t) s s'"

definition lf_step :: "lf_sys \<Rightarrow> lf_sys \<Rightarrow> bool" where
  "lf_step s s' \<longleftrightarrow> (\<exists>e. (\<forall>t. e \<noteq> Spurious t) \<and> lf_act e s s')"

definition lf_start :: "lf_sys \<Rightarrow> bool" where
  "lf_start s \<longleftrightarrow> (\<exists>n_thr n_rec last_id. sizes_ok n_thr n_rec last_id
     \<and> s = lf_sys_new n_thr n_rec last_id Map.empty)"

abbreviation lf_reach :: "lf_sys \<Rightarrow> bool" where
  "lf_reach \<equiv> reach lf_start lf_step"

text \<open>
  The ids of the locks of a record are 64 bit numbers and the largest one stands for no id:
  the properties hold as long as no record has seen more locks than that.
\<close>

definition ids_left :: "lf_sys \<Rightarrow> bool" where
  "ids_left s \<longleftrightarrow> (\<forall>r. length (order s r) < 2 ^ 64)"

text \<open>The runs as a function.\<close>

fun do_lf_event :: "trx_event \<Rightarrow> lf_sys \<Rightarrow> lf_sys option" where
  "do_lf_event (Pick t i j k) s =
     (if t < n_threads (base s) \<and> can_pick t i j k (base s) then Some (lf_pick t i j k s) else None)"
| "do_lf_event (Go t) s =
     (if t < n_threads (base s) \<and> lf_can_go t s
      then (case lf_access t s of Inl e \<Rightarrow> None | Inr s' \<Rightarrow> Some s') else None)"
| "do_lf_event (Spurious t) s =
     (if t < n_threads (base s)
      then (case fines s ! t of
              In_acquire (Aq_sleep a) \<Rightarrow> (case lf_access t s of Inl e \<Rightarrow> None | Inr s' \<Rightarrow> Some s')
            | _ \<Rightarrow> None) else None)"

fun run_lf :: "trx_event list \<Rightarrow> lf_sys \<Rightarrow> lf_sys option" where
  "run_lf [] s = Some s"
| "run_lf (e # es) s = (case do_lf_event e s of None \<Rightarrow> None | Some s' \<Rightarrow> run_lf es s')"

end
