(* ===== verification/LfInv.thy ===== *)
theory LfInv
  imports LockFreeMachine TrxRun
begin

text \<open>
  The invariant of the lock manager without the global mutex. A lock's place on its record
  is its position in the order of the exchanges of the tail; a lock that was recycled holds
  its \<open>last_place\<close> position, and its earlier ones are \<open>gone\<close>, as are those of released locks. The
  positions the head has passed are gone and those from the head on are present. The id of
  a lock is its position, a signalled lock is compatible with all locks before it that are
  not gone, and each program point says how far its thread's lock is on the way there.
\<close>

section \<open>Positions\<close>

definition last_place :: "nat list \<Rightarrow> nat \<Rightarrow> nat \<Rightarrow> bool" where
  "last_place os a k \<longleftrightarrow> k < length os \<and> os ! k = a \<and> a \<notin> set (drop (Suc k) os)"

lemma last_place_less: "last_place os a k \<Longrightarrow> k < length os"
  and last_place_nth: "last_place os a k \<Longrightarrow> os ! k = a"
  by (simp_all add: last_place_def)

lemma last_place_max: "last_place os a k \<Longrightarrow> j < length os \<Longrightarrow> os ! j = a \<Longrightarrow> j \<le> k"
proof (rule ccontr)
  assume a: "last_place os a k" "j < length os" "os ! j = a" "\<not> j \<le> k"
  then have "drop (Suc k) os ! (j - Suc k) = a" "j - Suc k < length (drop (Suc k) os)" by auto
  then show False using a(1) nth_mem unfolding last_place_def by metis
qed

lemma last_place_unique: "last_place os a k \<Longrightarrow> last_place os a k' \<Longrightarrow> k = k'"
  using last_place_max [of os a k k'] last_place_max [of os a k' k] last_place_less last_place_nth by fastforce

lemma last_place_exists: "a \<in> set os \<Longrightarrow> \<exists>k. last_place os a k"
proof (induction os rule: rev_induct)
  case (snoc x os)
  show ?case
  proof (cases "a = x")
    case True
    then show ?thesis by (intro exI [of _ "length os"]) (simp add: last_place_def)
  next
    case False
    then obtain k where "last_place os a k" using snoc by auto
    then show ?thesis using False by (intro exI [of _ k]) (auto simp: last_place_def nth_append)
  qed
qed simp

lemma last_place_snoc: "last_place (os @ [b]) a k \<longleftrightarrow> (if a = b then k = length os else last_place os a k)"
  by (auto simp: last_place_def nth_append less_Suc_eq)

abbreviation cell :: "lf_sys \<Rightarrow> nat \<Rightarrow> lock_t" where
  "cell s a \<equiv> lk (memo s) a"

abbreviation cells :: "lf_sys \<Rightarrow> nat" where
  "cells s \<equiv> length (heap (memo s))"

text \<open>The lock at position \<open>k\<close> of record \<open>r\<close>, and whether it is still there.\<close>

definition present :: "lf_sys \<Rightarrow> nat \<Rightarrow> nat \<Rightarrow> bool" where
  "present s r k \<longleftrightarrow> last_place (order s r) (order s r ! k) k \<and> order s r ! k \<notin> fresh s"

definition gone :: "lf_sys \<Rightarrow> nat \<Rightarrow> nat \<Rightarrow> bool" where
  "gone s r k \<longleftrightarrow> \<not> present s r k \<or> state (cell s (order s r ! k)) = OBSOLETE"

definition shared_at :: "lf_sys \<Rightarrow> nat \<Rightarrow> nat \<Rightarrow> bool" where
  "shared_at s r k \<longleftrightarrow> mode (cell s (order s r ! k)) = SHARED"

text \<open>Lock \<open>a\<close> stands at position \<open>k\<close>, and nothing before it conflicts with it.\<close>

definition placed :: "lf_sys \<Rightarrow> nat \<Rightarrow> nat \<Rightarrow> nat \<Rightarrow> bool" where
  "placed s r a k \<longleftrightarrow> last_place (order s r) a k \<and> a \<notin> fresh s"

definition passable :: "lf_sys \<Rightarrow> nat \<Rightarrow> nat \<Rightarrow> lock_mode \<Rightarrow> bool" where
  "passable s r q md \<longleftrightarrow> gone s r q \<or> (md = SHARED \<and> shared_at s r q)"

definition clear_to :: "lf_sys \<Rightarrow> nat \<Rightarrow> nat \<Rightarrow> bool" where
  "clear_to s r k \<longleftrightarrow> (\<forall>q < k. passable s r q (mode (cell s (order s r ! k))))"

abbreviation no_id :: u64 where
  "no_id \<equiv> 0xffffffffffffffff"

section \<open>The lock table\<close>

definition queue_good :: "lf_sys \<Rightarrow> nat \<Rightarrow> lock_table_node \<Rightarrow> bool" where
  "queue_good s r node \<longleftrightarrow>
     tail node = (if order s r = [] then None else Some (last (order s r)))
     \<and> (case head node of
          None \<Rightarrow> passed s r = 0
        | Some x \<Rightarrow> passed s r < length (order s r) \<and> x = order s r ! passed s r)"

definition order_good :: "lf_sys \<Rightarrow> nat \<Rightarrow> bool" where
  "order_good s r \<longleftrightarrow>
     (\<forall>a \<in> set (order s r). a < cells s \<and> record_id (cell s a) = r)
     \<and> (\<forall>k < passed s r. gone s r k)
     \<and> (\<forall>k < length (order s r). passed s r \<le> k \<longrightarrow> present s r k \<and> \<not> head_pass_flag (cell s (order s r ! k)))"

definition links_good :: "lf_sys \<Rightarrow> nat \<Rightarrow> bool" where
  "links_good s r \<longleftrightarrow> (\<forall>a k. last_place (order s r) a k \<longrightarrow>
     (next_lock (cell s a) = None
      \<or> (Suc k < length (order s r) \<and> next_lock (cell s a) = Some (order s r ! Suc k))))"

definition ids_good :: "lf_sys \<Rightarrow> nat \<Rightarrow> bool" where
  "ids_good s r \<longleftrightarrow>
     (\<forall>a k. placed s r a k \<longrightarrow> lock_id_on_record (cell s a) \<in> {no_id, of_nat k})
     \<and> (\<forall>j k a b. j < k \<and> placed s r a j \<and> placed s r b k \<and> lock_id_on_record (cell s b) \<noteq> no_id
          \<longrightarrow> lock_id_on_record (cell s a) \<noteq> no_id)"

definition signals_good :: "lf_sys \<Rightarrow> nat \<Rightarrow> bool" where
  "signals_good s r \<longleftrightarrow> (\<forall>a k. placed s r a k \<and> signal_flag (cell s a) \<longrightarrow> clear_to s r k)"

text \<open>A lock that has passed its id on has a successor.\<close>

definition passes_good :: "lf_sys \<Rightarrow> nat \<Rightarrow> bool" where
  "passes_good s r \<longleftrightarrow> (\<forall>a k. placed s r a k \<and> id_pass_flag (cell s a) \<longrightarrow> Suc k < length (order s r))"

text \<open>The lock a thread is preparing, and the one it may wait with.\<close>

fun prepared :: "fine \<Rightarrow> nat option" where
  "prepared (In_acquire (Aq_renew a (Suc n))) = Some a"
| "prepared (In_acquire (Aq_mode a)) = Some a"
| "prepared (In_acquire (Aq_tail a)) = Some a"
| "prepared _ = None"

fun waits_with :: "fine \<Rightarrow> nat option" where
  "waits_with (In_acquire (Aq_again_state a w i)) = Some a"
| "waits_with (In_acquire (Aq_again_id a w i)) = Some a"
| "waits_with (In_acquire (Aq_unwait a w i)) = Some a"
| "waits_with (In_acquire (Aq_search a w d)) = Some a"
| "waits_with (In_acquire (Aq_refuse a)) = Some a"
| "waits_with (In_acquire (Aq_signal a)) = Some a"
| "waits_with (In_acquire (Aq_sleep a)) = Some a"
| "waits_with _ = None"

definition has_head :: "lf_sys \<Rightarrow> nat \<Rightarrow> bool" where
  "has_head s r \<longleftrightarrow> (\<exists>node. lock_table (memo s) r = Some node \<and> head node \<noteq> None)"

definition cell_good :: "lf_sys \<Rightarrow> nat \<Rightarrow> bool" where
  "cell_good s a \<longleftrightarrow>
     (let l = cell s a; u = thread_id l in
      lock_table (memo s) (record_id l) \<noteq> None \<and> trx_node_table (memo s) u \<noteq> None \<and> u < n_threads (base s)
      \<and> (a \<notin> fresh s \<longrightarrow> a \<in> set (order s (record_id l)))
      \<and> (a \<in> fresh s \<longrightarrow> prepared (fines s ! u) = Some a \<and> lock_id_on_record l = no_id)
      \<and> (a \<notin> set (order s (record_id l)) \<longrightarrow> next_lock l = None)
      \<and> (state l = WAIT \<longrightarrow> waits_with (fines s ! u) = Some a))"

definition nodes_good :: "lf_sys \<Rightarrow> bool" where
  "nodes_good s \<longleftrightarrow> (\<forall>u x. trx_node_table (memo s) u = Some x \<longrightarrow> trx_thread_id x = u
     \<and> (\<forall>c. conflict_lock x = Some c \<longrightarrow> c < cells s \<and> has_head s (record_id (cell s c))))"

definition saved_good :: "lf_sys \<Rightarrow> bool" where
  "saved_good s \<longleftrightarrow> (\<forall>t r. \<forall>a \<in> set (lock_saved_vectors (memo s) t r).
     a < cells s \<and> record_id (cell s a) = r \<and> thread_id (cell s a) = t)"

definition record_good :: "lf_sys \<Rightarrow> nat \<Rightarrow> bool" where
  "record_good s r \<longleftrightarrow>
     order_good s r \<and> links_good s r \<and> ids_good s r \<and> signals_good s r \<and> passes_good s r
     \<and> (case lock_table (memo s) r of None \<Rightarrow> order s r = [] | Some node \<Rightarrow> queue_good s r node)"

definition table_good :: "lf_sys \<Rightarrow> bool" where
  "table_good s \<longleftrightarrow>
     (\<forall>r. record_good s r) \<and> (\<forall>a < cells s. cell_good s a) \<and> fresh s \<subseteq> {..<cells s} \<and> nodes_good s \<and> saved_good s
     \<and> length (fines s) = n_threads (base s) \<and> length (locs (base s)) = n_threads (base s)
     \<and> (\<forall>r \<in> {1..record_count (memo s)}. lock_table (memo s) r \<noteq> None)"

section \<open>Inside AcquireLock\<close>

definition own :: "lf_sys \<Rightarrow> nat \<Rightarrow> nat \<Rightarrow> nat \<Rightarrow> bool" where
  "own s t r a \<longleftrightarrow> a < cells s \<and> thread_id (cell s a) = t \<and> record_id (cell s a) = r"

text \<open>A lock that is being renewed, \<open>n\<close> stores done.\<close>

definition renewed :: "lf_sys \<Rightarrow> nat \<Rightarrow> nat \<Rightarrow> bool" where
  "renewed s a n \<longleftrightarrow>
     a \<in> fresh s
     \<and> (1 < n \<longrightarrow> \<not> id_pass_flag (cell s a))
     \<and> state (cell s a) = (if 2 < n then ACTIVE else OBSOLETE)
     \<and> (3 < n \<longrightarrow> next_lock (cell s a) = None)
     \<and> (5 < n \<longrightarrow> \<not> head_pass_flag (cell s a))
     \<and> (6 < n \<longrightarrow> \<not> signal_flag (cell s a))"

text \<open>A lock inserted behind \<open>b\<close> that has not told \<open>b\<close> so.\<close>

definition behind :: "lf_sys \<Rightarrow> nat \<Rightarrow> nat \<Rightarrow> nat \<Rightarrow> bool" where
  "behind s r a b \<longleftrightarrow>
     (\<exists>k. placed s r a (Suc k) \<and> placed s r b k \<and> \<not> id_pass_flag (cell s b))"

text \<open>A lock with its id, on a record that has a head.\<close>

definition settled :: "lf_sys \<Rightarrow> nat \<Rightarrow> nat \<Rightarrow> nat \<Rightarrow> bool" where
  "settled s r a k \<longleftrightarrow> placed s r a k \<and> lock_id_on_record (cell s a) = of_nat k \<and> has_head s r"

text \<open>
  The vector holds the locks of consecutive positions from \<open>p\<close>, which the head has reached,
  and none of these locks was recycled in between.
\<close>

definition gathered :: "lf_sys \<Rightarrow> nat \<Rightarrow> nat \<Rightarrow> nat list \<Rightarrow> nat \<Rightarrow> bool" where
  "gathered s r k w p \<longleftrightarrow>
     p \<le> passed s r \<and> p + length w \<le> k \<and> distinct (map ((!) (order s r)) [p..<Suc k])
     \<and> w = map ((!) (order s r)) [p..<p + length w]"

text \<open>A lock that has a position after \<open>k\<close>.\<close>

definition beyond :: "lf_sys \<Rightarrow> nat \<Rightarrow> nat \<Rightarrow> nat \<Rightarrow> bool" where
  "beyond s r k x \<longleftrightarrow> (\<exists>l > k. l < length (order s r) \<and> order s r ! l = x)"

definition walking :: "lf_sys \<Rightarrow> nat \<Rightarrow> nat \<Rightarrow> nat list \<Rightarrow> nat \<Rightarrow> bool" where
  "walking s r a w x \<longleftrightarrow>
     (\<exists>k p. settled s r a k \<and> gathered s r k w p \<and> ((p + length w < k \<and> x = order s r ! (p + length w)) \<or> beyond s r k x))"

definition stepping :: "lf_sys \<Rightarrow> nat \<Rightarrow> nat \<Rightarrow> nat list \<Rightarrow> nat \<Rightarrow> bool" where
  "stepping s r a w x \<longleftrightarrow> (\<exists>k p. settled s r a k \<and> gathered s r k w p \<and> w \<noteq> [] \<and> x = last w)"

text \<open>The check of the vector with \<open>i\<close> locks left.\<close>

definition vetting :: "lf_sys \<Rightarrow> nat \<Rightarrow> nat \<Rightarrow> nat list \<Rightarrow> nat \<Rightarrow> bool" where
  "vetting s r a w i \<longleftrightarrow>
     (\<exists>k p. settled s r a k \<and> gathered s r k w p \<and> p + length w = k \<and> i \<le> length w
        \<and> (\<forall>j. p + i \<le> j \<and> j < k \<longrightarrow> passable s r j (mode (cell s a))))"

definition checked_off :: "lf_sys \<Rightarrow> nat \<Rightarrow> nat \<Rightarrow> nat list \<Rightarrow> nat \<Rightarrow> bool" where
  "checked_off s r a w i \<longleftrightarrow> 0 < i \<and> vetting s r a w (i - 1)"

text \<open>All indices that the search holds are locks, and its conflict lock's record has a head.\<close>

fun search_good :: "lf_sys \<Rightarrow> nat \<Rightarrow> search \<Rightarrow> bool" where
  "search_good s len (Ds_init n q) \<longleftrightarrow> n \<le> len \<and> set q \<subseteq> {..<cells s}"
| "search_good s len (Ds_pop q pass) \<longleftrightarrow> set q \<subseteq> {..<cells s}"
| "search_good s len (Ds_conflict q pass u) \<longleftrightarrow> set q \<subseteq> {..<cells s} \<and> trx_node_table (memo s) u \<noteq> None"
| "search_good s len (Ds_id q pass u c) \<longleftrightarrow>
     set q \<subseteq> {..<cells s} \<and> c < cells s \<and> has_head s (record_id (cell s c))"
| "search_good s len (Ds_head q pass u c i) \<longleftrightarrow>
     set q \<subseteq> {..<cells s} \<and> c < cells s \<and> has_head s (record_id (cell s c))"
| "search_good s len (Ds_same_conflict q pass u c i tmp x) \<longleftrightarrow>
     set (x # q @ tmp) \<subseteq> {..<cells s} \<and> c < cells s \<and> has_head s (record_id (cell s c))"
| "search_good s len (Ds_same_id q pass u c i tmp x) \<longleftrightarrow>
     set (x # q @ tmp) \<subseteq> {..<cells s} \<and> c < cells s \<and> has_head s (record_id (cell s c))"
| "search_good s len (Ds_next q pass u c i tmp x) \<longleftrightarrow>
     set (x # q @ tmp) \<subseteq> {..<cells s} \<and> c < cells s \<and> has_head s (record_id (cell s c))"
| "search_good s len (Ds_behind q pass u c i tmp x) \<longleftrightarrow>
     set (x # q @ tmp) \<subseteq> {..<cells s} \<and> c < cells s \<and> has_head s (record_id (cell s c))"
| "search_good s len (Ds_restart q pass u c i) \<longleftrightarrow>
     set q \<subseteq> {..<cells s} \<and> c < cells s \<and> has_head s (record_id (cell s c))"
| "search_good s len (Ds_restart_id q pass u c i x) \<longleftrightarrow>
     set (x # q) \<subseteq> {..<cells s} \<and> c < cells s \<and> has_head s (record_id (cell s c))"
| "search_good s len (Ds_answer found) \<longleftrightarrow> True"

text \<open>The lock of a call once it is in the thread's deque.\<close>

fun acq_lock :: "acq \<Rightarrow> nat option" where
  "acq_lock (Aq_find i) = None"
| "acq_lock (Aq_renew a n) = None"
| "acq_lock (Aq_mode a) = None"
| "acq_lock (Aq_tail a) = Some a"
| "acq_lock (Aq_connect a b) = Some a"
| "acq_lock (Aq_await a b) = Some a"
| "acq_lock (Aq_id a b) = Some a"
| "acq_lock (Aq_pass a b) = Some a"
| "acq_lock (Aq_first_id a) = Some a"
| "acq_lock (Aq_first_head a) = Some a"
| "acq_lock (Aq_announce a) = Some a"
| "acq_lock (Aq_head a) = Some a"
| "acq_lock (Aq_collect a w x) = Some a"
| "acq_lock (Aq_next a w x) = Some a"
| "acq_lock (Aq_state a w i) = Some a"
| "acq_lock (Aq_behind a w i) = Some a"
| "acq_lock (Aq_compare a w i) = Some a"
| "acq_lock (Aq_wait a w i) = Some a"
| "acq_lock (Aq_again_state a w i) = Some a"
| "acq_lock (Aq_again_id a w i) = Some a"
| "acq_lock (Aq_unwait a w i) = Some a"
| "acq_lock (Aq_search a w d) = Some a"
| "acq_lock (Aq_refuse a) = Some a"
| "acq_lock (Aq_refused a) = Some a"
| "acq_lock (Aq_signal a) = Some a"
| "acq_lock (Aq_sleep a) = Some a"
| "acq_lock (Aq_clear a) = Some a"

text \<open>The lock's state at each point after its insertion.\<close>

definition acq_state :: "acq \<Rightarrow> nat \<Rightarrow> lock_state" where
  "acq_state p a = (if waits_with (In_acquire p) = Some a then WAIT
     else if p = Aq_refused a then OBSOLETE else ACTIVE)"

fun acq_good :: "lf_sys \<Rightarrow> nat \<Rightarrow> nat \<Rightarrow> acq \<Rightarrow> bool" where
  "acq_good s t r (Aq_find i) \<longleftrightarrow> True"
| "acq_good s t r (Aq_renew a n) \<longleftrightarrow> own s t r a \<and> n < n_renewals
     \<and> (if n = 0 then recyclable (cell s a) \<and> a \<notin> fresh s else renewed s a n)"
| "acq_good s t r (Aq_mode a) \<longleftrightarrow> own s t r a \<and> renewed s a n_renewals"
| "acq_good s t r (Aq_tail a) \<longleftrightarrow> renewed s a n_renewals"
| "acq_good s t r (Aq_connect a b) \<longleftrightarrow> behind s r a b \<and> lock_id_on_record (cell s a) = no_id"
| "acq_good s t r (Aq_await a b) \<longleftrightarrow> behind s r a b \<and> lock_id_on_record (cell s a) = no_id"
| "acq_good s t r (Aq_id a b) \<longleftrightarrow> behind s r a b \<and> lock_id_on_record (cell s a) = no_id
     \<and> lock_id_on_record (cell s b) \<noteq> no_id \<and> has_head s r"
| "acq_good s t r (Aq_pass a b) \<longleftrightarrow> behind s r a b \<and> (\<exists>k. settled s r a k)"
| "acq_good s t r (Aq_first_id a) \<longleftrightarrow> placed s r a 0 \<and> \<not> has_head s r"
| "acq_good s t r (Aq_first_head a) \<longleftrightarrow>
     placed s r a 0 \<and> \<not> has_head s r \<and> lock_id_on_record (cell s a) = 0"
| "acq_good s t r (Aq_announce a) \<longleftrightarrow> (\<exists>k. settled s r a k)"
| "acq_good s t r (Aq_head a) \<longleftrightarrow> (\<exists>k. settled s r a k)"
| "acq_good s t r (Aq_collect a w x) \<longleftrightarrow> walking s r a w x"
| "acq_good s t r (Aq_next a w x) \<longleftrightarrow> stepping s r a w x"
| "acq_good s t r (Aq_state a w i) \<longleftrightarrow> vetting s r a w i \<and> 0 < i"
| "acq_good s t r (Aq_behind a w i) \<longleftrightarrow> vetting s r a w i \<and> 0 < i"
| "acq_good s t r (Aq_compare a w i) \<longleftrightarrow> vetting s r a w i \<and> 0 < i"
| "acq_good s t r (Aq_wait a w i) \<longleftrightarrow> vetting s r a w i \<and> 0 < i"
| "acq_good s t r (Aq_again_state a w i) \<longleftrightarrow> vetting s r a w i \<and> 0 < i"
| "acq_good s t r (Aq_again_id a w i) \<longleftrightarrow> vetting s r a w i \<and> 0 < i"
| "acq_good s t r (Aq_unwait a w i) \<longleftrightarrow> checked_off s r a w i"
| "acq_good s t r (Aq_search a w d) \<longleftrightarrow> (\<exists>k. settled s r a k)
     \<and> set w \<subseteq> {..<cells s} \<and> search_good s (length w) d"
| "acq_good s t r (Aq_refuse a) \<longleftrightarrow> (\<exists>k. settled s r a k)"
| "acq_good s t r (Aq_refused a) \<longleftrightarrow> a \<notin> fresh s \<and> has_head s r"
| "acq_good s t r (Aq_signal a) \<longleftrightarrow> (\<exists>k. settled s r a k)"
| "acq_good s t r (Aq_sleep a) \<longleftrightarrow> (\<exists>k. settled s r a k)"
| "acq_good s t r (Aq_clear a) \<longleftrightarrow> (\<exists>k. settled s r a k \<and> clear_to s r k)"

section \<open>Inside ReleaseLock\<close>

definition holds_head :: "lf_sys \<Rightarrow> nat \<Rightarrow> nat \<Rightarrow> bool" where
  "holds_head s t r \<longleftrightarrow> head_mutex s r = Some t \<and> has_head s r"

definition at_head :: "lf_sys \<Rightarrow> nat \<Rightarrow> nat \<Rightarrow> bool" where
  "at_head s r x \<longleftrightarrow> passed s r < length (order s r) \<and> x = order s r ! passed s r"

text \<open>All locks from the head up to position \<open>j\<close>, exclusive, are gone or shared.\<close>

definition readers_to :: "lf_sys \<Rightarrow> nat \<Rightarrow> nat \<Rightarrow> bool" where
  "readers_to s r j \<longleftrightarrow> passed s r \<le> j \<and> j < length (order s r)
     \<and> (\<forall>q. passed s r \<le> q \<and> q < j \<longrightarrow> gone s r q \<or> shared_at s r q)"

fun rel_good :: "lf_sys \<Rightarrow> nat \<Rightarrow> nat \<Rightarrow> rel \<Rightarrow> bool" where
  "rel_good s t r Rl_state \<longleftrightarrow> has_head s r"
| "rel_good s t r Rl_lock \<longleftrightarrow> has_head s r"
| "rel_good s t r Rl_head \<longleftrightarrow> holds_head s t r"
| "rel_good s t r (Rl_first x) \<longleftrightarrow> holds_head s t r \<and> at_head s r x"
| "rel_good s t r (Rl_next y) \<longleftrightarrow> holds_head s t r \<and> at_head s r y \<and> state (cell s y) = OBSOLETE"
| "rel_good s t r (Rl_move y x) \<longleftrightarrow> holds_head s t r \<and> at_head s r y \<and> state (cell s y) = OBSOLETE
     \<and> Suc (passed s r) < length (order s r) \<and> x = order s r ! Suc (passed s r)"
| "rel_good s t r (Rl_pass y x) \<longleftrightarrow> holds_head s t r \<and> at_head s r x
     \<and> (\<exists>p. passed s r = Suc p \<and> placed s r y p) \<and> \<not> head_pass_flag (cell s y)"
| "rel_good s t r (Rl_test x) \<longleftrightarrow> holds_head s t r \<and> at_head s r x"
| "rel_good s t r (Rl_check x) \<longleftrightarrow> holds_head s t r \<and> at_head s r x"
| "rel_good s t r (Rl_wake x) \<longleftrightarrow> holds_head s t r \<and> at_head s r x"
| "rel_good s t r (Rl_mode x) \<longleftrightarrow> holds_head s t r \<and> at_head s r x"
| "rel_good s t r (Rl_follow x) \<longleftrightarrow> holds_head s t r
     \<and> (\<exists>j. readers_to s r j \<and> x = order s r ! j \<and> (gone s r j \<or> shared_at s r j))"
| "rel_good s t r (Rl_look x) \<longleftrightarrow> holds_head s t r \<and> (\<exists>j. readers_to s r j \<and> x = order s r ! j)"
| "rel_good s t r (Rl_look_mode x) \<longleftrightarrow> holds_head s t r \<and> (\<exists>j. readers_to s r j \<and> x = order s r ! j)"
| "rel_good s t r (Rl_signal x) \<longleftrightarrow> holds_head s t r
     \<and> (\<exists>j. readers_to s r j \<and> x = order s r ! j \<and> shared_at s r j)"
| "rel_good s t r Rl_unlock \<longleftrightarrow> holds_head s t r"

section \<open>Threads\<close>

text \<open>A lock a transaction holds.\<close>

definition lf_held :: "lf_sys \<Rightarrow> nat \<Rightarrow> nat \<Rightarrow> bool" where
  "lf_held s t a \<longleftrightarrow>
     a < cells s \<and> thread_id (cell s a) = t \<and> a \<notin> fresh s \<and> state (cell s a) = ACTIVE
     \<and> (\<exists>k. settled s (record_id (cell s a)) a k \<and> clear_to s (record_id (cell s a)) k)"

text \<open>A lock in the deque: the last one of a transaction that rolls back was refused.\<close>

definition slot_good :: "lf_sys \<Rightarrow> nat \<Rightarrow> nat list \<Rightarrow> nat \<Rightarrow> bool" where
  "slot_good s t ds k \<longleftrightarrow>
     own s t (record_id (cell s (ds ! k))) (ds ! k)
     \<and> (record_id (cell s (ds ! k)), mode (cell s (ds ! k))) = wanted (locs (base s) ! t) ! k
     \<and> (if expected (tpcs (base s) ! t) (length ds) k = OBSOLETE
        then state (cell s (ds ! k)) = OBSOLETE \<and> ds ! k \<notin> fresh s \<and> has_head s (record_id (cell s (ds ! k)))
        else lf_held s t (ds ! k))"

definition acquiring_good :: "lf_sys \<Rightarrow> nat \<Rightarrow> trx_node \<Rightarrow> acq \<Rightarrow> bool" where
  "acquiring_good s t x p \<longleftrightarrow>
     (\<exists>st ds. tpcs (base s) ! t = Calling st
        \<and> trx_lock_deque x = ds @ (case acq_lock p of None \<Rightarrow> [] | Some a \<Rightarrow> [a])
        \<and> length ds = stage_no st \<and> (\<forall>k < length ds. slot_good s t ds k)
        \<and> acq_good s t (stage_record st (locs (base s) ! t)) p
        \<and> (\<forall>a. acq_lock p = Some a \<longrightarrow> own s t (stage_record st (locs (base s) ! t)) a
             \<and> mode (cell s a) = stage_mode st \<and> state (cell s a) = acq_state p a))"

definition releasing_good :: "lf_sys \<Rightarrow> nat \<Rightarrow> trx_node \<Rightarrow> rel \<Rightarrow> bool" where
  "releasing_good s t x p \<longleftrightarrow>
     (let pc = tpcs (base s) ! t; ds = trx_lock_deque x; n = live_from pc (length ds) in
      ((\<exists>cid rs vs. pc = Releasing cid n rs vs) \<or> (\<exists>f. pc = Undo_release f n))
      \<and> count_ok pc (length ds)
      \<and> (\<forall>k < length ds. (if p = Rl_state then n \<le> k else n < k) \<longrightarrow> slot_good s t ds k)
      \<and> ds ! n < cells s \<and> thread_id (cell s (ds ! n)) = t \<and> ds ! n \<notin> fresh s
      \<and> record_id (cell s (ds ! n)) = fst (wanted (locs (base s) ! t) ! n)
      \<and> (p \<noteq> Rl_state \<longrightarrow> state (cell s (ds ! n)) = OBSOLETE)
      \<and> rel_good s t (record_id (cell s (ds ! n))) p)"

definition outer_good :: "lf_sys \<Rightarrow> nat \<Rightarrow> trx_node \<Rightarrow> bool" where
  "outer_good s t x \<longleftrightarrow>
     (let pc = tpcs (base s) ! t; ds = trx_lock_deque x in
      count_ok pc (length ds) \<and> conflict_of pc = None
      \<and> (last_lock pc \<noteq> None \<longrightarrow> last_lock pc = Some (last ds))
      \<and> (\<forall>k < length ds. live_from pc (length ds) \<le> k \<longrightarrow> slot_good s t ds k))"

fun conflict_at :: "fine \<Rightarrow> nat option" where
  "conflict_at (In_acquire p) =
     (case p of Aq_tail a \<Rightarrow> None | Aq_connect a b \<Rightarrow> None | Aq_await a b \<Rightarrow> None | Aq_id a b \<Rightarrow> None
      | Aq_pass a b \<Rightarrow> None | Aq_first_id a \<Rightarrow> None | Aq_first_head a \<Rightarrow> None | Aq_announce a \<Rightarrow> None
      | _ \<Rightarrow> acq_lock p)"
| "conflict_at _ = None"

fun cond_at :: "lf_sys \<Rightarrow> fine \<Rightarrow> cond_var" where
  "cond_at s (In_acquire (Aq_sleep a)) = (if signal_flag (cell s a) then Notified else Sleeping)"
| "cond_at s _ = No_waiter"

definition thread_good :: "lf_sys \<Rightarrow> nat \<Rightarrow> bool" where
  "thread_good s t \<longleftrightarrow>
     (case trx_node_table (memo s) t of
        None \<Rightarrow> tpcs (base s) ! t = Picking \<and> fines s ! t = Idle
      | Some x \<Rightarrow>
          conflict_lock x = conflict_at (fines s ! t) \<and> cond x = cond_at s (fines s ! t)
          \<and> (\<not> idle_pc (tpcs (base s) ! t) \<longrightarrow> records_ok (memo s) (locs (base s) ! t))
          \<and> (case fines s ! t of
               Idle \<Rightarrow> outer_good s t x
             | In_acquire p \<Rightarrow> acquiring_good s t x p
             | In_release p \<Rightarrow> releasing_good s t x p))"

definition lf_good :: "lf_sys \<Rightarrow> bool" where
  "lf_good s \<longleftrightarrow> table_good s \<and> (\<forall>t < n_threads (base s). thread_good s t)"

end
