(* ===== verification/LfFrame.thy ===== *)
theory LfFrame
  imports LfInv
begin

text \<open>
  What a step of one thread leaves to the others: \<open>others_kept\<close> lists it, and every thread
  but the stepping one keeps its part of the invariant under it.
\<close>

section \<open>The frame of a step\<close>

definition own_kept :: "lf_sys \<Rightarrow> lf_sys \<Rightarrow> nat \<Rightarrow> bool" where
  "own_kept s s' a \<longleftrightarrow>
     (if a \<in> fresh s
      then a \<in> fresh s' \<or> order s' (record_id (cell s a)) = order s (record_id (cell s a)) @ [a]
      else if a \<in> fresh s' then recyclable (cell s a)
      else mode (cell s' a) = mode (cell s a)
         \<and> (state (cell s a) = OBSOLETE \<longrightarrow> state (cell s' a) = OBSOLETE)
         \<and> (lock_id_on_record (cell s a) \<noteq> no_id \<longrightarrow> lock_id_on_record (cell s' a) = lock_id_on_record (cell s a)))"

definition other_kept :: "lf_sys \<Rightarrow> lf_sys \<Rightarrow> nat \<Rightarrow> bool" where
  "other_kept s s' a \<longleftrightarrow>
     (let l = cell s a; l' = cell s' a in
      (a \<in> fresh s' \<longleftrightarrow> a \<in> fresh s) \<and> (a \<in> fresh s \<longrightarrow> l' = l)
      \<and> lock_id_on_record l' = lock_id_on_record l \<and> mode l' = mode l \<and> state l' = state l \<and> diff l' = diff l
      \<and> (id_pass_flag l \<longrightarrow> id_pass_flag l') \<and> (head_pass_flag l \<longrightarrow> head_pass_flag l')
      \<and> (signal_flag l \<longrightarrow> signal_flag l'))"

definition cell_kept :: "nat \<Rightarrow> lf_sys \<Rightarrow> lf_sys \<Rightarrow> nat \<Rightarrow> bool" where
  "cell_kept t s s' a \<longleftrightarrow>
     (let l = cell s a; l' = cell s' a; r = record_id l in
      record_id l' = record_id l \<and> thread_id l' = thread_id l
      \<and> (if thread_id l = t then own_kept s s' a else other_kept s s' a)
      \<and> (a \<notin> fresh s \<and> a \<notin> fresh s' \<and> \<not> id_pass_flag l \<and> id_pass_flag l' \<longrightarrow>
           (\<forall>k. last_place (order s r) a k \<longrightarrow> thread_id (cell s (order s r ! Suc k)) = t))
      \<and> (a \<notin> fresh s \<and> a \<notin> fresh s' \<and> \<not> head_pass_flag l \<and> head_pass_flag l' \<longrightarrow> head_mutex s r = Some t))"

definition record_kept :: "nat \<Rightarrow> lf_sys \<Rightarrow> lf_sys \<Rightarrow> nat \<Rightarrow> bool" where
  "record_kept t s s' r \<longleftrightarrow>
     (order s' r = order s r
      \<or> (\<exists>a. order s' r = order s r @ [a] \<and> a < cells s \<and> thread_id (cell s a) = t \<and> a \<in> fresh s))
     \<and> passed s r \<le> passed s' r \<and> (passed s' r \<noteq> passed s r \<longrightarrow> head_mutex s r = Some t)
     \<and> (\<forall>u. u \<noteq> t \<longrightarrow> (head_mutex s' r = Some u \<longleftrightarrow> head_mutex s r = Some u))
     \<and> (has_head s r \<longrightarrow> has_head s' r)
     \<and> (\<not> has_head s r \<and> has_head s' r \<longrightarrow> order s r \<noteq> [] \<and> thread_id (cell s (order s r ! 0)) = t)
     \<and> (lock_table (memo s') r = None \<longleftrightarrow> lock_table (memo s) r = None)"

definition node_kept :: "lf_sys \<Rightarrow> lf_sys \<Rightarrow> nat \<Rightarrow> bool" where
  "node_kept s s' u \<longleftrightarrow>
     (case trx_node_table (memo s) u of
        None \<Rightarrow> trx_node_table (memo s') u = None
      | Some x \<Rightarrow> (\<exists>y. trx_node_table (memo s') u = Some y \<and> trx_lock_deque y = trx_lock_deque x
          \<and> conflict_lock y = conflict_lock x
          \<and> (cond x = cond_at s (fines s ! u)
               \<and> (\<forall>a. fines s ! u = In_acquire (Aq_sleep a) \<longrightarrow> a < cells s \<and> thread_id (cell s a) = u)
               \<longrightarrow> cond y = cond_at s' (fines s ! u))))
     \<and> tpcs (base s') ! u = tpcs (base s) ! u \<and> fines s' ! u = fines s ! u
     \<and> locs (base s') ! u = locs (base s) ! u"

definition others_kept :: "nat \<Rightarrow> lf_sys \<Rightarrow> lf_sys \<Rightarrow> bool" where
  "others_kept t s s' \<longleftrightarrow>
     cells s \<le> cells s' \<and> n_threads (base s') = n_threads (base s)
     \<and> (\<forall>a < cells s. cell_kept t s s' a) \<and> (\<forall>r. record_kept t s s' r)
     \<and> (\<forall>u. u \<noteq> t \<longrightarrow> node_kept s s' u)
     \<and> (\<forall>u. trx_node_table (memo s) u \<noteq> None \<longrightarrow> trx_node_table (memo s') u \<noteq> None)"

section \<open>What is stable under it\<close>

lemma table_parts:
  assumes "table_good s"
  shows "order_good s r" "links_good s r" "ids_good s r" "signals_good s r" "nodes_good s" "saved_good s"
    "a < cells s \<Longrightarrow> cell_good s a" "lock_table (memo s) r = Some node \<Longrightarrow> queue_good s r node"
    "lock_table (memo s) r = None \<Longrightarrow> order s r = []"
    "length (fines s) = n_threads (base s)" "length (locs (base s)) = n_threads (base s)" "a \<in> fresh s \<Longrightarrow> a < cells s"
    "passes_good s r"
proof -
  have r: "record_good s r" using assms by (simp add: table_good_def)
  then show "order_good s r" "links_good s r" "ids_good s r" "signals_good s r" "passes_good s r" by (simp_all add: record_good_def)
  show "lock_table (memo s) r = Some node \<Longrightarrow> queue_good s r node" "lock_table (memo s) r = None \<Longrightarrow> order s r = []"
    using r by (simp_all add: record_good_def)
qed (use assms in \<open>auto simp: table_good_def\<close>)

lemma placed_cell:
  assumes "table_good s" and "k < length (order s r)"
  shows "order s r ! k < cells s" "record_id (cell s (order s r ! k)) = r"
  using table_parts(1) [OF assms(1), of r] assms(2) by (auto simp: order_good_def)

lemma last_place_cell:
  assumes "table_good s" and "last_place (order s r) a k"
  shows "a < cells s" "record_id (cell s a) = r"
  using placed_cell [OF assms(1) last_place_less [OF assms(2)]] last_place_nth [OF assms(2)] by simp_all

definition framed :: "nat \<Rightarrow> lf_sys \<Rightarrow> lf_sys \<Rightarrow> bool" where
  "framed t s s' \<longleftrightarrow> table_good s \<and> others_kept t s s'"

lemma framed_parts:
  assumes "framed t s s'"
  shows "table_good s" "a < cells s \<Longrightarrow> cell_kept t s s' a" "record_kept t s s' r" "u \<noteq> t \<Longrightarrow> node_kept s s' u"
    "a < cells s \<Longrightarrow> a < cells s'" "n_threads (base s') = n_threads (base s)"
    "trx_node_table (memo s) u \<noteq> None \<Longrightarrow> trx_node_table (memo s') u \<noteq> None"
  using assms by (auto simp: framed_def others_kept_def)

lemma same_owner: "framed t s s' \<Longrightarrow> a < cells s \<Longrightarrow>
    record_id (cell s' a) = record_id (cell s a) \<and> thread_id (cell s' a) = thread_id (cell s a)"
  using framed_parts(2) by (simp add: cell_kept_def Let_def)

lemma order_cases:
  assumes "framed t s s'"
  obtains "order s' r = order s r"
  | a where "order s' r = order s r @ [a]" "a < cells s" "thread_id (cell s a) = t" "a \<in> fresh s"
  using framed_parts(3) [OF assms, of r] by (auto simp: record_kept_def)

lemma order_grows: "framed t s s' \<Longrightarrow> k < length (order s r) \<Longrightarrow> order s' r ! k = order s r ! k"
  by (erule order_cases [of t s s' r]) (simp_all add: nth_append)

lemma order_longer: "framed t s s' \<Longrightarrow> length (order s r) \<le> length (order s' r)"
  by (erule order_cases [of t s s' r]) simp_all

lemma others_cell: "framed t s s' \<Longrightarrow> a < cells s \<Longrightarrow> thread_id (cell s a) \<noteq> t \<Longrightarrow> other_kept s s' a"
  using framed_parts(2) by (simp add: cell_kept_def Let_def)

lemma own_cell: "framed t s s' \<Longrightarrow> a < cells s \<Longrightarrow> thread_id (cell s a) = t \<Longrightarrow> own_kept s s' a"
  using framed_parts(2) by (simp add: cell_kept_def Let_def)

lemma not_recycled:
  assumes "framed t s s'" and "a < cells s" and "a \<notin> fresh s" and "\<not> recyclable (cell s a)"
  shows "a \<notin> fresh s'" "mode (cell s' a) = mode (cell s a)"
    "state (cell s a) = OBSOLETE \<Longrightarrow> state (cell s' a) = OBSOLETE"
    "lock_id_on_record (cell s a) \<noteq> no_id \<Longrightarrow> lock_id_on_record (cell s' a) = lock_id_on_record (cell s a)"
  using own_cell [OF assms(1,2)] others_cell [OF assms(1,2)] assms(3,4)
  by (cases "thread_id (cell s a) = t"; simp add: own_kept_def other_kept_def Let_def split: if_splits)+

lemma placed_stays:
  assumes "framed t s s'" and "placed s r a k" and "a \<notin> fresh s'"
  shows "placed s' r a k"
  using assms(1)
proof (rule order_cases [of t s s' r])
  fix b assume "order s' r = order s r @ [b]" "b \<in> fresh s"
  then show ?thesis using assms by (auto simp: placed_def last_place_snoc)
qed (use assms in \<open>simp add: placed_def\<close>)

lemma gone_stays:
  assumes fr: "framed t s s'" and "gone s r k" and k: "k < length (order s r)"
  shows "gone s' r k"
proof (rule ccontr)
  let ?a = "order s r ! k"
  note a = placed_cell [OF framed_parts(1) [OF fr] k]
  assume "\<not> gone s' r k"
  then have new: "last_place (order s' r) ?a k" "?a \<notin> fresh s'" "state (cell s' ?a) \<noteq> OBSOLETE"
    using order_grows [OF fr k] by (simp_all add: gone_def present_def)
  have old: "last_place (order s r) ?a k \<and> order s' r \<noteq> order s r @ [?a]"
    using fr by (rule order_cases [of t s s' r]) (use new(1) k in \<open>auto simp: last_place_snoc split: if_splits\<close>)
  show False
  proof (cases "?a \<in> fresh s")
    case True
    then show False using new(2) old a own_cell [OF fr a(1)] others_cell [OF fr a(1)]
      by (cases "thread_id (cell s ?a) = t") (simp_all add: own_kept_def other_kept_def Let_def)
  next
    case False
    then have "state (cell s ?a) = OBSOLETE" using assms(2) old by (simp add: gone_def present_def)
    then show False using False new(2,3) own_cell [OF fr a(1)] others_cell [OF fr a(1)]
      by (cases "thread_id (cell s ?a) = t") (simp_all add: own_kept_def other_kept_def Let_def)
  qed
qed

lemma passable_stays:
  assumes fr: "framed t s s'" and "passable s r q md" and q: "q < length (order s r)"
  shows "passable s' r q md"
proof (cases "gone s' r q")
  case False
  then have "\<not> gone s r q" using gone_stays [OF fr _ q] by blast
  then have "present s r q" "\<not> recyclable (cell s (order s r ! q))" "shared_at s r q" "md = SHARED"
    using assms(2) by (auto simp: gone_def passable_def recyclable_def)
  then show ?thesis
    using not_recycled(2) [OF fr placed_cell(1) [OF framed_parts(1) [OF fr] q]] order_grows [OF fr q]
    by (simp add: present_def passable_def shared_at_def)
qed (simp add: passable_def)

lemma own_stays: "framed t s s' \<Longrightarrow> own s u r a \<Longrightarrow> own s' u r a"
  using same_owner framed_parts(5) by (auto simp: own_def)

lemma has_head_stays: "framed t s s' \<Longrightarrow> has_head s r \<Longrightarrow> has_head s' r"
  using framed_parts(3) [of t s s' r] by (simp add: record_kept_def)

text \<open>A lock whose place and mode a step leaves alone; those of other threads are.\<close>

definition steady :: "lf_sys \<Rightarrow> lf_sys \<Rightarrow> nat \<Rightarrow> bool" where
  "steady s s' a \<longleftrightarrow> mode (cell s' a) = mode (cell s a)
     \<and> lock_id_on_record (cell s' a) = lock_id_on_record (cell s a) \<and> (a \<in> fresh s' \<longleftrightarrow> a \<in> fresh s)"

lemma others_mode: "framed t s s' \<Longrightarrow> a < cells s \<Longrightarrow> thread_id (cell s a) \<noteq> t \<Longrightarrow> mode (cell s' a) = mode (cell s a)
    \<and> state (cell s' a) = state (cell s a) \<and> lock_id_on_record (cell s' a) = lock_id_on_record (cell s a)
    \<and> (a \<in> fresh s' \<longleftrightarrow> a \<in> fresh s)"
  using others_cell by (simp add: other_kept_def Let_def)

lemma others_steady: "framed t s s' \<Longrightarrow> a < cells s \<Longrightarrow> thread_id (cell s a) \<noteq> t \<Longrightarrow> steady s s' a"
  using others_mode by (simp add: steady_def)

lemma steady_same: "cell s' a = cell s a \<Longrightarrow> (a \<in> fresh s' \<longleftrightarrow> a \<in> fresh s) \<Longrightarrow> steady s s' a"
  by (simp add: steady_def)

lemma placed_in_heap: "framed t s s' \<Longrightarrow> placed s r a k \<Longrightarrow> a < cells s \<and> record_id (cell s a) = r \<and> order s r ! k = a \<and> k < length (order s r)"
  using last_place_cell [of s r a k] framed_parts(1) last_place_nth last_place_less by (auto simp: placed_def)

lemma steady_placed: "framed t s s' \<Longrightarrow> placed s r a k \<Longrightarrow> steady s s' a \<Longrightarrow> placed s' r a k"
  using placed_stays [of t s s' r a k] by (simp add: placed_def steady_def)

lemma settled_in_heap: "framed t s s' \<Longrightarrow> settled s r a k \<Longrightarrow> a < cells s \<and> order s r ! k = a \<and> k < length (order s r)"
  using placed_in_heap by (auto simp: settled_def)

lemma steady_settled: "framed t s s' \<Longrightarrow> settled s r a k \<Longrightarrow> steady s s' a \<Longrightarrow> settled s' r a k"
  using steady_placed [of t s s' r a k] has_head_stays [of t s s' r]
    placed_in_heap [of t s s' r a k] by (simp add: settled_def steady_def)

lemma gathered_stays:
  assumes fr: "framed t s s'" and g: "gathered s r k w p" and k: "k < length (order s r)"
  shows "gathered s' r k w p"
proof -
  have e: "map ((!) (order s' r)) [p..<n] = map ((!) (order s r)) [p..<n]" if "n \<le> Suc k" for n
    by (rule map_cong [OF refl]) (use order_grows [OF fr, of _ r] k that in simp)
  have "passed s r \<le> passed s' r" using framed_parts(3) [OF fr, of r] by (simp add: record_kept_def)
  moreover have w: "p \<le> passed s r" "p + length w \<le> k" "distinct (map ((!) (order s r)) [p..<Suc k])"
    "w = map ((!) (order s r)) [p..<p + length w]" using g unfolding gathered_def by blast+
  moreover have "w = map ((!) (order s' r)) [p..<p + length w]"
    using w(4) e [of "p + length w"] w(2) by (metis le_SucI)
  moreover have "p \<le> passed s' r" using calculation(1,2) by (rule le_trans [rotated])
  ultimately show ?thesis unfolding gathered_def e [OF order_refl] by blast
qed

lemma beyond_stays: "framed t s s' \<Longrightarrow> beyond s r k x \<Longrightarrow> beyond s' r k x"
  using order_grows order_longer unfolding beyond_def by (metis less_le_trans)

lemma steady_walking:
  assumes fr: "framed t s s'" and "walking s r a w x" and o: "steady s s' a"
  shows "walking s' r a w x"
proof -
  obtain k p where v: "settled s r a k" "gathered s r k w p"
    "(p + length w < k \<and> x = order s r ! (p + length w)) \<or> beyond s r k x" using assms(2) by (auto simp: walking_def)
  have "k < length (order s r)" using settled_in_heap [OF fr v(1)] by simp
  then have "(p + length w < k \<and> x = order s' r ! (p + length w)) \<or> beyond s' r k x"
    using v(3) beyond_stays [OF fr] order_grows [OF fr, of "p + length w" r] by auto
  then show ?thesis using steady_settled [OF fr v(1) o] gathered_stays [OF fr v(2) \<open>k < length (order s r)\<close>]
    unfolding walking_def by blast
qed

lemma steady_stepping: "framed t s s' \<Longrightarrow> stepping s r a w x \<Longrightarrow> steady s s' a \<Longrightarrow> stepping s' r a w x"
  unfolding stepping_def using steady_settled gathered_stays settled_in_heap by metis

lemma steady_vetting:
  assumes fr: "framed t s s'" and "vetting s r a w i" and o: "steady s s' a"
  shows "vetting s' r a w i"
proof -
  obtain k p where v: "settled s r a k" "gathered s r k w p" "p + length w = k" "i \<le> length w"
    "\<And>j. p + i \<le> j \<Longrightarrow> j < k \<Longrightarrow> passable s r j (mode (cell s a))" using assms(2) by (auto simp: vetting_def)
  note a = settled_in_heap [OF fr v(1)]
  have "passable s' r j (mode (cell s' a))" if "p + i \<le> j" "j < k" for j
    using passable_stays [OF fr v(5) [OF that]] that(2) a o by (simp add: steady_def)
  then show ?thesis using v steady_settled [OF fr v(1) o] gathered_stays [OF fr v(2)] a
    unfolding vetting_def by blast
qed

lemma steady_clear:
  assumes fr: "framed t s s'" and "clear_to s r k" and "settled s r a k" and o: "steady s s' a"
  shows "clear_to s' r k"
  using passable_stays [OF fr] settled_in_heap [OF fr assms(3)] order_grows [OF fr] o assms(2)
  by (auto simp: clear_to_def steady_def)

lemma others_behind:
  assumes fr: "framed t s s'" and "behind s r a b" and o: "thread_id (cell s a) \<noteq> t"
  shows "behind s' r a b"
proof -
  obtain k where k: "placed s r a (Suc k)" "placed s r b k" "\<not> id_pass_flag (cell s b)"
    using assms(2) by (auto simp: behind_def)
  have b: "b < cells s" "record_id (cell s b) = r" "order s r ! Suc k = a"
    using placed_in_heap [OF fr] k(1,2) by blast+
  have nf: "b \<notin> fresh s'" "b \<notin> fresh s" "last_place (order s r) b k"
    using not_recycled(1) [OF fr b(1)] k by (auto simp: recyclable_def placed_def)
  then have "\<not> id_pass_flag (cell s' b)"
    using framed_parts(2) [OF fr b(1)] k(3) o b(2,3) by (auto simp: cell_kept_def Let_def)
  then show ?thesis
    using steady_placed [OF fr k(1) others_steady [OF fr _ o]] placed_in_heap [OF fr k(1)] placed_stays [OF fr k(2) nf(1)] unfolding behind_def by blast
qed

lemma no_head_stays:
  "framed t s s' \<Longrightarrow> \<not> has_head s r \<Longrightarrow> placed s r a 0 \<Longrightarrow> thread_id (cell s a) \<noteq> t \<Longrightarrow> \<not> has_head s' r"
  using placed_in_heap [of t s s' r a 0] framed_parts(3) [of t s s' r] by (auto simp: record_kept_def)

lemma search_stays:
  assumes fr: "framed t s s'" and "search_good s len d"
  shows "search_good s' len d"
proof -
  have c: "has_head s' (record_id (cell s' c))" if "c < cells s" "has_head s (record_id (cell s c))" for c
    using that has_head_stays [OF fr] same_owner [OF fr] by simp
  show ?thesis using assms(2) framed_parts(5,7) [OF fr] c by (cases d) (simp_all add: subset_iff)
qed

lemma others_renewed: "framed t s s' \<Longrightarrow> renewed s a n \<Longrightarrow> a < cells s \<Longrightarrow> thread_id (cell s a) \<noteq> t \<Longrightarrow> renewed s' a n"
  using others_cell [of t s s' a] by (simp add: renewed_def other_kept_def Let_def)

section \<open>The other threads\<close>

lemma others_acq:
  assumes fr: "framed t s s'" and good: "acq_good s u r p" and u: "u \<noteq> t"
    and lock: "\<And>a. acq_lock p = Some a \<Longrightarrow> own s u r a"
  shows "acq_good s' u r p"
proof (cases "acq_lock p")
  case None
  then show ?thesis
  proof (cases p)
    case (Aq_renew a n)
    then have a: "own s u r a" "a < cells s" "thread_id (cell s a) \<noteq> t" using good u by (auto simp: own_def)
    show ?thesis using good Aq_renew own_stays [OF fr a(1)] others_renewed [OF fr _ a(2,3)] others_cell [OF fr a(2,3)]
      by (simp add: recyclable_def other_kept_def Let_def split: if_splits)
  next
    case (Aq_mode a)
    then have a: "own s u r a" "a < cells s" "thread_id (cell s a) \<noteq> t" using good u by (auto simp: own_def)
    show ?thesis using good Aq_mode own_stays [OF fr a(1)] others_renewed [OF fr _ a(2,3)] by simp
  qed simp_all
next
  case (Some a)
  then have a: "own s u r a" "thread_id (cell s a) \<noteq> t" "a < cells s" using lock u by (auto simp: own_def)
  note same = others_mode [OF fr a(3,2)] and o = others_steady [OF fr a(3,2)]
  note stays = others_behind [OF fr _ a(2)] steady_vetting [OF fr _ o] steady_walking [OF fr _ o]
    steady_stepping [OF fr _ o] others_renewed [OF fr _ a(3,2)] search_stays [OF fr]
    has_head_stays [OF fr] steady_placed [OF fr _ o] no_head_stays [OF fr _ _ a(2)]
  have set: "\<exists>k. settled s' r a k" if "\<exists>k. settled s r a k" using that steady_settled [OF fr _ o] by blast
  have clear: "\<exists>k. settled s' r a k \<and> clear_to s' r k" if "\<exists>k. settled s r a k \<and> clear_to s r k"
    using that steady_settled [OF fr _ o] steady_clear [OF fr _ _ o] by blast
  have prev: "lock_id_on_record (cell s' b) \<noteq> no_id" if "behind s r a b" "lock_id_on_record (cell s b) \<noteq> no_id" for b
  proof -
    obtain k where b: "placed s r b k" "\<not> id_pass_flag (cell s b)" using \<open>behind s r a b\<close> by (auto simp: behind_def)
    then show ?thesis using that(2) not_recycled(4) [OF fr, of b] placed_in_heap [OF fr b(1)]
      by (simp add: recyclable_def placed_def)
  qed
  have more: "x < cells s'" if "x < cells s" for x using that framed_parts(5) [OF fr] by blast
  show ?thesis using good Some same stays set clear prev more
    by (cases p) (simp_all add: checked_off_def subset_iff)
qed

lemma head_lock_kept:
  assumes fr: "framed t s s'" and j: "j < length (order s r)" "passed s r \<le> j"
  shows "present s r j" "order s r ! j \<notin> fresh s'" "\<not> head_pass_flag (cell s (order s r ! j))"
    "mode (cell s' (order s r ! j)) = mode (cell s (order s r ! j))"
    "state (cell s (order s r ! j)) = OBSOLETE \<Longrightarrow> state (cell s' (order s r ! j)) = OBSOLETE"
proof -
  show p: "present s r j" "\<not> head_pass_flag (cell s (order s r ! j))"
    using table_parts(1) [OF framed_parts(1) [OF fr], of r] j by (simp_all add: order_good_def)
  note n = not_recycled [OF fr placed_cell(1) [OF framed_parts(1) [OF fr] j(1)]]
  show "order s r ! j \<notin> fresh s'" "mode (cell s' (order s r ! j)) = mode (cell s (order s r ! j))"
    "state (cell s (order s r ! j)) = OBSOLETE \<Longrightarrow> state (cell s' (order s r ! j)) = OBSOLETE"
    using n p by (simp_all add: present_def recyclable_def)
qed

lemma head_stays:
  assumes fr: "framed t s s'" and "head_mutex s r = Some u" and "u \<noteq> t"
  shows "passed s' r = passed s r" "head_mutex s' r = Some u"
  using framed_parts(3) [OF fr, of r] assms(2,3) by (auto simp: record_kept_def)

lemma readers_stay:
  assumes fr: "framed t s s'" and same: "passed s' r = passed s r" and "readers_to s r j"
  shows "readers_to s' r j"
proof -
  have j: "passed s r \<le> j" "j < length (order s r)" "\<And>q. passed s r \<le> q \<Longrightarrow> q < j \<Longrightarrow> passable s r q SHARED"
    using assms(3) by (auto simp: readers_to_def passable_def)
  have "passable s' r q SHARED" if "passed s r \<le> q" "q < j" for q
    by (rule passable_stays [OF fr j(3) [OF that]]) (use that j in simp)
  then show ?thesis using j(1,2) order_longer [OF fr, of r] by (auto simp: readers_to_def passable_def same)
qed

lemma shared_stays:
  assumes fr: "framed t s s'" and "j < length (order s r)" "passed s r \<le> j"
  shows "shared_at s r j \<Longrightarrow> shared_at s' r j"
  using head_lock_kept [OF assms] order_grows [OF fr assms(2)] by (simp add: shared_at_def)

lemma others_rel:
  assumes fr: "framed t s s'" and good: "rel_good s u r p" and u: "u \<noteq> t"
  shows "rel_good s' u r p"
proof (cases "holds_head s u r")
  case True
  have passed: "passed s' r = passed s r" and holds: "holds_head s' u r"
    using True head_stays [OF fr _ u] has_head_stays [OF fr] by (auto simp: holds_head_def)
  have grow: "j < length (order s' r)" "order s' r ! j = order s r ! j" if "j < length (order s r)" for j
    using order_longer [OF fr, of r] order_grows [OF fr that] that by simp_all
  have head: "at_head s' r x" if "at_head s r x" for x
    using that grow by (auto simp: at_head_def passed)
  have obs: "state (cell s' x) = OBSOLETE" if "at_head s r x" "state (cell s x) = OBSOLETE" for x
    using head_lock_kept(5) [OF fr, of "passed s r" r] that by (simp add: at_head_def)
  have passing: "placed s' r y q" "\<not> head_pass_flag (cell s' y)" if y: "placed s r y q" "\<not> head_pass_flag (cell s y)" for y q
  proof -
    have h: "y < cells s" "record_id (cell s y) = r" "y \<notin> fresh s"
      using placed_in_heap [OF fr y(1)] y(1) by (simp_all add: placed_def)
    have "y \<notin> fresh s'" using not_recycled(1) [OF fr h(1,3)] y(2) by (simp add: recyclable_def)
    then show "placed s' r y q" "\<not> head_pass_flag (cell s' y)"
      using placed_stays [OF fr y(1)] framed_parts(2) [OF fr h(1)] h y(2) True u
      by (auto simp: cell_kept_def Let_def holds_head_def)
  qed
  have rd: "readers_to s' r j \<and> order s' r ! j = order s r ! j" if "readers_to s r j" for j
    using readers_stay [OF fr passed that] grow(2) that by (simp add: readers_to_def)
  have gs: "gone s' r j \<or> shared_at s' r j" if "readers_to s r j" "gone s r j \<or> shared_at s r j" for j
    using that gone_stays [OF fr] shared_stays [OF fr] by (auto simp: readers_to_def)
  have sh: "shared_at s' r j" if "readers_to s r j" "shared_at s r j" for j
    using that shared_stays [OF fr] by (auto simp: readers_to_def)
  show ?thesis
  proof (cases p)
    case (Rl_follow x)
    then show ?thesis using good holds rd gs by simp metis
  next
    case (Rl_signal x)
    then show ?thesis using good holds rd sh by simp metis
  next
    case (Rl_look x)
    then show ?thesis using good holds rd by simp metis
  next
    case (Rl_look_mode x)
    then show ?thesis using good holds rd by simp metis
  next
    case (Rl_pass y x)
    then show ?thesis using good holds head passing by (auto simp: passed)
  next
    case (Rl_move y x)
    then show ?thesis using good holds head obs grow by (simp add: passed)
  qed (use good holds head obs has_head_stays [OF fr] in auto)
next
  case False
  then show ?thesis using good has_head_stays [OF fr] by (cases p) auto
qed

lemma steady_held:
  assumes fr: "framed t s s'" and "lf_held s u a" and o: "steady s s' a" "state (cell s' a) = state (cell s a)"
  shows "lf_held s' u a"
proof -
  have a: "a < cells s" "thread_id (cell s a) = u" using assms(2) by (auto simp: lf_held_def)
  obtain k where k: "settled s (record_id (cell s a)) a k" "clear_to s (record_id (cell s a)) k"
    using assms(2) by (auto simp: lf_held_def)
  show ?thesis
    using assms(2) framed_parts(5) [OF fr a(1)] same_owner [OF fr a(1)] o
      steady_settled [OF fr k(1) o(1)] steady_clear [OF fr k(2,1) o(1)] unfolding lf_held_def steady_def by auto
qed

lemma steady_slot:
  assumes fr: "framed t s s'" and slot: "slot_good s u ds k" and o: "steady s s' (ds ! k)" "state (cell s' (ds ! k)) = state (cell s (ds ! k))"
    and same: "expected (tpcs (base s') ! u) (length ds) k = expected (tpcs (base s) ! u) (length ds) k"
      "wanted (locs (base s') ! u) = wanted (locs (base s) ! u)"
  shows "slot_good s' u ds k"
proof -
  have a: "ds ! k < cells s" using slot by (auto simp: slot_good_def own_def)
  show ?thesis
    using slot own_stays [OF fr] same_owner [OF fr a] o steady_held [OF fr _ o(1)] has_head_stays [OF fr] same
    by (simp add: slot_good_def steady_def)
qed

lemma others_slot:
  assumes fr: "framed t s s'" and slot: "slot_good s u ds k" and u: "u \<noteq> t"
  shows "slot_good s' u ds k"
proof (rule steady_slot [OF fr slot])
  have "ds ! k < cells s" "thread_id (cell s (ds ! k)) \<noteq> t" using slot u by (auto simp: slot_good_def own_def)
  then show "steady s s' (ds ! k)" "state (cell s' (ds ! k)) = state (cell s (ds ! k))"
    using others_steady [OF fr] others_mode [OF fr] by blast+
qed (use framed_parts(4) [OF fr u] in \<open>simp_all add: node_kept_def\<close>)

lemma others_acquiring:
  assumes fr: "framed t s s'" and good: "acquiring_good s u x p" and u: "u \<noteq> t"
    and y: "trx_lock_deque y = trx_lock_deque x"
  shows "acquiring_good s' u y p"
proof -
  note pc = framed_parts(4) [OF fr u, unfolded node_kept_def]
  obtain st ds where g: "tpcs (base s) ! u = Calling st"
    "trx_lock_deque x = ds @ (case acq_lock p of None \<Rightarrow> [] | Some a \<Rightarrow> [a])"
    "length ds = stage_no st" "\<And>k. k < length ds \<Longrightarrow> slot_good s u ds k"
    "acq_good s u (stage_record st (locs (base s) ! u)) p"
    "\<And>a. acq_lock p = Some a \<Longrightarrow> own s u (stage_record st (locs (base s) ! u)) a
      \<and> mode (cell s a) = stage_mode st \<and> state (cell s a) = acq_state p a"
    using good by (auto simp: acquiring_good_def)
  have "acq_good s' u (stage_record st (locs (base s) ! u)) p" using others_acq [OF fr g(5) u] g(6) by blast
  moreover have "own s' u (stage_record st (locs (base s) ! u)) a \<and> mode (cell s' a) = stage_mode st
      \<and> state (cell s' a) = acq_state p a" if "acq_lock p = Some a" for a
    using g(6) [OF that] own_stays [OF fr] others_mode [OF fr, of a] u by (auto simp: own_def)
  ultimately show ?thesis using g(1-4) pc y others_slot [OF fr g(4) u] unfolding acquiring_good_def by auto
qed

lemma others_releasing:
  assumes fr: "framed t s s'" and good: "releasing_good s u x p" and u: "u \<noteq> t"
    and y: "trx_lock_deque y = trx_lock_deque x"
  shows "releasing_good s' u y p"
proof -
  have pc: "tpcs (base s') ! u = tpcs (base s) ! u" "locs (base s') ! u = locs (base s) ! u"
    using framed_parts(4) [OF fr u] by (simp_all add: node_kept_def)
  define n where "n = live_from (tpcs (base s) ! u) (length (trx_lock_deque x))"
  define a where "a = trx_lock_deque x ! n"
  have a: "a < cells s" "thread_id (cell s a) \<noteq> t" using good u by (auto simp: releasing_good_def Let_def a_def n_def)
  note same = others_mode [OF fr a] same_owner [OF fr a(1)] framed_parts(5) [OF fr a(1)]
  have "rel_good s u (record_id (cell s a)) p"
    using good unfolding releasing_good_def Let_def a_def n_def by blast
  then have "rel_good s' u (record_id (cell s' a)) p"
    using others_rel [OF fr _ u] same_owner [OF fr a(1)] by metis
  then show ?thesis
    using good same others_slot [OF fr _ u]
    unfolding releasing_good_def Let_def y pc n_def [symmetric] a_def [symmetric] by simp
qed

lemma others_thread:
  assumes fr: "framed t s s'" and good: "thread_good s u" and u: "u \<noteq> t"
  shows "thread_good s' u"
proof (cases "trx_node_table (memo s) u")
  case None
  then show ?thesis using framed_parts(4) [OF fr u] good by (simp add: thread_good_def node_kept_def)
next
  case (Some x)
  have pc: "tpcs (base s') ! u = tpcs (base s) ! u" "locs (base s') ! u = locs (base s) ! u" "fines s' ! u = fines s ! u"
    using framed_parts(4) [OF fr u] by (simp_all add: node_kept_def)
  obtain y where y: "trx_node_table (memo s') u = Some y" "trx_lock_deque y = trx_lock_deque x"
    "conflict_lock y = conflict_lock x" "cond x = cond_at s (fines s ! u)
        \<and> (\<forall>a. fines s ! u = In_acquire (Aq_sleep a) \<longrightarrow> a < cells s \<and> thread_id (cell s a) = u)
      \<longrightarrow> cond y = cond_at s' (fines s ! u)"
    using framed_parts(4) [OF fr u] Some by (auto simp: node_kept_def)
  have sleeper: "a < cells s \<and> thread_id (cell s a) = u" if "fines s ! u = In_acquire (Aq_sleep a)" for a
    using good Some that by (auto simp: thread_good_def acquiring_good_def own_def)
  have rec: "records_ok (memo s') l \<longleftrightarrow> records_ok (memo s) l" for l
    by (rule records_ok_cong) (use framed_parts(3) [OF fr] in \<open>simp add: record_kept_def\<close>)
  have outer: "outer_good s' u y" if "outer_good s u x"
    using that others_slot [OF fr _ u] pc y(2) by (simp add: outer_good_def Let_def)
  show ?thesis
    using good Some y pc rec outer sleeper others_acquiring [OF fr _ u y(2)] others_releasing [OF fr _ u y(2)]
    by (simp add: thread_good_def split: fine.splits)
qed

end
