(* ===== verification/LfLocal.thy ===== *)
theory LfLocal
  imports LfFrame
begin

text \<open>
  Most steps touch the stepping thread's own data only. \<open>local_step\<close> says what such a step
  may change, and that this keeps the lock table's invariant and the frame.
\<close>

definition tame_cell :: "nat \<Rightarrow> lf_sys \<Rightarrow> lf_sys \<Rightarrow> nat \<Rightarrow> bool" where
  "tame_cell t s s' b \<longleftrightarrow>
     (let l = cell s b; l' = cell s' b in
      if thread_id l \<noteq> t then l' = l \<and> (b \<in> fresh s' \<longleftrightarrow> b \<in> fresh s)
      else record_id l' = record_id l \<and> thread_id l' = t \<and> own_kept s s' b
        \<and> (next_lock l' = next_lock l \<or> (b \<in> fresh s' \<and> next_lock l' = None))
        \<and> (lock_id_on_record l' = lock_id_on_record l \<or> (b \<in> fresh s' \<and> lock_id_on_record l' = no_id))
        \<and> (b \<notin> fresh s' \<longrightarrow> (signal_flag l' \<longrightarrow> signal_flag l) \<and> (head_pass_flag l' \<longrightarrow> head_pass_flag l)
             \<and> (id_pass_flag l' \<longrightarrow> id_pass_flag l))
        \<and> (b \<in> fresh s' \<longrightarrow> prepared (fines s' ! t) = Some b \<and> lock_id_on_record l' = no_id)
        \<and> (state l' = WAIT \<longrightarrow> waits_with (fines s' ! t) = Some b))"

text \<open>A cell that the thread did not touch.\<close>

lemma tame_unchanged:
  assumes "table_good s" and "b < cells s" and "cell s' b = cell s b" and "b \<in> fresh s' \<longleftrightarrow> b \<in> fresh s"
    and "thread_id (cell s b) = t \<Longrightarrow> prepared (fines s ! t) = Some b \<Longrightarrow> prepared (fines s' ! t) = Some b"
    and "thread_id (cell s b) = t \<Longrightarrow> waits_with (fines s ! t) = Some b \<Longrightarrow> waits_with (fines s' ! t) = Some b"
  shows "tame_cell t s s' b"
  using assms table_parts(7) [OF assms(1,2)]
  by (auto simp: tame_cell_def Let_def own_kept_def cell_good_def)

definition ends_of :: "lf_sys \<Rightarrow> nat \<Rightarrow> (nat option \<times> nat option) option" where
  "ends_of s r = map_option (\<lambda>n. (head n, tail n)) (lock_table (memo s) r)"

definition local_step :: "nat \<Rightarrow> lf_sys \<Rightarrow> lf_sys \<Rightarrow> bool" where
  "local_step t s s' \<longleftrightarrow>
     cells s \<le> cells s' \<and> n_threads (base s') = n_threads (base s)
     \<and> length (fines s') = length (fines s) \<and> length (locs (base s')) = length (locs (base s))
     \<and> order s' = order s \<and> passed s' = passed s \<and> fresh s \<subseteq> fresh s' \<and> fresh s' \<subseteq> {..<cells s'}
     \<and> (\<forall>r u. u \<noteq> t \<longrightarrow> (head_mutex s' r = Some u \<longleftrightarrow> head_mutex s r = Some u))
     \<and> ends_of s' = ends_of s \<and> record_count (memo s') = record_count (memo s)
     \<and> (\<forall>b < cells s. tame_cell t s s' b) \<and> (\<forall>b < cells s'. cells s \<le> b \<longrightarrow> b \<in> fresh s' \<and> cell_good s' b)
     \<and> (\<forall>u. u \<noteq> t \<longrightarrow> trx_node_table (memo s') u = trx_node_table (memo s) u \<and> fines s' ! u = fines s ! u
          \<and> tpcs (base s') ! u = tpcs (base s) ! u \<and> locs (base s') ! u = locs (base s) ! u)
     \<and> (trx_node_table (memo s) t \<noteq> None \<longrightarrow> trx_node_table (memo s') t \<noteq> None)
     \<and> nodes_good s' \<and> saved_good s'"

lemma has_head_ends: "has_head s r \<longleftrightarrow> (\<exists>x y. ends_of s r = Some (Some x, y))"
  and no_node_ends: "lock_table (memo s) r = None \<longleftrightarrow> ends_of s r = None"
  by (auto simp: has_head_def ends_of_def)

lemma local_parts:
  assumes "local_step t s s'"
  shows "cells s \<le> cells s'" "order s' = order s" "passed s' = passed s" "fresh s \<subseteq> fresh s'" "ends_of s' = ends_of s"
    "b < cells s \<Longrightarrow> tame_cell t s s' b" "b < cells s' \<Longrightarrow> cells s \<le> b \<Longrightarrow> b \<in> fresh s' \<and> cell_good s' b"
    "has_head s' r \<longleftrightarrow> has_head s r" "lock_table (memo s') r = None \<longleftrightarrow> lock_table (memo s) r = None"
  using assms unfolding local_step_def by (simp_all add: has_head_ends no_node_ends)

lemma local_frame:
  assumes "table_good s" and st: "local_step t s s'"
  shows "framed t s s'"
proof -
  have "cell_kept t s s' a" if "a < cells s" for a
    using local_parts(6) [OF st that]
    by (auto simp: tame_cell_def cell_kept_def other_kept_def Let_def split: if_splits)
  moreover have "record_kept t s s' r" for r
    using st local_parts(8,9) [OF st, of r] by (simp add: record_kept_def local_step_def)
  moreover have "node_kept s s' u" if "u \<noteq> t" for u
  proof -
    have same: "trx_node_table (memo s') u = trx_node_table (memo s) u" "fines s' ! u = fines s ! u"
      "tpcs (base s') ! u = tpcs (base s) ! u" "locs (base s') ! u = locs (base s) ! u"
      using st that by (simp_all add: local_step_def)
    have "cond_at s' (fines s ! u) = cond_at s (fines s ! u)"
      if "\<forall>a. fines s ! u = In_acquire (Aq_sleep a) \<longrightarrow> a < cells s \<and> thread_id (cell s a) = u"
    proof (cases "\<exists>a. fines s ! u = In_acquire (Aq_sleep a)")
      case True
      then obtain a where a: "fines s ! u = In_acquire (Aq_sleep a)" by blast
      then have "a < cells s" "thread_id (cell s a) \<noteq> t" using that \<open>u \<noteq> t\<close> by auto
      then show ?thesis using local_parts(6) [OF st, of a] a by (simp add: tame_cell_def Let_def)
    next
      case False
      then show ?thesis by (cases "(s, fines s ! u)" rule: cond_at.cases) auto
    qed
    then show ?thesis unfolding node_kept_def same by (auto split: option.splits)
  qed
  moreover have "trx_node_table (memo s') u \<noteq> None" if "trx_node_table (memo s) u \<noteq> None" for u
    using st that by (cases "u = t") (simp_all add: local_step_def)
  ultimately show ?thesis using assms by (simp add: framed_def others_kept_def local_step_def)
qed

lemma local_placed: "local_step t s s' \<Longrightarrow> placed s' r a k \<Longrightarrow> placed s r a k"
  using local_parts(2,4) [of t s s'] by (auto simp: placed_def)

lemma tame_facts:
  assumes "tame_cell t s s' b"
  shows "next_lock (cell s' b) = next_lock (cell s b) \<or> next_lock (cell s' b) = None"
    "b \<notin> fresh s' \<Longrightarrow> lock_id_on_record (cell s' b) = lock_id_on_record (cell s b)"
    "b \<notin> fresh s' \<Longrightarrow> signal_flag (cell s' b) \<Longrightarrow> signal_flag (cell s b)"
    "b \<notin> fresh s' \<Longrightarrow> head_pass_flag (cell s' b) \<Longrightarrow> head_pass_flag (cell s b)"
    "b \<notin> fresh s' \<Longrightarrow> id_pass_flag (cell s' b) \<Longrightarrow> id_pass_flag (cell s b)"
  using assms by (auto simp: tame_cell_def Let_def split: if_splits)

lemma local_record:
  assumes tab: "table_good s" and st: "local_step t s s'"
  shows "record_good s' r"
proof -
  note fr = local_frame [OF tab st] and parts = table_parts [OF tab] and ord = local_parts(2,3) [OF st]
  have cell: "a < cells s" "tame_cell t s s' a" if "last_place (order s r) a k" for a k
    using last_place_cell [OF tab that] local_parts(6) [OF st] by blast+
  have "present s' r k \<and> \<not> head_pass_flag (cell s' (order s r ! k))" if "k < length (order s r)" "passed s r \<le> k" for k
    using head_lock_kept(1-3) [OF fr that] tame_facts(4) [OF local_parts(6) [OF st placed_cell(1) [OF tab that(1)]]]
    by (auto simp: present_def ord)
  moreover have "gone s' r k" if "k < passed s r" for k
  proof -
    have "k < length (order s r) \<or> \<not> k < length (order s' r)" by (simp add: ord)
    then show ?thesis using gone_stays [OF fr] that parts(1) [of r] by (auto simp: order_good_def gone_def present_def last_place_def)
  qed
  ultimately have "order_good s' r"
    using parts(1) [of r] same_owner [OF fr] local_parts(1) [OF st] by (auto simp: order_good_def ord)
  moreover have "links_good s' r"
    unfolding links_good_def ord
  proof (intro allI impI)
    fix a k assume l: "last_place (order s r) a k"
    then show "next_lock (cell s' a) = None \<or> (Suc k < length (order s r) \<and> next_lock (cell s' a) = Some (order s r ! Suc k))"
      using parts(2) [of r, unfolded links_good_def, rule_format, OF l] tame_facts(1) [OF cell(2) [OF l]] by auto
  qed
  moreover have "ids_good s' r"
  proof -
    have id: "lock_id_on_record (cell s' a) = lock_id_on_record (cell s a)" if "placed s' r a k" for a k
      using that local_placed [OF st that] tame_facts(2) [OF cell(2)] by (auto simp: placed_def)
    have "lock_id_on_record (cell s' a) \<in> {no_id, of_nat k}" if "placed s' r a k" for a k
      using parts(3) [of r] local_placed [OF st that] id [OF that] by (simp add: ids_good_def)
    moreover have "lock_id_on_record (cell s' a) \<noteq> no_id"
      if "j < k" "placed s' r a j" "placed s' r b k" "lock_id_on_record (cell s' b) \<noteq> no_id" for j k a b
      using parts(3) [of r] that(1,4) local_placed [OF st that(2)] local_placed [OF st that(3)] id [OF that(2)] id [OF that(3)]
      unfolding ids_good_def by simp blast
    ultimately show ?thesis unfolding ids_good_def by blast
  qed
  moreover have "signals_good s' r"
    unfolding signals_good_def
  proof (intro allI impI)
    fix a k assume a: "placed s' r a k \<and> signal_flag (cell s' a)"
    then have old: "placed s r a k" using local_placed [OF st] by blast
    have k: "last_place (order s r) a k" "a \<notin> fresh s'" "a \<notin> fresh s" "k < length (order s r)" "order s r ! k = a"
      using old a last_place_less last_place_nth by (auto simp: placed_def)
    then have "signal_flag (cell s a)" "mode (cell s' a) = mode (cell s a)" using cell(2) [OF k(1)] a tame_facts(3) [OF cell(2) [OF k(1)]]
      by (auto simp: tame_cell_def own_kept_def Let_def split: if_splits)
    then have "passable s r q (mode (cell s' (order s r ! k)))" if "q < k" for q
      using parts(4) [of r] old that k(5) by (auto simp: signals_good_def clear_to_def)
    then show "clear_to s' r k" using passable_stays [OF fr] k(4,5) by (auto simp: clear_to_def ord)
  qed
  moreover have "passes_good s' r"
    unfolding passes_good_def ord
  proof (intro allI impI)
    fix a k assume a: "placed s' r a k \<and> id_pass_flag (cell s' a)"
    then have p: "placed s r a k" using local_placed [OF st] by blast
    then have "id_pass_flag (cell s a)" using tame_facts(5) [OF cell(2)] a by (auto simp: placed_def)
    then show "Suc k < length (order s r)" using parts(13) [of r] p by (auto simp: passes_good_def)
  qed
  moreover have "case lock_table (memo s') r of None \<Rightarrow> order s' r = [] | Some node \<Rightarrow> queue_good s' r node"
  proof (cases "lock_table (memo s') r")
    case (Some n')
    then obtain n where n: "lock_table (memo s) r = Some n" "head n' = head n" "tail n' = tail n"
      using local_parts(5) [OF st, THEN fun_cong, of r] by (cases "lock_table (memo s) r") (auto simp: ends_of_def)
    then show ?thesis using parts(8) [OF n(1)] Some by (simp add: queue_good_def ord split: option.splits)
  qed (use parts(9) local_parts(9) [OF st, of r] in \<open>simp add: ord\<close>)
  ultimately show ?thesis by (simp add: record_good_def)
qed

lemma local_cell:
  assumes tab: "table_good s" and st: "local_step t s s'" and a: "a < cells s'"
  shows "cell_good s' a"
proof (cases "a < cells s")
  case True
  note old = table_parts(7) [OF tab True] and tame = local_parts(6) [OF st True] and ord = local_parts(2) [OF st]
  have owner: "record_id (cell s' a) = record_id (cell s a)" "thread_id (cell s' a) = thread_id (cell s a)"
    using same_owner [OF local_frame [OF tab st] True] by simp_all
  have node: "trx_node_table (memo s') (thread_id (cell s a)) \<noteq> None" "lock_table (memo s') (record_id (cell s a)) \<noteq> None"
    using old framed_parts(7) [OF local_frame [OF tab st]] local_parts(9) [OF st] by (simp_all add: cell_good_def Let_def)
  have ins: "a \<notin> fresh s' \<Longrightarrow> a \<in> set (order s (record_id (cell s a)))" "n_threads (base s') = n_threads (base s)"
    using old local_parts(4) [OF st] st by (auto simp: cell_good_def local_step_def Let_def)
  have nxt: "a \<notin> set (order s (record_id (cell s a))) \<Longrightarrow> next_lock (cell s' a) = None"
    using old tame_facts(1) [OF tame] by (auto simp: cell_good_def Let_def)
  have rest: "(a \<in> fresh s' \<longrightarrow> prepared (fines s' ! thread_id (cell s a)) = Some a \<and> lock_id_on_record (cell s' a) = no_id)
      \<and> (state (cell s' a) = WAIT \<longrightarrow> waits_with (fines s' ! thread_id (cell s a)) = Some a)"
  proof (cases "thread_id (cell s a) = t")
    case False
    then have "fines s' ! thread_id (cell s a) = fines s ! thread_id (cell s a)" using st by (simp add: local_step_def)
    then show ?thesis using old tame False by (simp add: cell_good_def tame_cell_def Let_def)
  qed (use tame in \<open>simp add: tame_cell_def Let_def\<close>)
  show ?thesis using old node ins nxt rest unfolding cell_good_def Let_def owner ord ins(2) by blast
qed (use local_parts(7) [OF st a] in simp)

lemma local_table:
  assumes "table_good s" and "local_step t s s'"
  shows "table_good s'"
  using assms local_record [OF assms] local_cell [OF assms] local_parts(9) [OF assms(2)]
  by (simp add: table_good_def local_step_def)

end
