(* ===== verification/LfOwn.thy ===== *)
theory LfOwn
  imports LfLocal
begin

text \<open>
  How a step is shown to be local when it stores into one lock at most, and what a thread
  inside \<open>AcquireLock\<close> knows besides the progress of its new lock.
\<close>

section \<open>Steps that store into one lock\<close>

definition same_fields :: "nat \<Rightarrow> lf_sys \<Rightarrow> lf_sys \<Rightarrow> bool" where
  "same_fields t s s' \<longleftrightarrow>
     order s' = order s \<and> passed s' = passed s
     \<and> (\<forall>r u. u \<noteq> t \<longrightarrow> (head_mutex s' r = Some u \<longleftrightarrow> head_mutex s r = Some u))
     \<and> ends_of s' = ends_of s \<and> record_count (memo s') = record_count (memo s)
     \<and> (\<exists>pc. tpcs (base s') = (tpcs (base s))[t := pc]) \<and> (\<exists>l. locs (base s') = (locs (base s))[t := l])
     \<and> (\<exists>f. fines s' = (fines s)[t := f])
     \<and> (\<forall>u. u \<noteq> t \<longrightarrow> trx_node_table (memo s') u = trx_node_table (memo s) u)
     \<and> (trx_node_table (memo s) t \<noteq> None \<longrightarrow> trx_node_table (memo s') t \<noteq> None)"

definition node_fits :: "nat \<Rightarrow> lf_sys \<Rightarrow> trx_node option \<Rightarrow> bool" where
  "node_fits t s p \<longleftrightarrow> (\<forall>x. p = Some x \<longrightarrow> trx_thread_id x = t
     \<and> (\<forall>c. conflict_lock x = Some c \<longrightarrow> c < cells s \<and> has_head s (record_id (cell s c))))"

lemma nodes_fit: "nodes_good s \<longleftrightarrow> (\<forall>u. node_fits u s (trx_node_table (memo s) u))"
  by (auto simp: nodes_good_def node_fits_def)

lemma local_one:
  assumes tab: "table_good s" and same: "same_fields t s s'"
    and heap: "heap (memo s') = (heap (memo s))[a := l']"
    and saved: "lock_saved_vectors (memo s') = lock_saved_vectors (memo s)"
    and fresh: "fresh s' = fresh s \<or> (fresh s' = insert a (fresh s) \<and> a < cells s)"
    and tame: "a < cells s \<Longrightarrow> tame_cell t s s' a"
    and prep: "prepared (fines s ! t) \<in> {None, Some a, prepared (fines s' ! t)}"
    and wait: "waits_with (fines s ! t) \<in> {None, Some a, waits_with (fines s' ! t)}"
    and node: "node_fits t s (trx_node_table (memo s') t)"
  shows "local_step t s s'"
proof -
  have len: "cells s' = cells s" using heap by simp
  have all: "tame_cell t s s' b" if "b < cells s" for b
  proof (cases "b = a")
    case False
    then show ?thesis using that heap fresh prep wait
      by (intro tame_unchanged [OF tab that]) auto
  qed (use tame that in simp)
  have owner: "record_id (cell s' b) = record_id (cell s b) \<and> thread_id (cell s' b) = thread_id (cell s b)" if "b < cells s" for b
    using all [OF that] by (auto simp: tame_cell_def Let_def split: if_splits)
  have ends: "has_head s' r \<longleftrightarrow> has_head s r" for r using same by (simp add: same_fields_def has_head_ends)
  have "node_fits u s' (trx_node_table (memo s') u)" for u
  proof -
    have "node_fits u s (trx_node_table (memo s') u)"
      using node table_parts(5) [OF tab] same by (cases "u = t") (simp_all add: nodes_fit same_fields_def)
    then show ?thesis using owner ends len by (simp add: node_fits_def)
  qed
  moreover have "saved_good s'" using table_parts(6) [OF tab] owner by (simp add: saved_good_def saved len)
  moreover have "fresh s' \<subseteq> {..<cells s'}" using fresh table_parts(12) [OF tab] len by auto
  ultimately show ?thesis using same all fresh len by (auto simp: local_step_def same_fields_def nodes_fit)
qed

lemma local_none:
  assumes tab: "table_good s" and same: "same_fields t s s'"
    and heap: "heap (memo s') = heap (memo s)"
    and saved: "lock_saved_vectors (memo s') = lock_saved_vectors (memo s)" and fresh: "fresh s' = fresh s"
    and prep: "prepared (fines s ! t) \<in> {None, prepared (fines s' ! t)}"
    and wait: "waits_with (fines s ! t) \<in> {None, waits_with (fines s' ! t)}"
    and node: "node_fits t s (trx_node_table (memo s') t)"
  shows "local_step t s s'"
proof (rule local_one [OF tab same _ saved, of 0 "cell s 0"])
  show "tame_cell t s s' 0" if "0 < cells s"
    using prep wait by (intro tame_unchanged [OF tab that]) (auto simp: heap fresh)
qed (use heap fresh prep wait node in auto)

section \<open>A thread inside AcquireLock\<close>

definition acquiring :: "lf_sys \<Rightarrow> nat \<Rightarrow> acq \<Rightarrow> stage \<Rightarrow> nat list \<Rightarrow> trx_node \<Rightarrow> bool" where
  "acquiring s t p st ds x \<longleftrightarrow>
     tpcs (base s) ! t = Calling st \<and> trx_node_table (memo s) t = Some x
     \<and> trx_lock_deque x = ds @ (case acq_lock p of None \<Rightarrow> [] | Some a \<Rightarrow> [a])
     \<and> length ds = stage_no st \<and> (\<forall>k < length ds. slot_good s t ds k)
     \<and> conflict_lock x = conflict_at (In_acquire p) \<and> cond x = cond_at s (In_acquire p)
     \<and> records_ok (memo s) (locs (base s) ! t)"

definition lock_fits :: "lf_sys \<Rightarrow> nat \<Rightarrow> stage \<Rightarrow> acq \<Rightarrow> bool" where
  "lock_fits s t st p \<longleftrightarrow>
     (\<forall>a. acq_lock p = Some a \<longrightarrow> own s t (stage_record st (locs (base s) ! t)) a
        \<and> mode (cell s a) = stage_mode st \<and> state (cell s a) = acq_state p a)"

lemma thread_good_acquire:
  assumes "fines s ! t = In_acquire p"
  shows "thread_good s t \<longleftrightarrow>
    (\<exists>st ds x. acquiring s t p st ds x \<and> acq_good s t (stage_record st (locs (base s) ! t)) p \<and> lock_fits s t st p)"
proof -
  have "\<not> idle_pc (Calling st)" for st by (simp add: idle_pc_def)
  then show ?thesis using assms
    by (auto simp: thread_good_def acquiring_good_def acquiring_def lock_fits_def split: option.splits)
qed

text \<open>The locks of the earlier calls are on other records.\<close>

lemma earlier_record:
  assumes "acquiring s t p st ds x" and "k < length ds"
  shows "record_id (cell s (ds ! k)) \<noteq> stage_record st (locs (base s) ! t)" "ds ! k < cells s"
proof -
  have "slot_good s t ds k" "k < stage_no st" "records_ok (memo s) (locs (base s) ! t)"
    using assms by (auto simp: acquiring_def)
  then show "record_id (cell s (ds ! k)) \<noteq> stage_record st (locs (base s) ! t)" "ds ! k < cells s"
    by (cases st; auto simp: slot_good_def records_ok_def wanted_def own_def less_Suc_eq numeral_2_eq_2
        dest: arg_cong [of _ _ fst])+
qed

lemma acquiring_kept:
  assumes acq: "acquiring s t p st ds x" and fr: "framed t s s'"
    and pc: "tpcs (base s') ! t = tpcs (base s) ! t" "locs (base s') ! t = locs (base s) ! t"
    and others: "\<And>b. b < cells s \<Longrightarrow> record_id (cell s b) \<noteq> stage_record st (locs (base s) ! t) \<Longrightarrow>
      cell s' b = cell s b \<and> (b \<in> fresh s' \<longleftrightarrow> b \<in> fresh s)"
    and node: "trx_node_table (memo s') t = Some y" "conflict_lock y = conflict_at (In_acquire p')"
      "cond y = cond_at s' (In_acquire p')"
      "trx_lock_deque y = ds @ (case acq_lock p' of None \<Rightarrow> [] | Some a \<Rightarrow> [a])"
  shows "acquiring s' t p' st ds y"
proof -
  have "slot_good s' t ds k" if k: "k < length ds" for k
  proof (rule steady_slot [OF fr])
    show "slot_good s t ds k" using acq k by (simp add: acquiring_def)
    show "steady s s' (ds ! k)" "state (cell s' (ds ! k)) = state (cell s (ds ! k))"
      using others [OF earlier_record(2,1) [OF acq k]] by (simp_all add: steady_same)
  qed (simp_all add: pc)
  moreover have "records_ok (memo s') (locs (base s) ! t)"
    using acq records_ok_cong [of "memo s'" "memo s"] framed_parts(3) [OF fr]
    by (simp add: acquiring_def record_kept_def)
  ultimately show ?thesis using acq pc node by (simp add: acquiring_def)
qed

text \<open>The invariant after a step, from the stepping thread's part.\<close>

lemma lf_good_parts:
  assumes "lf_good s"
  shows "table_good s" "t < n_threads (base s) \<Longrightarrow> thread_good s t"
  using assms by (simp_all add: lf_good_def)

lemma lf_good_step:
  assumes "lf_good s" and "framed t s s'" and "table_good s'" and "thread_good s' t"
  shows "lf_good s'"
  unfolding lf_good_def
proof (intro conjI allI impI)
  fix u assume "u < n_threads (base s')"
  then have "u < n_threads (base s)" using framed_parts(6) [OF assms(2)] by simp
  then show "thread_good s' u"
    using assms(4) others_thread [OF assms(2) lf_good_parts(2) [OF assms(1)]] by (cases "u = t") blast+
qed (rule assms(3))

lemma lf_good_local:
  assumes "lf_good s" and "local_step t s s'" and "thread_good s' t"
  shows "lf_good s'"
  using lf_good_step [OF assms(1)] local_frame local_table lf_good_parts(1) [OF assms(1)] assms(2,3) by blast

section \<open>Steps that only move a program point\<close>

definition at_point :: "nat \<Rightarrow> fine \<Rightarrow> lf_sys \<Rightarrow> lf_sys" where
  "at_point t f s = s\<lparr>fines := (fines s)[t := f]\<rparr>"

lemma at_point_fields [simp]:
  "memo (at_point t f s) = memo s" "order (at_point t f s) = order s" "passed (at_point t f s) = passed s"
  "fresh (at_point t f s) = fresh s" "head_mutex (at_point t f s) = head_mutex s" "base (at_point t f s) = base s"
  "fines (at_point t f s) = (fines s)[t := f]"
  by (simp_all add: at_point_def)

text \<open>The conditions of the points depend on the memory and the history only.\<close>

definition same_world :: "lf_sys \<Rightarrow> lf_sys \<Rightarrow> bool" where
  "same_world s s' \<longleftrightarrow> memo s' = memo s \<and> order s' = order s \<and> passed s' = passed s \<and> fresh s' = fresh s
     \<and> head_mutex s' = head_mutex s"

lemma same_world_conditions:
  assumes "same_world s s'"
  shows "present s' = present s" "gone s' = gone s" "shared_at s' = shared_at s" "placed s' = placed s"
    "passable s' = passable s" "clear_to s' = clear_to s" "has_head s' = has_head s" "own s' = own s"
    "renewed s' = renewed s" "behind s' = behind s" "settled s' = settled s" "gathered s' = gathered s"
    "beyond s' = beyond s" "walking s' = walking s" "stepping s' = stepping s" "vetting s' = vetting s"
    "checked_off s' = checked_off s" "holds_head s' = holds_head s" "at_head s' = at_head s"
    "readers_to s' = readers_to s" "lf_held s' = lf_held s"
  using assms
  by (simp_all add: fun_eq_iff same_world_def present_def gone_def shared_at_def placed_def passable_def clear_to_def
      has_head_def own_def renewed_def behind_def settled_def gathered_def beyond_def walking_def stepping_def
      vetting_def checked_off_def holds_head_def at_head_def readers_to_def lf_held_def)

lemma same_world_good:
  assumes "same_world s s'"
  shows "search_good s' n d = search_good s n d" "acq_good s' t r p = acq_good s t r p" "rel_good s' t r q = rel_good s t r q"
    "cond_at s' f = cond_at s f"
proof -
  show d: "search_good s' n d = search_good s n d" for n d
    using assms by (cases d) (simp_all add: same_world_conditions [OF assms], simp_all add: same_world_def)
  show "acq_good s' t r p = acq_good s t r p"
    by (cases p) (simp_all add: same_world_conditions [OF assms] d, use assms in \<open>simp_all add: same_world_def\<close>)
  show "rel_good s' t r q = rel_good s t r q"
    by (cases q) (simp_all add: same_world_conditions [OF assms], use assms in \<open>simp_all add: same_world_def\<close>)
  show "cond_at s' f = cond_at s f"
    by (cases "(s, f)" rule: cond_at.cases) (use assms in \<open>simp_all add: same_world_def\<close>)
qed

lemma same_world_point: "same_world s (at_point t f s)"
  by (simp add: same_world_def)

lemma local_point:
  assumes tab: "table_good s" and t: "t < n_threads (base s)"
    and prep: "prepared (fines s ! t) \<in> {None, prepared f}" and wait: "waits_with (fines s ! t) \<in> {None, waits_with f}"
  shows "local_step t s (at_point t f s)"
proof (rule local_none [OF tab])
  have "fines (at_point t f s) ! t = f" using t table_parts(10) [OF tab] by simp
  then show "prepared (fines s ! t) \<in> {None, prepared (fines (at_point t f s) ! t)}"
    "waits_with (fines s ! t) \<in> {None, waits_with (fines (at_point t f s) ! t)}" using prep wait by simp_all
  show "same_fields t s (at_point t f s)"
    by (auto simp: same_fields_def ends_of_def) (metis list_update_id)+
  show "node_fits t s (trx_node_table (memo (at_point t f s)) t)" using table_parts(5) [OF tab] by (simp add: nodes_fit)
qed simp_all

lemma point_step:
  assumes good: "lf_good s" and t: "t < n_threads (base s)" and f: "fines s ! t = In_acquire p"
    and acq: "acquiring s t p st ds x" "lock_fits s t st p"
    and p': "acq_good s t (stage_record st (locs (base s) ! t)) p'" "acq_lock p' = acq_lock p"
      "\<And>a. acq_lock p = Some a \<Longrightarrow> acq_state p' a = acq_state p a"
      "conflict_at (In_acquire p') = conflict_at (In_acquire p)" "cond_at s (In_acquire p') = cond_at s (In_acquire p)"
      "prepared (In_acquire p) \<in> {None, prepared (In_acquire p')}" "waits_with (In_acquire p) \<in> {None, waits_with (In_acquire p')}"
  shows "lf_good (at_point t (In_acquire p') s)"
proof -
  let ?s = "at_point t (In_acquire p') s"
  note tab = lf_good_parts(1) [OF good]
  have st: "local_step t s ?s" by (rule local_point [OF tab t]) (use f p'(6,7) in simp_all)
  have "acquiring ?s t p' st ds x"
    by (rule acquiring_kept [OF acq(1) local_frame [OF tab st]])
       (use acq(1) p'(2,4,5) same_world_good(4) [OF same_world_point] in \<open>simp_all add: acquiring_def\<close>)
  moreover have "lock_fits ?s t st p'" using acq(2) p'(2,3) by (simp add: lock_fits_def own_def)
  moreover have "acq_good ?s t (stage_record st (locs (base ?s) ! t)) p'"
    using p'(1) same_world_good(2) [OF same_world_point] by simp
  moreover have "fines ?s ! t = In_acquire p'" using t table_parts(10) [OF tab] by simp
  ultimately have "thread_good ?s t" unfolding thread_good_acquire [OF \<open>fines ?s ! t = In_acquire p'\<close>] by auto
  then show ?thesis by (rule lf_good_local [OF good st])
qed

end
