(* ===== verification/LfWalk.thy ===== *)
theory LfWalk
  imports LfOwn
begin

text \<open>
  The part of \<open>AcquireLock\<close> that reads only: the walk from the head to the new lock and the
  check of the locks found. The walk gathers the locks of consecutive positions and starts
  again when it meets a lock that was recycled; a lock of the vector is checked off when it
  is released, was recycled, or shares with the new lock.
\<close>

section \<open>What the reads tell\<close>

lemma settled_cell:
  assumes "table_good s" and "settled s r a k"
  shows "a < cells s" "order s r ! k = a" "k < length (order s r)" "last_place (order s r) a k" "a \<notin> fresh s"
  using last_place_cell [OF assms(1), of r a k] assms(2) last_place_nth last_place_less by (auto simp: settled_def placed_def)

lemma id_less:
  assumes "ids_left s" and "j < k" and "k < length (order s r)"
  shows "(of_nat j :: u64) < of_nat k" "(of_nat k :: u64) \<noteq> no_id" "(of_nat k :: u64) < no_id"
proof -
  have "length (order s r) < 2 ^ 64" using assms(1) by (simp add: ids_left_def)
  then have k: "k < 2 ^ 64 - 1" "j < 2 ^ 64" using assms(2,3) by linarith+
  then have u: "unat (of_nat k :: u64) = k" "unat (of_nat j :: u64) = j"
    by (simp_all add: unat_of_nat take_bit_nat_eq_self)
  show "(of_nat j :: u64) < of_nat k" using assms(2) u by (simp add: word_less_nat_alt)
  show l: "(of_nat k :: u64) < no_id" using k(1) u(1) by (simp add: word_less_nat_alt)
  show "(of_nat k :: u64) \<noteq> no_id" using l by (metis less_irrefl)
qed

lemma obsolete_gone: "is_obsolete (order s r ! j) (memo s) \<Longrightarrow> gone s r j"
  by (simp add: gone_def is_obsolete_def)

lemma behind_gone:
  assumes tab: "table_good s" and ids: "ids_left s" and a: "settled s r a k" and j: "j < k"
    and beh: "is_behind a (order s r ! j) (memo s)"
  shows "gone s r j"
proof (rule ccontr)
  let ?x = "order s r ! j"
  assume "\<not> gone s r j"
  then have x: "placed s r ?x j" by (simp add: gone_def present_def placed_def)
  have k: "k < length (order s r)" "placed s r a k" "lock_id_on_record (cell s a) = of_nat k"
    using settled_cell(3) [OF tab a] a by (simp_all add: settled_def)
  note parts = table_parts(3) [OF tab, of r, unfolded ids_good_def]
  have "lock_id_on_record (cell s ?x) \<noteq> no_id"
    using parts x k j id_less(2) [OF ids j k(1)] by metis
  then have "lock_id_on_record (cell s ?x) = of_nat j" using parts x by blast
  then show False using beh k(3) id_less(1) [OF ids j k(1)] by (simp add: is_behind_def)
qed

lemma beyond_behind:
  assumes tab: "table_good s" and ids: "ids_left s" and a: "settled s r a k" and x: "beyond s r k x"
  shows "is_behind a x (memo s)"
proof -
  obtain l where l: "k < l" "l < length (order s r)" "order s r ! l = x" using x by (auto simp: beyond_def)
  then obtain n where n: "last_place (order s r) x n" using last_place_exists [of x "order s r"] nth_mem by metis
  have "l \<le> n" using last_place_max [OF n l(2,3)] .
  then have kn: "k < n" using l(1) by simp
  note less = id_less [OF ids kn last_place_less [OF n]]
  have "lock_id_on_record (cell s x) \<in> {no_id, of_nat n}"
  proof (cases "x \<in> fresh s")
    case True
    then show ?thesis using table_parts(7) [OF tab last_place_cell(1) [OF tab n]] by (simp add: cell_good_def Let_def)
  next
    case False
    then show ?thesis using table_parts(3) [OF tab, of r] n by (auto simp: ids_good_def placed_def)
  qed
  then show ?thesis using a less less_trans [OF less(1,3)] by (auto simp: is_behind_def settled_def)
qed

section \<open>The walk\<close>

lemma gathered_parts:
  assumes "gathered s r k w p"
  shows "p \<le> passed s r" "p + length w \<le> k" "inj_on ((!) (order s r)) {p..<Suc k}"
    "w = map ((!) (order s r)) [p..<p + length w]"
proof -
  have "distinct (map ((!) (order s r)) [p..<Suc k])" using assms unfolding gathered_def by blast
  then show "inj_on ((!) (order s r)) {p..<Suc k}" unfolding distinct_map set_upt by blast
qed (use assms in \<open>unfold gathered_def, blast+\<close>)

lemma gathered_nth:
  assumes "gathered s r k w p" and "i < length w"
  shows "w ! i = order s r ! (p + i)"
proof -
  have "w ! i = map ((!) (order s r)) [p..<p + length w] ! i"
    using gathered_parts(4) [OF assms(1)] by (rule arg_cong)
  then show ?thesis using assms(2) nth_map_upt [of i "p + length w" p "(!) (order s r)"] by simp
qed

lemma gathered_same:
  assumes "gathered s r k w p" and "p \<le> i" "i \<le> k" "p \<le> j" "j \<le> k" "order s r ! i = order s r ! j"
  shows "i = j"
  using inj_onD [OF gathered_parts(3) [OF assms(1)] assms(6)] assms(2-5) by simp

lemma check_rest_good:
  assumes tab: "table_good s" and v: "vetting s r a w i"
  shows "acq_good s t r (check_rest a w i)"
proof (cases "i = 0")
  case True
  obtain k p where k: "settled s r a k" "gathered s r k w p"
    "\<And>j. p \<le> j \<Longrightarrow> j < k \<Longrightarrow> passable s r j (mode (cell s a))" using v True by (auto simp: vetting_def)
  have "gone s r j" if "j < p" for j
    using table_parts(1) [OF tab, of r] k(2) that by (auto simp: order_good_def gathered_def)
  then have "passable s r j (mode (cell s a))" if "j < k" for j
    using k(3) that by (cases "j < p") (auto simp: passable_def)
  then show ?thesis using True k(1) settled_cell(2) [OF tab k(1)] by (auto simp: check_rest_def clear_to_def)
qed (use v in \<open>simp add: check_rest_def\<close>)

lemma collect_loop_good:
  assumes tab: "table_good s" and a: "settled s r a k" and w: "gathered s r k w p"
    and x: "(p + length w \<le> k \<and> x = order s r ! (p + length w)) \<or> beyond s r k x"
  shows "acq_good s t r (collect_loop a w x)"
proof (cases "x = a")
  case True
  note ak = settled_cell [OF tab a]
  have "\<not> beyond s r k a" using last_place_max [OF ak(4)] by (fastforce simp: beyond_def)
  then have "p + length w \<le> k" "order s r ! (p + length w) = order s r ! k" using x True ak(2) by auto
  then have "p + length w = k" using gathered_same [OF w, of "p + length w" k] by simp
  moreover from this have "\<forall>j. p + length w \<le> j \<and> j < k \<longrightarrow> passable s r j (mode (cell s a))" by auto
  ultimately have "vetting s r a w (length w)" using a w unfolding vetting_def by blast
  then show ?thesis using check_rest_good [OF tab] True by (simp add: collect_loop_def)
next
  case False
  then have "p + length w \<noteq> k \<or> beyond s r k x" using x settled_cell(2) [OF tab a] by auto
  then have "walking s r a w x" using a w x unfolding walking_def by (metis le_neq_implies_less)
  then show ?thesis using False by (simp add: collect_loop_def)
qed

lemma head_reached:
  assumes tab: "table_good s" and a: "settled s r a k" and live: "state (cell s a) \<noteq> OBSOLETE"
  shows "gathered s r k [] (passed s r)"
proof -
  note ak = settled_cell [OF tab a] and ord = table_parts(1) [OF tab, of r, unfolded order_good_def]
  have "\<not> gone s r k" using ak live by (simp add: gone_def present_def)
  then have le: "passed s r \<le> k" using ord not_le by blast
  have "last_place (order s r) (order s r ! i) i" if "passed s r \<le> i" "i \<le> k" for i
    using ord that ak(3) by (simp add: present_def)
  then have "inj_on ((!) (order s r)) {passed s r..<Suc k}"
    by (intro inj_onI) (metis atLeastLessThan_iff last_place_unique less_Suc_eq_le)
  then show ?thesis using le by (simp add: gathered_def distinct_map del: upt_Suc)
qed

lemma head_loaded:
  assumes tab: "table_good s" and h: "has_head s r"
  shows "load_head r (memo s) = Inr (order s r ! passed s r)" "passed s r < length (order s r)"
proof -
  obtain node x where n: "lock_table (memo s) r = Some node" "head node = Some x" using h by (auto simp: has_head_def)
  then show "load_head r (memo s) = Inr (order s r ! passed s r)" "passed s r < length (order s r)"
    using table_parts(8) [OF tab n(1)] by (simp_all add: load_head_def get_node_def queue_good_def)
qed

lemma next_found:
  assumes tab: "table_good s" and st: "stepping s r a w x" and nxt: "next_lock (cell s x) = Some y"
  shows "acq_good s t r (collect_loop a w y)"
proof -
  obtain k p where k: "settled s r a k" "gathered s r k w p" "w \<noteq> []" "x = last w" using st by (auto simp: stepping_def)
  obtain n where n: "length w = Suc n" using k(3) by (cases w) auto
  define j where "j = p + n"
  have "p + length w \<le> k" using k(2) by (simp add: gathered_def)
  then have j: "Suc j = p + length w" "p \<le> j" "Suc j \<le> k" "x = order s r ! j"
    using k(3,4) n gathered_nth [OF k(2), of n] by (simp_all add: j_def last_conv_nth)
  have len: "k < length (order s r)" using settled_cell [OF tab k(1)] by simp
  then have "x \<in> set (order s r)" using j by simp
  then obtain l where l: "last_place (order s r) x l" using last_place_exists by blast
  then have jl: "j \<le> l" using last_place_max [OF l, of j] j len by simp
  have y: "Suc l < length (order s r)" "y = order s r ! Suc l"
    using table_parts(2) [OF tab, of r, unfolded links_good_def, rule_format, OF l] nxt by simp_all
  have "l = j \<or> k < l" using gathered_same [OF k(2), of l j] jl j last_place_nth [OF l] by fastforce
  then have "(p + length w \<le> k \<and> y = order s r ! (p + length w)) \<or> beyond s r k y"
  proof
    assume "k < l"
    then have "beyond s r k y" using y unfolding beyond_def by (intro exI [of _ "Suc l"]) simp
    then show ?thesis ..
  qed (use y j in simp)
  then show ?thesis by (rule collect_loop_good [OF tab k(1,2)])
qed

lemma collected:
  assumes tab: "table_good s" and ids: "ids_left s" and wk: "walking s r a w x" and "\<not> is_behind a x (memo s)"
  shows "stepping s r a (w @ [x]) x"
proof -
  obtain k p where k: "settled s r a k" "gathered s r k w p"
    "(p + length w < k \<and> x = order s r ! (p + length w)) \<or> beyond s r k x" using wk by (auto simp: walking_def)
  then have x: "p + length w < k" "x = order s r ! (p + length w)"
    using beyond_behind [OF tab ids k(1)] assms(4) by blast+
  then have "gathered s r k (w @ [x]) p"
    using k(2) unfolding gathered_def by (simp del: upt_Suc) (metis list.simps(8) list.simps(9) map_append upt_Suc_append le_add1)
  then show ?thesis using k(1) by (auto simp: stepping_def)
qed

lemma checked_off_good:
  assumes v: "vetting s r a w i" and i: "0 < i"
    and pass: "\<And>k p. settled s r a k \<Longrightarrow> gathered s r k w p \<Longrightarrow> p + length w = k \<Longrightarrow> p + (i - 1) < k \<Longrightarrow>
      w ! (i - 1) = order s r ! (p + (i - 1)) \<Longrightarrow> passable s r (p + (i - 1)) (mode (cell s a))"
  shows "vetting s r a w (i - 1)"
proof -
  obtain k p where k: "settled s r a k" "gathered s r k w p" "p + length w = k" "i \<le> length w"
    "\<And>j. p + i \<le> j \<Longrightarrow> j < k \<Longrightarrow> passable s r j (mode (cell s a))" using v by (auto simp: vetting_def)
  have "passable s r (p + (i - 1)) (mode (cell s a))"
    using pass [OF k(1-3)] gathered_nth [OF k(2), of "i - 1"] i k(3,4) by simp
  then have "passable s r j (mode (cell s a))" if "p + (i - 1) \<le> j" "j < k" for j
    using k(5) that by (cases "j = p + (i - 1)") auto
  moreover have "i - 1 \<le> length w" using k(4) by simp
  ultimately show ?thesis using k(1-3) unfolding vetting_def by blast
qed

lemma vetting_in_heap: "table_good s \<Longrightarrow> vetting s r a w i \<Longrightarrow> set w \<subseteq> {..<cells s}"
proof -
  assume tab: "table_good s" and "vetting s r a w i"
  then obtain k p where k: "settled s r a k" "gathered s r k w p" by (auto simp: vetting_def)
  have "order s r ! j < cells s" if "j < k" for j
    using placed_cell(1) [OF tab, of j r] settled_cell(3) [OF tab k(1)] that by simp
  then show ?thesis using k(2) gathered_nth [OF k(2)] by (auto simp: in_set_conv_nth gathered_def)
qed

section \<open>The steps\<close>

definition quiet_move :: "acq \<Rightarrow> acq \<Rightarrow> bool" where
  "quiet_move p p' \<longleftrightarrow>
     acq_lock p' = acq_lock p \<and> (\<forall>a. acq_lock p = Some a \<longrightarrow> acq_state p' a = acq_state p a)
     \<and> conflict_at (In_acquire p') = conflict_at (In_acquire p)
     \<and> (\<forall>s. cond_at s (In_acquire p') = cond_at s (In_acquire p)) \<and> fresh_lock p' = {}
     \<and> prepared (In_acquire p) = None \<and> waits_with (In_acquire p) = waits_with (In_acquire p')"

lemma quiet_loops:
  "quiet_move (Aq_state a w i) (check_rest a w' n)" "quiet_move (Aq_behind a w i) (check_rest a w' n)"
  "quiet_move (Aq_compare a w i) (check_rest a w' n)" "quiet_move (Aq_head a) (collect_loop a w x)"
  "quiet_move (Aq_next a w y) (collect_loop a w x)"
  by (simp_all add: quiet_move_def check_rest_def collect_loop_def acq_state_def)

lemma walk_step_good:
  assumes tab: "table_good s" and ids: "ids_left s" and good: "acq_good s t r p" and ph: "phase_of p = Walking"
    and live: "\<And>a. acq_lock p = Some a \<Longrightarrow> state (cell s a) = acq_state p a"
  shows "\<exists>p'. walk_step r p (memo s) = Inr p' \<and> acq_good s t r p' \<and> quiet_move p p'"
proof -
  have vet: "acq_good s t r (check_rest a w (i - 1)) \<and> checked_off s r a w i"
    if v: "vetting s r a w i" "0 < i"
      and "is_obsolete (w ! (i - 1)) (memo s) \<or> is_behind a (w ! (i - 1)) (memo s)
        \<or> (mode (cell s a) = SHARED \<and> mode (cell s (w ! (i - 1))) = SHARED)" for a w i
  proof -
    have "vetting s r a w (i - 1)"
    proof (rule checked_off_good [OF v])
      fix k p
      assume "settled s r a k" "gathered s r k w p" "p + length w = k" "p + (i - 1) < k"
        "w ! (i - 1) = order s r ! (p + (i - 1))"
      then show "passable s r (p + (i - 1)) (mode (cell s a))"
        using that(3) obsolete_gone behind_gone [OF tab ids] by (auto simp: passable_def shared_at_def)
    qed
    then show ?thesis using check_rest_good [OF tab] v(2) by (simp add: checked_off_def)
  qed
  have sh: "mode l = SHARED \<longleftrightarrow> mode l \<noteq> EXCLUSIVE" for l :: lock_t by (cases "mode l") simp_all
  show ?thesis
  proof (cases p)
    case (Aq_head a)
    then obtain k where k: "settled s r a k" using good by auto
    then have g: "gathered s r k [] (passed s r)" using head_reached [OF tab] live [of a] Aq_head by (simp add: acq_state_def)
    moreover from this have "passed s r \<le> k" unfolding gathered_def by simp
    ultimately have "acq_good s t r (collect_loop a [] (order s r ! passed s r))"
      by (intro collect_loop_good [OF tab k g]) simp
    moreover have "has_head s r" using k by (simp add: settled_def)
    ultimately show ?thesis using head_loaded [OF tab] Aq_head quiet_loops(4)
      by (simp add: walk_step_def)
  next
    case (Aq_collect a w x)
    then show ?thesis using good collected [OF tab ids, of r a w x]
      by (auto simp: walk_step_def quiet_move_def acq_state_def walking_def)
  next
    case (Aq_next a w x)
    then have st: "stepping s r a w x" using good by simp
    show ?thesis
    proof (cases "next_lock (cell s x)")
      case None
      then show ?thesis using st Aq_next by (auto simp: walk_step_def quiet_move_def acq_state_def stepping_def)
    next
      case (Some y)
      then show ?thesis using next_found [OF tab st] Aq_next quiet_loops(5) by (simp add: walk_step_def)
    qed
  next
    case (Aq_state a w i)
    then show ?thesis using good vet [of a w i] quiet_loops(1)
      by (auto simp: walk_step_def) (auto simp: quiet_move_def acq_state_def)
  next
    case (Aq_behind a w i)
    then show ?thesis using good vet [of a w i] quiet_loops(2)
      by (auto simp: walk_step_def) (auto simp: quiet_move_def acq_state_def)
  next
    case (Aq_compare a w i)
    then show ?thesis using good vet [of a w i] quiet_loops(3) sh
      by (auto simp: walk_step_def) (auto simp: quiet_move_def acq_state_def)
  next
    case (Aq_again_state a w i)
    then show ?thesis using good vet [of a w i] by (auto simp: walk_step_def quiet_move_def acq_state_def)
  next
    case (Aq_again_id a w i)
    then have v: "vetting s r a w i" "0 < i" using good by auto
    then have "\<exists>k. settled s r a k" "set w \<subseteq> {..<cells s}"
      using vetting_in_heap [OF tab v(1)] by (auto simp: vetting_def)
    then show ?thesis using v vet [of a w i] Aq_again_id by (auto simp: walk_step_def quiet_move_def acq_state_def)
  qed (use ph in simp_all)
qed

end
