(* ===== verification/LfDecide.thy ===== *)
theory LfDecide
  imports LfWalk
begin

text \<open>
  The steps of \<open>AcquireLock\<close> after the insertion: the walk, the deadlock search, which
  stays within the heap and never meets a null pointer, and the decision to go on, to
  refuse or to sleep.
\<close>

section \<open>The search\<close>

lemma next_in_heap:
  assumes tab: "table_good s" and x: "x < cells s" and nxt: "next_lock (cell s x) = Some y"
  shows "y < cells s"
proof -
  let ?r = "record_id (cell s x)"
  have "x \<in> set (order s ?r)" using table_parts(7) [OF tab x] nxt by (auto simp: cell_good_def Let_def)
  then obtain l where "last_place (order s ?r) x l" using last_place_exists by blast
  then have "Suc l < length (order s ?r)" "y = order s ?r ! Suc l"
    using table_parts(2) [OF tab, of ?r, unfolded links_good_def, rule_format] nxt by fastforce+
  then show ?thesis using placed_cell(1) [OF tab] by simp
qed

lemma head_in_heap:
  assumes tab: "table_good s" and "has_head s r"
  shows "\<exists>node x. get_node r (memo s) = Inr node \<and> deref (head node) = Inr x \<and> x < cells s"
proof -
  obtain node x where n: "lock_table (memo s) r = Some node" "head node = Some x"
    using assms(2) by (auto simp: has_head_def)
  then have "x = order s r ! passed s r" "passed s r < length (order s r)"
    using table_parts(8) [OF tab n(1)] by (simp_all add: queue_good_def)
  then show ?thesis using n placed_cell(1) [OF tab] by (simp add: get_node_def)
qed

lemma search_loop_good:
  "set (q @ tmp) \<subseteq> {..<cells s} \<Longrightarrow> x < cells s \<Longrightarrow> c < cells s \<Longrightarrow> has_head s (record_id (cell s c)) \<Longrightarrow>
    search_good s n (search_loop q pass u c i tmp x)"
  by (simp add: search_loop_def)

lemma search_access_good:
  assumes tab: "table_good s" and w: "set w \<subseteq> {..<cells s}" and good: "search_good s (length w) d"
  shows "\<exists>d'. search_access me w d (memo s) = Inr (d', memo s) \<and> search_good s (length w) d'"
proof -
  have node: "GetTrxNode u (memo s) = memo s" if "trx_node_table (memo s) u \<noteq> None" for u
    using that by (auto simp: GetTrxNode_def)
  show ?thesis
  proof (cases d)
    case (Ds_init n q)
    then show ?thesis using good w by (auto simp: subset_iff)
  next
    case (Ds_pop q pass)
    then show ?thesis using good table_parts(7) [OF tab] by (cases q) (auto simp: cell_good_def Let_def)
  next
    case (Ds_conflict q pass u)
    then have u: "trx_node_table (memo s) u \<noteq> None" using good by simp
    then obtain x where x: "trx_node_table (memo s) u = Some x" by blast
    have "\<forall>c. conflict_lock x = Some c \<longrightarrow> c < cells s \<and> has_head s (record_id (cell s c))"
      using table_parts(5) [OF tab] x by (simp add: nodes_good_def)
    then show ?thesis using good Ds_conflict x node [OF u] by (auto simp: trx_of_def split: option.splits)
  next
    case (Ds_head q pass u c i)
    then show ?thesis using good head_in_heap [OF tab, of "record_id (cell s c)"] search_loop_good [of q "[]"] by auto
  next
    case (Ds_restart q pass u c i)
    then show ?thesis using good head_in_heap [OF tab, of "record_id (cell s c)"] by auto
  next
    case (Ds_restart_id q pass u c i x)
    then show ?thesis using good search_loop_good [of q "[]"] by auto
  next
    case (Ds_next q pass u c i tmp x)
    then show ?thesis using good next_in_heap [OF tab, of x] by (auto split: option.splits)
  next
    case (Ds_behind q pass u c i tmp x)
    then show ?thesis using good search_loop_good [of q tmp] by auto
  qed (use good in auto)
qed

lemma search_result_good:
  assumes "search_good s (length w) d" and "settled s r a k" and "set w \<subseteq> {..<cells s}"
  shows "acq_good s t r (search_result a w d)" "quiet_move (Aq_search a w d') (search_result a w d)"
  using assms by (cases d; force simp: search_result_def quiet_move_def acq_state_def)+

section \<open>Reading steps of the machine\<close>

lemma lf_acquire_step_read:
  assumes "AcquireLock_access t (stage_mode st) (stage_record st (locs (base s) ! t)) p (memo s) = Inr (Aq_on p', memo s)"
    and "fresh_lock p' = {}" and "\<forall>a. p \<noteq> Aq_tail a"
  shows "lf_acquire_step t st p s = Inr (at_point t (In_acquire p') s)"
proof -
  have "note_insertion r p (Aq_on p') s = s" for r
    using assms(2,3) by (cases p) (simp_all add: note_insertion_def)
  then show ?thesis using assms(1) by (simp add: lf_acquire_step_def Let_def resume_at_def at_point_def)
qed

lemma reading_step_ok:
  assumes good: "lf_good s" and ids: "ids_left s" and t: "t < n_threads (base s)" and f: "fines s ! t = In_acquire p"
    and acq: "acquiring s t p st ds x" "acq_good s t (stage_record st (locs (base s) ! t)) p" "lock_fits s t st p"
    and ph: "phase_of p = Walking \<or> phase_of p = Searching"
  shows "\<exists>s'. lf_acquire_step t st p s = Inr s' \<and> lf_good s'"
proof -
  let ?r = "stage_record st (locs (base s) ! t)"
  note tab = lf_good_parts(1) [OF good]
  have "\<exists>p'. AcquireLock_access t (stage_mode st) ?r p (memo s) = Inr (Aq_on p', memo s)
      \<and> acq_good s t ?r p' \<and> quiet_move p p'"
    using ph
  proof
    assume "phase_of p = Walking"
    then show ?thesis using walk_step_good [OF tab ids acq(2)] acq(3)
      by (auto simp: AcquireLock_access_def lock_fits_def)
  next
    assume p: "phase_of p = Searching"
    then obtain a w d where d: "p = Aq_search a w d" by (cases p) simp_all
    obtain k where k: "settled s ?r a k" using acq(2) d by auto
    have w: "set w \<subseteq> {..<cells s}" "search_good s (length w) d" using acq(2) d by simp_all
    obtain d' where d': "search_access t w d (memo s) = Inr (d', memo s)" "search_good s (length w) d'"
      using search_access_good [OF tab w] by blast
    show ?thesis using search_result_good [OF d'(2) k w(1)] d' d by (simp add: AcquireLock_access_def)
  qed
  then obtain p' where p': "AcquireLock_access t (stage_mode st) ?r p (memo s) = Inr (Aq_on p', memo s)"
    "acq_good s t ?r p'" "quiet_move p p'" by blast
  have "lf_acquire_step t st p s = Inr (at_point t (In_acquire p') s)"
    by (rule lf_acquire_step_read [OF p'(1)]) (use p'(3) ph in \<open>auto simp: quiet_move_def\<close>)
  moreover have "lf_good (at_point t (In_acquire p') s)"
    by (rule point_step [OF good t f acq(1,3) p'(2)]) (use p'(3) in \<open>simp_all add: quiet_move_def\<close>)
  ultimately show ?thesis by blast
qed

section \<open>Deciding\<close>

text \<open>A step that stores the state of the thread's own lock and changes its own node.\<close>

definition state_stored :: "nat \<Rightarrow> nat \<Rightarrow> lock_state \<Rightarrow> trx_node \<Rightarrow> fine \<Rightarrow> lf_sys \<Rightarrow> lf_sys \<Rightarrow> bool" where
  "state_stored t a v y f s s' \<longleftrightarrow>
     order s' = order s \<and> passed s' = passed s \<and> fresh s' = fresh s \<and> head_mutex s' = head_mutex s
     \<and> heap (memo s') = (heap (memo s))[a := (cell s a)\<lparr>state := v\<rparr>]
     \<and> lock_table (memo s') = lock_table (memo s) \<and> record_count (memo s') = record_count (memo s)
     \<and> lock_saved_vectors (memo s') = lock_saved_vectors (memo s)
     \<and> trx_node_table (memo s') = (trx_node_table (memo s))(t \<mapsto> y)
     \<and> fines s' = (fines s)[t := f] \<and> (\<exists>pc. tpcs (base s') = (tpcs (base s))[t := pc]) \<and> locs (base s') = locs (base s)"

lemma state_stored_cell:
  assumes "state_stored t a v y f s s'" and "a < cells s"
  shows "cell s' b = (if b = a then (cell s a)\<lparr>state := v\<rparr> else cell s b)" "cells s' = cells s"
  using assms by (simp_all add: state_stored_def nth_upd)

lemma state_stored_local:
  assumes tab: "table_good s" and t: "t < n_threads (base s)" and st: "state_stored t a v y f s s'"
    and a: "own s t r a" "a \<notin> fresh s" "state (cell s a) = OBSOLETE \<longrightarrow> v = OBSOLETE"
    and f: "prepared (fines s ! t) = None" "waits_with (fines s ! t) \<in> {None, Some a}" "v = WAIT \<Longrightarrow> waits_with f = Some a"
    and y: "node_fits t s (Some y)"
  shows "local_step t s s'"
proof (rule local_one [OF tab, of t s' a])
  have len: "a < cells s" "t < length (fines s)" using a t table_parts(10) [OF tab] by (auto simp: own_def)
  have fines: "fines s' ! t = f" using st len by (simp add: state_stored_def)
  have "ends_of s' = ends_of s" using st by (simp add: ends_of_def fun_eq_iff state_stored_def)
  then show "same_fields t s s'"
    using st by (auto simp: same_fields_def state_stored_def) (metis list_update_id)
  show "tame_cell t s s' a"
    using a f(3) st fines state_stored_cell [OF st len(1)]
    by (auto simp: tame_cell_def own_kept_def own_def state_stored_def)
  show "prepared (fines s ! t) \<in> {None, Some a, prepared (fines s' ! t)}"
    "waits_with (fines s ! t) \<in> {None, Some a, waits_with (fines s' ! t)}" using f by auto
  show "node_fits t s (trx_node_table (memo s') t)" using st y by (simp add: state_stored_def)
qed (use st in \<open>simp_all add: state_stored_def\<close>)

lemma state_stored_steady:
  assumes "state_stored t a v y f s s'" and "a < cells s"
  shows "steady s s' b"
  using assms(1) state_stored_cell [OF assms] by (simp add: steady_def state_stored_def)

lemma acq_lock_placed:
  assumes "acq_good s t r p" and "acq_lock p = Some a" and "phase_of p = Deciding"
  shows "a \<notin> fresh s" "has_head s r" "prepared (In_acquire p) = None"
  using assms by (cases p; auto simp: checked_off_def vetting_def settled_def placed_def)+

lemma own_node_fits:
  assumes tab: "table_good s" and x: "trx_node_table (memo s) t = Some x" and y: "trx_thread_id y = trx_thread_id x"
    "conflict_lock y \<in> {None, conflict_lock x}"
  shows "node_fits t s (Some y)"
  using table_parts(5) [OF tab] x y by (auto simp: nodes_good_def node_fits_def)

text \<open>The decision goes on inside the call.\<close>

lemma decide_on:
  assumes good: "lf_good s" and t: "t < n_threads (base s)" and f: "fines s ! t = In_acquire p"
    and acq: "acquiring s t p st ds x" "acq_good s t (stage_record st (locs (base s) ! t)) p" "lock_fits s t st p"
    and ph: "phase_of p = Deciding" and lock: "acq_lock p = Some a" "acq_lock p' = Some a"
    and st: "state_stored t a v y (In_acquire p') s s'" and pcs: "tpcs (base s') = tpcs (base s)"
    and v: "v = acq_state p' a" "state (cell s a) = OBSOLETE \<longrightarrow> v = OBSOLETE"
    and w: "waits_with (In_acquire p) \<in> {None, Some a}"
    and y: "trx_thread_id y = trx_thread_id x" "conflict_lock y = conflict_lock x" "trx_lock_deque y = trx_lock_deque x"
      "cond y = cond_at s' (In_acquire p')" "conflict_at (In_acquire p') = conflict_at (In_acquire p)"
    and p': "local_step t s s' \<Longrightarrow> acq_good s' t (stage_record st (locs (base s) ! t)) p'"
  shows "lf_good s'"
proof -
  let ?r = "stage_record st (locs (base s) ! t)"
  note tab = lf_good_parts(1) [OF good]
  have a: "own s t ?r a" "mode (cell s a) = stage_mode st" using acq(3) lock by (simp_all add: lock_fits_def)
  then have len: "a < cells s" "t < length (fines s)" using t table_parts(10) [OF tab] by (auto simp: own_def)
  have fits: "node_fits t s (Some y)" using own_node_fits [OF tab _ y(1)] acq(1) y(2) by (simp add: acquiring_def)
  have wt: "v = WAIT \<Longrightarrow> waits_with (In_acquire p') = Some a"
    using v(1) by (simp add: acq_state_def split: if_splits)
  have loc: "local_step t s s'"
    by (rule state_stored_local [OF tab t st a(1) acq_lock_placed(1) [OF acq(2) lock(1) ph] v(2) _ _ wt fits])
       (use f w acq_lock_placed(3) [OF acq(2) lock(1) ph] in simp_all)
  note fr = local_frame [OF tab loc] and cell = state_stored_cell [OF st len(1)]
  have "acquiring s' t p' st ds y"
  proof (rule acquiring_kept [OF acq(1) fr])
    fix b assume "b < cells s" "record_id (cell s b) \<noteq> ?r"
    then have "b \<noteq> a" using a(1) by (auto simp: own_def)
    then show "cell s' b = cell s b \<and> (b \<in> fresh s' \<longleftrightarrow> b \<in> fresh s)" using cell st by (simp add: state_stored_def)
  qed (use acq(1) y pcs st lock in \<open>simp_all add: state_stored_def acquiring_def\<close>)
  moreover have "lock_fits s' t st p'"
    using a st lock v(1) cell by (simp add: lock_fits_def own_def state_stored_def)
  moreover have fines: "fines s' ! t = In_acquire p'" using st len(2) by (simp add: state_stored_def)
  ultimately have "thread_good s' t"
    using p' [OF loc] st unfolding thread_good_acquire [OF fines] by (auto simp: state_stored_def)
  then show ?thesis by (rule lf_good_local [OF good loc])
qed

text \<open>The call returns: \<open>pc\<close> is where the transaction goes on.\<close>

lemma decide_leave:
  assumes good: "lf_good s" and t: "t < n_threads (base s)" and f: "fines s ! t = In_acquire p"
    and acq: "acquiring s t p st ds x" "acq_good s t (stage_record st (locs (base s) ! t)) p" "lock_fits s t st p"
    and ph: "phase_of p = Deciding" and lock: "acq_lock p = Some a" "waits_with (In_acquire p) = None"
    and st: "state_stored t a (state (cell s a)) y Idle s s'"
    and y: "trx_thread_id y = trx_thread_id x" "conflict_lock y = None" "trx_lock_deque y = trx_lock_deque x" "cond y = No_waiter"
    and pcs: "tpcs (base s') = (tpcs (base s))[t := pc]"
    and pc: "count_ok pc (Suc (stage_no st))" "conflict_of pc = None" "live_from pc (Suc (stage_no st)) = 0"
      "last_lock pc \<in> {None, Some a}" "\<And>k. k < stage_no st \<Longrightarrow> expected pc (Suc (stage_no st)) k = ACTIVE"
    and last: "local_step t s s' \<Longrightarrow> if expected pc (Suc (stage_no st)) (stage_no st) = OBSOLETE
        then state (cell s a) = OBSOLETE else lf_held s' t a"
  shows "lf_good s'"
proof -
  let ?r = "stage_record st (locs (base s) ! t)"
  note tab = lf_good_parts(1) [OF good]
  have a: "own s t ?r a" "mode (cell s a) = stage_mode st" using acq(3) lock by (simp_all add: lock_fits_def)
  have x: "trx_node_table (memo s) t = Some x" "tpcs (base s) ! t = Calling st" "trx_lock_deque x = ds @ [a]"
    "length ds = stage_no st" "records_ok (memo s) (locs (base s) ! t)"
    using acq(1) lock by (simp_all add: acquiring_def)
  have len: "a < cells s" "t < length (fines s)" using a t table_parts(10) [OF tab] by (auto simp: own_def)
  have fits: "node_fits t s (Some y)" by (rule own_node_fits [OF tab x(1) y(1)]) (simp add: y(2))
  have nw: "state (cell s a) \<noteq> WAIT"
    using table_parts(7) [OF tab len(1)] a(1) f lock(2) by (auto simp: cell_good_def own_def Let_def)
  have loc: "local_step t s s'"
    by (rule state_stored_local [OF tab t st a(1) acq_lock_placed(1) [OF acq(2) lock(1) ph] _ _ _ _ fits])
       (use f lock nw acq_lock_placed(3) [OF acq(2) lock(1) ph] in simp_all)
  note fr = local_frame [OF tab loc] and cell = state_stored_cell [OF st len(1)]
  have same: "cell s' b = cell s b" for b using cell by simp
  have pc': "tpcs (base s') ! t = pc" "locs (base s') = locs (base s)" "fines s' ! t = Idle" "fresh s' = fresh s"
    using pcs st len(2) t table_parts(10) [OF tab] by (simp_all add: state_stored_def)
  have "slot_good s' t (ds @ [a]) k" if "k < Suc (stage_no st)" for k
  proof (cases "k < stage_no st")
    case True
    have old: "slot_good s t (ds @ [a]) k"
      using acq(1) True x(2,4) by (simp add: acquiring_def slot_good_def nth_append)
    show ?thesis
      by (rule steady_slot [OF fr old]) (use pc(5) [OF True] pc' x(2,4) True same in \<open>simp_all add: steady_same\<close>)
  next
    case False
    then have k: "k = stage_no st" using that by simp
    have "(record_id (cell s a), mode (cell s a)) = wanted (locs (base s) ! t) ! stage_no st"
      using a by (cases st) (simp_all add: own_def wanted_def)
    then show ?thesis
      using k x(4) a(1) last [OF loc] pc' same acq_lock_placed(1,2) [OF acq(2) lock(1) ph] has_head_stays [OF fr, of ?r]
        local_parts(1) [OF loc]
      by (simp add: slot_good_def nth_append own_def)
  qed
  moreover have "records_ok (memo s') (locs (base s) ! t)"
    using x(5) records_ok_cong [of "memo s'" "memo s"] local_parts(9) [OF loc] by simp
  moreover have "trx_node_table (memo s') t = Some y" using st by (simp add: state_stored_def)
  ultimately have "thread_good s' t"
    using pc' pc(1-4) y x(3,4) by (auto simp: thread_good_def outer_good_def)
  then show ?thesis by (rule lf_good_local [OF good loc])
qed

lemma store_same [simp]: "state l = v \<Longrightarrow> l\<lparr>state := v\<rparr> = l"
  by simp

lemma lf_acquire_step_decide:
  assumes "phase_of p = Deciding" and "decide_step t p (memo s) = (n, m)"
    and "\<And>q. n = Aq_on q \<Longrightarrow> fresh_lock q = {}"
  shows "lf_acquire_step t st p s = Inr (case n of
      Aq_on q \<Rightarrow> resume_at t (In_acquire q) ((base s)\<lparr>mem := m\<rparr>) s
    | Aq_got a \<Rightarrow> resume_at t Idle (go t (Using st a) m (base s)) s
    | Aq_null \<Rightarrow> resume_at t Idle (go t (undo_from False 0 (deque t m)) m (base s)) s)"
proof -
  have "note_insertion r p n s = s" for r
    using assms(1,3) by (cases p; cases n) (simp_all add: note_insertion_def)
  then show ?thesis using assms(1,2)
    by (cases n) (simp_all add: lf_acquire_step_def AcquireLock_access_def Let_def)
qed

lemma signalled_clear:
  "table_good s \<Longrightarrow> settled s r a k \<Longrightarrow> signal_flag (cell s a) \<Longrightarrow> clear_to s r k"
  using table_parts(4) [of s r] by (auto simp: signals_good_def settled_def)

lemma deciding_step_ok:
  assumes good: "lf_good s" and t: "t < n_threads (base s)" and f: "fines s ! t = In_acquire p"
    and acq: "acquiring s t p st ds x" "acq_good s t (stage_record st (locs (base s) ! t)) p" "lock_fits s t st p"
    and ph: "phase_of p = Deciding" and can: "lf_can_go t s"
  shows "\<exists>s'. lf_acquire_step t st p s = Inr s' \<and> lf_good s'"
proof -
  let ?r = "stage_record st (locs (base s) ! t)"
  note tab = lf_good_parts(1) [OF good]
  note on = decide_on [OF good t f acq ph] and leave = decide_leave [OF good t f acq ph]
  have step_on: "lf_acquire_step t st p s = Inr (resume_at t (In_acquire q) ((base s)\<lparr>mem := m\<rparr>) s)"
    if "decide_step t p (memo s) = (Aq_on q, m)" "fresh_lock q = {}" for q m
    using lf_acquire_step_decide [OF ph that(1)] that(2) by simp
  have step_out: "lf_acquire_step t st p s = Inr (case n of
        Aq_got a \<Rightarrow> resume_at t Idle (go t (Using st a) m (base s)) s
      | _ \<Rightarrow> resume_at t Idle (go t (undo_from False 0 (deque t m)) m (base s)) s)"
    if "decide_step t p (memo s) = (n, m)" "\<forall>q. n \<noteq> Aq_on q" for n m
    using lf_acquire_step_decide [OF ph that(1)] that(2) by (cases n) simp_all
  have x: "trx_node_table (memo s) t = Some x" "conflict_lock x = conflict_at (In_acquire p)"
    "cond x = cond_at s (In_acquire p)" "length ds = stage_no st"
    "trx_lock_deque x = ds @ (case acq_lock p of None \<Rightarrow> [] | Some a \<Rightarrow> [a])"
    using acq(1) by (simp_all add: acquiring_def)
  have idem: "(trx_node_table (memo s))(t \<mapsto> x) = trx_node_table (memo s)" using x(1) by (simp add: fun_upd_idem)
  have lockst: "a < cells s" "state (cell s a) = acq_state p a" if "acq_lock p = Some a" for a
    using acq(3) that by (auto simp: lock_fits_def own_def)
  note defs = state_stored_def resume_at_def set_state_def upd_lock_def upd_trx_def clear_conflict_def go_def x(1) idem
  have stay: "\<exists>k. settled s' r a k" if "local_step t s s'" "state_stored t a v y g s s'" "\<exists>k. settled s r a k" "a < cells s" for s' v y g r a
    using steady_settled [OF local_frame [OF tab that(1)] _ state_stored_steady [OF that(2,4)]] that(3) by blast
  have vets: "vetting s' r a w i" if "local_step t s s'" "state_stored t a v y g s s'" "vetting s r a w i" "a < cells s" for s' v y g r a w i
    using steady_vetting [OF local_frame [OF tab that(1)] that(3) state_stored_steady [OF that(2,4)]] .
  have clears: "\<exists>k. settled s' r a k \<and> clear_to s' r k"
    if "local_step t s s'" "state_stored t a v y g s s'" "settled s r a k" "clear_to s r k" "a < cells s" for s' v y g r a k
    using steady_settled [OF local_frame [OF tab that(1)] that(3) state_stored_steady [OF that(2,5)]]
      steady_clear [OF local_frame [OF tab that(1)] that(4,3) state_stored_steady [OF that(2,5)]] by blast
  have refuse: "a \<notin> fresh s' \<and> has_head s' r" if "\<exists>k. settled s' r a k" for s' r a
    using that by (auto simp: settled_def placed_def)
  show ?thesis
  proof (cases p)
    case (Aq_wait a w i)
    let ?s = "resume_at t (In_acquire (Aq_again_state a w i)) ((base s)\<lparr>mem := set_state a WAIT (memo s)\<rparr>) s"
    have st: "state_stored t a WAIT x (In_acquire (Aq_again_state a w i)) s ?s" by (simp add: defs)
      (metis list_update_id)
    have "lf_good ?s"
      by (rule on [OF _ _ st]) (use Aq_wait acq(2) lockst x vets [OF _ st] in \<open>auto simp: acq_state_def resume_at_def\<close>)
    moreover have "lf_acquire_step t st p s = Inr ?s"
      by (rule step_on) (use Aq_wait in \<open>simp_all add: decide_step_def\<close>)
    ultimately show ?thesis by blast
  next
    case (Aq_unwait a w i)
    let ?q = "check_rest a w (i - 1)"
    let ?s = "resume_at t (In_acquire ?q) ((base s)\<lparr>mem := set_state a ACTIVE (memo s)\<rparr>) s"
    have st: "state_stored t a ACTIVE x (In_acquire ?q) s ?s" by (simp add: defs) (metis list_update_id)
    have q: "acq_lock ?q = Some a" "acq_state ?q a = ACTIVE" "fresh_lock ?q = {}"
      "conflict_at (In_acquire ?q) = Some a" "\<And>s. cond_at s (In_acquire ?q) = No_waiter"
      by (simp_all add: check_rest_def acq_state_def)
    have "lf_good ?s"
      by (rule on [OF _ q(1) st])
         (use Aq_unwait acq(2) lockst x q vets [OF _ st, of ?r w "i - 1"] check_rest_good [OF local_table [OF tab]]
          in \<open>auto simp: acq_state_def resume_at_def checked_off_def\<close>)
    moreover have "lf_acquire_step t st p s = Inr ?s"
      by (rule step_on) (use Aq_unwait q(3) in \<open>simp_all add: decide_step_def\<close>)
    ultimately show ?thesis by blast
  next
    case (Aq_refuse a)
    let ?s = "resume_at t (In_acquire (Aq_refused a)) ((base s)\<lparr>mem := set_state a OBSOLETE (memo s)\<rparr>) s"
    have st: "state_stored t a OBSOLETE x (In_acquire (Aq_refused a)) s ?s" by (simp add: defs) (metis list_update_id)
    have "lf_good ?s"
      by (rule on [OF _ _ st])
         (use Aq_refuse acq(2) lockst x refuse [OF stay [OF _ st]] in \<open>auto simp: acq_state_def resume_at_def\<close>)
    moreover have "lf_acquire_step t st p s = Inr ?s"
      by (rule step_on) (use Aq_refuse in \<open>simp_all add: decide_step_def\<close>)
    ultimately show ?thesis by blast
  next
    case (Aq_signal a)
    then obtain k where k: "settled s ?r a k" using acq(2) by auto
    show ?thesis
    proof (cases "signal_flag (cell s a)")
      case False
      let ?s = "resume_at t (In_acquire (Aq_sleep a)) ((base s)\<lparr>mem := upd_trx t (\<lambda>x. x\<lparr>cond := Sleeping\<rparr>) (memo s)\<rparr>) s"
      have st: "state_stored t a WAIT (x\<lparr>cond := Sleeping\<rparr>) (In_acquire (Aq_sleep a)) s ?s"
        using lockst [of a] Aq_signal by (simp add: defs acq_state_def) (metis list_update_id)
      have "lf_good ?s"
        by (rule on [OF _ _ st])
           (use Aq_signal lockst x k False stay [OF _ st, of ?r] in \<open>auto simp: acq_state_def resume_at_def upd_trx_def\<close>)
      moreover have "lf_acquire_step t st p s = Inr ?s"
      by (rule step_on) (use Aq_signal False in \<open>simp_all add: decide_step_def\<close>)
    ultimately show ?thesis by blast
    next
      case True
      let ?s = "resume_at t (In_acquire (Aq_clear a)) ((base s)\<lparr>mem := set_state a ACTIVE (memo s)\<rparr>) s"
      have st: "state_stored t a ACTIVE x (In_acquire (Aq_clear a)) s ?s" by (simp add: defs) (metis list_update_id)
      have "lf_good ?s"
        by (rule on [OF _ _ st])
           (use Aq_signal lockst x clears [OF _ st k signalled_clear [OF tab k True]]
            in \<open>auto simp: acq_state_def resume_at_def\<close>)
      moreover have "lf_acquire_step t st p s = Inr ?s"
      by (rule step_on) (use Aq_signal True in \<open>simp_all add: decide_step_def\<close>)
    ultimately show ?thesis by blast
    qed
  next
    case (Aq_sleep a)
    then obtain k where k: "settled s ?r a k" using acq(2) by auto
    have "cond (trx_of t (memo s)) = Notified" using can f Aq_sleep by (simp add: lf_can_go_def)
    then have sig: "signal_flag (cell s a)" using x(1,3) Aq_sleep by (simp add: trx_of_def split: if_splits)
    let ?s = "resume_at t (In_acquire (Aq_clear a)) ((base s)\<lparr>mem := upd_trx t (\<lambda>x. x\<lparr>cond := No_waiter\<rparr>) (set_state a ACTIVE (memo s))\<rparr>) s"
    have st: "state_stored t a ACTIVE (x\<lparr>cond := No_waiter\<rparr>) (In_acquire (Aq_clear a)) s ?s"
      by (simp add: defs) (metis list_update_id)
    have "lf_good ?s"
      by (rule on [OF _ _ st])
         (use Aq_sleep lockst x clears [OF _ st k signalled_clear [OF tab k sig]]
          in \<open>auto simp: acq_state_def resume_at_def\<close>)
    moreover have "lf_acquire_step t st p s = Inr ?s"
      by (rule step_on) (use Aq_sleep in \<open>simp_all add: decide_step_def\<close>)
    ultimately show ?thesis by blast
  next
    case (Aq_refused a)
    let ?m = "clear_conflict t (memo s)"
    let ?pc = "undo_from False 0 (deque t ?m)"
    let ?s = "resume_at t Idle (go t ?pc ?m (base s)) s"
    have "deque t ?m = ds @ [a]" using x Aq_refused by (simp add: deque_def trx_of_def clear_conflict_def upd_trx_def)
    then have pc: "?pc = Undoing False 0" by (simp add: undo_from_def)
    have st: "state_stored t a (state (cell s a)) (x\<lparr>conflict_lock := None\<rparr>) Idle s ?s"
      by (simp add: defs) (metis)
    have "stage_no st \<le> 2" by (cases st) simp_all
    then have "lf_good ?s"
      by (intro leave [OF _ _ st, where pc = "Undoing False 0"]) (use Aq_refused lockst x in \<open>simp_all add: acq_state_def resume_at_def go_def pc\<close>)
    moreover have "lf_acquire_step t st p s = Inr ?s"
      using step_out [of "Aq_null"] Aq_refused by (simp add: decide_step_def)
    ultimately show ?thesis by blast
  next
    case (Aq_clear a)
    obtain k where k: "settled s ?r a k" "clear_to s ?r k" using acq(2) Aq_clear by auto
    let ?m = "clear_conflict t (memo s)"
    let ?s = "resume_at t Idle (go t (Using st a) ?m (base s)) s"
    have st: "state_stored t a (state (cell s a)) (x\<lparr>conflict_lock := None\<rparr>) Idle s ?s"
      by (simp add: defs) (metis)
    have "lf_held s' t a" if "local_step t s s'" "state_stored t a (state (cell s a)) y g s s'" for s' y g
    proof -
      have "own s t ?r a" using acq(3) Aq_clear by (simp add: lock_fits_def)
      then show ?thesis
        using clears [OF that k lockst(1)] lockst [of a] Aq_clear state_stored_cell [OF that(2)] settled_cell [OF tab k(1)] that(2)
        by (auto simp: lf_held_def own_def acq_state_def state_stored_def)
    qed
    then have "lf_good ?s"
      by (intro leave [OF _ _ st, where pc = "Using st a"]) (use Aq_clear lockst x st in \<open>simp_all add: acq_state_def resume_at_def go_def\<close>)
    moreover have "lf_acquire_step t st p s = Inr ?s"
      using step_out [of "Aq_got a"] Aq_clear by (simp add: decide_step_def)
    ultimately show ?thesis by blast
  qed (use ph in simp_all)
qed

end
