(* ===== verification/LfPrepare.thy ===== *)
theory LfPrepare
  imports LfDecide
begin

text \<open>
  The steps of \<open>AcquireLock\<close> before the insertion: a saved lock that was released, has
  passed its id on and was passed by the head is renewed store by store, or a new one is
  allocated; then it gets its mode and goes into the transaction's deque.
\<close>

lemma lf_acquire_step_prepare:
  assumes "phase_of p = Preparing"
    and "prepare_step t (stage_mode st) (stage_record st (locs (base s) ! t)) p (memo s) = (q, m)"
  shows "lf_acquire_step t st p s =
    Inr (resume_at t (In_acquire q) ((base s)\<lparr>mem := m\<rparr>) (s\<lparr>fresh := fresh s \<union> fresh_lock q\<rparr>))"
  using assms by (cases p) (simp_all add: lf_acquire_step_def AcquireLock_access_def Let_def note_insertion_def)

text \<open>After a step of the preparation the thread's earlier locks are as they were.\<close>

lemma prepared_thread:
  assumes good: "lf_good s" and t: "t < n_threads (base s)"
    and acq: "acquiring s t p st ds x" and loc: "local_step t s s'"
    and cells: "\<And>b. b < cells s \<Longrightarrow> record_id (cell s b) \<noteq> stage_record st (locs (base s) ! t) \<Longrightarrow>
      cell s' b = cell s b \<and> (b \<in> fresh s' \<longleftrightarrow> b \<in> fresh s)"
    and base: "tpcs (base s') = tpcs (base s)" "locs (base s') = locs (base s)" "fines s' = (fines s)[t := In_acquire q]"
    and node: "trx_node_table (memo s') t = Some y" "conflict_lock y = None" "cond y = No_waiter"
      "conflict_at (In_acquire q) = None" "cond_at s' (In_acquire q) = No_waiter"
      "trx_lock_deque y = ds @ (case acq_lock q of None \<Rightarrow> [] | Some a \<Rightarrow> [a])"
    and q: "acq_good s' t (stage_record st (locs (base s) ! t)) q" "lock_fits s' t st q"
  shows "lf_good s'"
proof -
  note tab = lf_good_parts(1) [OF good]
  have f: "fines s' ! t = In_acquire q" using base(3) t table_parts(10) [OF tab] by simp
  have "acquiring s' t q st ds y"
    by (rule acquiring_kept [OF acq local_frame [OF tab loc] _ _ cells]) (use base node in simp_all)
  then have "thread_good s' t" using q unfolding thread_good_acquire [OF f] base(2) by blast
  then show ?thesis by (rule lf_good_local [OF good loc])
qed

lemma renew_result:
  assumes "n < n_renewals" and "if n = 0 then recyclable (cell s a) \<and> a \<notin> fresh s else renewed s a n"
    and l: "cell s' a = renew n (cell s a)" and "a \<in> fresh s'"
    and id: "a \<in> fresh s \<Longrightarrow> lock_id_on_record (cell s a) = no_id"
  shows "renewed s' a (Suc n)" "lock_id_on_record (cell s' a) = no_id" "state (cell s' a) \<noteq> WAIT"
    "next_lock (cell s' a) = next_lock (cell s a) \<or> next_lock (cell s' a) = None"
    "record_id (cell s' a) = record_id (cell s a)" "thread_id (cell s' a) = thread_id (cell s a)"
proof -
  have "n \<in> {0, 1, 2, 3, 4, 5, 6}" using assms(1) by (auto simp: n_renewals_def)
  then show "renewed s' a (Suc n)" "lock_id_on_record (cell s' a) = no_id" "state (cell s' a) \<noteq> WAIT"
    "next_lock (cell s' a) = next_lock (cell s a) \<or> next_lock (cell s' a) = None"
    "record_id (cell s' a) = record_id (cell s a)" "thread_id (cell s' a) = thread_id (cell s a)"
    using assms(2,4) id by (auto simp: l renewed_def recyclable_def numeral_eq_Suc)
qed

lemma renew_step_ok:
  assumes good: "lf_good s" and t: "t < n_threads (base s)" and f: "fines s ! t = In_acquire (Aq_renew a n)"
    and acq: "acquiring s t (Aq_renew a n) st ds x"
      "acq_good s t (stage_record st (locs (base s) ! t)) (Aq_renew a n)"
  shows "\<exists>s'. lf_acquire_step t st (Aq_renew a n) s = Inr s' \<and> lf_good s'"
proof -
  let ?r = "stage_record st (locs (base s) ! t)"
  define q where "q = (if Suc n < n_renewals then Aq_renew a (Suc n) else Aq_mode a)"
  define m where "m = (if Suc n < n_renewals then upd_lock a (renew n) (memo s)
    else count_recycled t (upd_lock a (renew n) (memo s)))"
  define s' where "s' = resume_at t (In_acquire q) ((base s)\<lparr>mem := m\<rparr>) (s\<lparr>fresh := insert a (fresh s)\<rparr>)"
  note tab = lf_good_parts(1) [OF good]
  have a: "own s t ?r a" "n < n_renewals" "if n = 0 then recyclable (cell s a) \<and> a \<notin> fresh s else renewed s a n"
    using acq(2) by simp_all
  have len: "a < cells s" "t < length (fines s)" using a t table_parts(10) [OF tab] by (auto simp: own_def)
  have "prepare_step t (stage_mode st) ?r (Aq_renew a n) (memo s) = (q, m)" "fresh_lock q = {a}"
    by (simp_all add: prepare_step_def q_def m_def)
  then have step: "lf_acquire_step t st (Aq_renew a n) s = Inr s'"
    using lf_acquire_step_prepare [of "Aq_renew a n" t st s q m] by (simp add: s'_def)
  have mem: "memo s' = m" "fresh s' = insert a (fresh s)" "fines s' = (fines s)[t := In_acquire q]"
    "order s' = order s" "passed s' = passed s" "head_mutex s' = head_mutex s"
    "tpcs (base s') = tpcs (base s)" "locs (base s') = locs (base s)"
    by (simp_all add: s'_def resume_at_def)
  have m': "heap m = (heap (memo s))[a := renew n (cell s a)]" "lock_table m = lock_table (memo s)"
    "trx_node_table m = trx_node_table (memo s)" "lock_saved_vectors m = lock_saved_vectors (memo s)"
    "record_count m = record_count (memo s)"
    by (simp_all add: m_def count_recycled_def)
  have id: "a \<in> fresh s \<Longrightarrow> lock_id_on_record (cell s a) = no_id"
    using table_parts(7) [OF tab len(1)] by (simp add: cell_good_def Let_def)
  have cell: "cell s' b = (if b = a then renew n (cell s a) else cell s b)" for b
    using len by (simp add: mem m' nth_upd)
  note res = renew_result [OF a(2,3), of s', OF _ _ id]
  have prep: "prepared (In_acquire q) = Some a" by (simp add: q_def)
  have free: "a \<in> fresh s \<or> recyclable (cell s a)" using a(3) by (auto simp: renewed_def split: if_splits)
  have loc: "local_step t s s'"
  proof (rule local_one [OF tab, of t s' a])
    show "same_fields t s s'"
      using mem m' by (auto simp: same_fields_def ends_of_def fun_eq_iff) (metis list_update_id)+
    show "tame_cell t s s' a"
      using a(1) free res cell [of a] len mem prep id
      by (auto simp: tame_cell_def own_kept_def own_def split: if_splits)
    show "node_fits t s (trx_node_table (memo s') t)" using table_parts(5) [OF tab] mem m' by (simp add: nodes_fit)
  qed (use mem m' len f in \<open>simp_all\<close>, cases n, simp_all)
  have "lf_good s'"
  proof (rule prepared_thread [OF good t acq(1) loc])
    have "own s' t ?r a" using a(1) res(5,6) cell [of a] mem m' by (simp add: own_def)
    moreover have "renewed s' a (Suc n)" using res(1) cell [of a] mem by simp
    moreover have "Suc n = n_renewals" if "\<not> Suc n < n_renewals" using a(2) that by simp
    ultimately show "acq_good s' t ?r q" by (auto simp: q_def)
    show "cell s' b = cell s b \<and> (b \<in> fresh s' \<longleftrightarrow> b \<in> fresh s)" if "record_id (cell s b) \<noteq> ?r" for b
      using that cell [of b] a(1) mem(2) by (auto simp: own_def)
  qed (use acq(1) mem m' in \<open>auto simp: acquiring_def q_def lock_fits_def\<close>)
  then show ?thesis using step by blast
qed

lemma mode_step_ok:
  assumes good: "lf_good s" and t: "t < n_threads (base s)" and f: "fines s ! t = In_acquire (Aq_mode a)"
    and acq: "acquiring s t (Aq_mode a) st ds x" "acq_good s t (stage_record st (locs (base s) ! t)) (Aq_mode a)"
  shows "\<exists>s'. lf_acquire_step t st (Aq_mode a) s = Inr s' \<and> lf_good s'"
proof -
  let ?r = "stage_record st (locs (base s) ! t)"
  define m where "m = upd_trx t (\<lambda>x. x\<lparr>trx_lock_deque := trx_lock_deque x @ [a]\<rparr>)
    (upd_lock a (\<lambda>l. l\<lparr>mode := stage_mode st\<rparr>) (count_lock t (memo s)))"
  define s' where "s' = resume_at t (In_acquire (Aq_tail a)) ((base s)\<lparr>mem := m\<rparr>) (s\<lparr>fresh := fresh s\<rparr>)"
  note tab = lf_good_parts(1) [OF good]
  have a: "own s t ?r a" "renewed s a n_renewals" using acq(2) by simp_all
  have len: "a < cells s" "t < length (fines s)" using a t table_parts(10) [OF tab] by (auto simp: own_def)
  have step: "lf_acquire_step t st (Aq_mode a) s = Inr s'"
    using lf_acquire_step_prepare [of "Aq_mode a" t st s "Aq_tail a" m] by (simp add: s'_def prepare_step_def m_def)
  have mem: "memo s' = m" "fresh s' = fresh s" "fines s' = (fines s)[t := In_acquire (Aq_tail a)]"
    "order s' = order s" "passed s' = passed s" "head_mutex s' = head_mutex s"
    "tpcs (base s') = tpcs (base s)" "locs (base s') = locs (base s)"
    by (simp_all add: s'_def resume_at_def)
  have x: "trx_node_table (memo s) t = Some x" using acq(1) by (simp add: acquiring_def)
  have lk: "lk (count_lock t (memo s)) = lk (memo s)" by (simp add: count_lock_def)
  have m': "heap m = (heap (memo s))[a := (cell s a)\<lparr>mode := stage_mode st\<rparr>]" "lock_table m = lock_table (memo s)"
    "trx_node_table m = (trx_node_table (memo s))(t \<mapsto> x\<lparr>trx_lock_deque := trx_lock_deque x @ [a]\<rparr>)"
    "lock_saved_vectors m = lock_saved_vectors (memo s)" "record_count m = record_count (memo s)"
    using x by (simp_all add: m_def lk) (simp_all add: count_lock_def)
  have id: "lock_id_on_record (cell s a) = no_id"
    using table_parts(7) [OF tab len(1)] a(2) by (simp add: cell_good_def Let_def renewed_def)
  have cell: "cell s' b = (if b = a then (cell s a)\<lparr>mode := stage_mode st\<rparr> else cell s b)" for b
    using len by (simp add: mem m' nth_upd)
  have loc: "local_step t s s'"
  proof (rule local_one [OF tab, of t s' a])
    show "same_fields t s s'"
      using mem m' by (auto simp: same_fields_def ends_of_def fun_eq_iff) (metis list_update_id)+
    show "tame_cell t s s' a"
      using a id cell [of a] len mem
      by (auto simp: tame_cell_def own_kept_def own_def renewed_def n_renewals_def)
    show "node_fits t s (trx_node_table (memo s') t)"
      using own_node_fits [OF tab x, of "x\<lparr>trx_lock_deque := trx_lock_deque x @ [a]\<rparr>"] mem m' by simp
  qed (use mem m' f in simp_all)
  have "lf_good s'"
  proof (rule prepared_thread [OF good t acq(1) loc])
    show "acq_good s' t ?r (Aq_tail a)" using a(2) cell [of a] mem by (simp add: renewed_def)
    show "lock_fits s' t st (Aq_tail a)"
      using a cell [of a] mem m' by (simp add: lock_fits_def own_def renewed_def n_renewals_def acq_state_def)
    show "trx_node_table (memo s') t = Some (x\<lparr>trx_lock_deque := trx_lock_deque x @ [a]\<rparr>)" using mem m' by simp
  qed (use acq(1) mem cell a(1) in \<open>auto simp: acquiring_def own_def\<close>)
  then show ?thesis using step by blast
qed

text \<open>A new lock: the heap grows by one.\<close>

lemma allocate_ok:
  assumes good: "lf_good s" and t: "t < n_threads (base s)" and f: "fines s ! t = In_acquire (Aq_find i)"
    and acq: "acquiring s t (Aq_find i) st ds x"
  defines "r \<equiv> stage_record st (locs (base s) ! t)" and "a \<equiv> cells s"
  defines "s' \<equiv> resume_at t (In_acquire (Aq_mode a)) ((base s)\<lparr>mem := allocate t r (memo s)\<rparr>)
    (s\<lparr>fresh := insert a (fresh s)\<rparr>)"
  shows "lf_good s'"
proof -
  note tab = lf_good_parts(1) [OF good]
  have len: "t < length (fines s)" using t table_parts(10) [OF tab] by simp
  have x: "trx_node_table (memo s) t = Some x" "records_ok (memo s) (locs (base s) ! t)"
    using acq by (simp_all add: acquiring_def)
  have r: "lock_table (memo s) r \<noteq> None" using x(2) by (cases st) (auto simp: r_def records_ok_def wanted_def)
  have mem: "memo s' = allocate t r (memo s)" "fresh s' = insert a (fresh s)" "fines s' = (fines s)[t := In_acquire (Aq_mode a)]"
    "order s' = order s" "passed s' = passed s" "head_mutex s' = head_mutex s"
    "tpcs (base s') = tpcs (base s)" "locs (base s') = locs (base s)"
    by (simp_all add: s'_def resume_at_def)
  have m': "heap (memo s') = heap (memo s) @ [lock_t_new r t]" "lock_table (memo s') = lock_table (memo s)"
    "trx_node_table (memo s') = trx_node_table (memo s)" "record_count (memo s') = record_count (memo s)"
    "lock_saved_vectors (memo s') = (lock_saved_vectors (memo s))(t := (lock_saved_vectors (memo s) t)
       (r := lock_saved_vectors (memo s) t r @ [a]))"
    by (simp_all add: mem allocate_def a_def)
  have cell: "cell s' b = (if b = a then lock_t_new r t else cell s b)" if "b \<le> a" for b
    using that by (auto simp: m' nth_append a_def)
  have new: "a \<notin> set (order s r')" for r'
  proof
    assume "a \<in> set (order s r')"
    then have "a < cells s" using table_parts(1) [OF tab, of r'] by (auto simp: order_good_def)
    then show False by (simp add: a_def)
  qed
  have ends: "ends_of s' = ends_of s" by (simp add: ends_of_def fun_eq_iff m')
  have "node_fits u s' (trx_node_table (memo s') u)" for u
  proof -
    have "node_fits u s (trx_node_table (memo s) u)" using table_parts(5) [OF tab] by (simp add: nodes_fit)
    then show ?thesis using ends by (auto simp: node_fits_def m' has_head_ends nth_append)
  qed
  then have nodes: "nodes_good s'" by (simp add: nodes_fit)
  have "b < cells s' \<and> record_id (cell s' b) = r' \<and> thread_id (cell s' b) = u"
    if "b \<in> set (lock_saved_vectors (memo s') u r')" for b u r'
  proof (cases "b = a")
    case True
    then have "u = t \<and> r' = r" using that table_parts(6) [OF tab] by (auto simp: m' saved_good_def a_def split: if_splits)
    then show ?thesis using True cell [of a] by (simp add: m' a_def lock_t_new_def)
  next
    case False
    then have "b \<in> set (lock_saved_vectors (memo s) u r')" using that by (auto simp: m' split: if_splits)
    then have "b < cells s \<and> record_id (cell s b) = r' \<and> thread_id (cell s b) = u"
      using table_parts(6) [OF tab] by (simp add: saved_good_def)
    then show ?thesis by (simp add: m' nth_append)
  qed
  then have saved: "saved_good s'" by (simp add: saved_good_def)
  have cgood: "cell_good s' a"
    using cell [of a] new r x(1) t len by (simp add: cell_good_def Let_def lock_t_new_def mem(2-4,7) m')
  have loc: "local_step t s s'"
  proof -
    have "tame_cell t s s' b" if "b < cells s" for b
      using that cell [of b] mem f by (intro tame_unchanged [OF tab that]) (auto simp: a_def)
    moreover have "b \<in> fresh s' \<and> cell_good s' b" if "b < cells s'" "cells s \<le> b" for b
    proof -
      have "b = a" using that by (simp add: m' a_def)
      then show ?thesis using cgood mem(2) by simp
    qed
    moreover have "fresh s' \<subseteq> {..<cells s'}" using table_parts(12) [OF tab] by (auto simp: mem(2) m' a_def less_Suc_eq)
    ultimately show ?thesis using nodes saved ends by (auto simp: local_step_def mem(2-8) m' x(1))
  qed
  show ?thesis
  proof (rule prepared_thread [OF good t acq loc])
    show "acq_good s' t (stage_record st (locs (base s) ! t)) (Aq_mode a)"
      using cell [of a] by (simp add: own_def renewed_def m' mem(2) lock_t_new_def a_def r_def n_renewals_def)
    show "cell s' b = cell s b \<and> (b \<in> fresh s' \<longleftrightarrow> b \<in> fresh s)" if "b < cells s" for b
      using that cell [of b] by (simp add: mem(2) a_def)
  qed (use acq mem m' in \<open>auto simp: acquiring_def lock_fits_def\<close>)
qed

lemma find_step_ok:
  assumes good: "lf_good s" and t: "t < n_threads (base s)" and f: "fines s ! t = In_acquire (Aq_find i)"
    and acq: "acquiring s t (Aq_find i) st ds x"
  shows "\<exists>s'. lf_acquire_step t st (Aq_find i) s = Inr s' \<and> lf_good s'"
proof -
  let ?r = "stage_record st (locs (base s) ! t)"
  let ?v = "lock_saved_vectors (memo s) t ?r"
  note tab = lf_good_parts(1) [OF good]
  show ?thesis
  proof (cases "i < length ?v")
    case True
    let ?a = "?v ! i"
    define q where "q = (if recyclable (cell s ?a) then Aq_renew ?a 0 else Aq_find (Suc i))"
    have "?a \<in> set ?v" using True by simp
    then have a: "own s t ?r ?a" using table_parts(6) [OF tab] by (simp add: saved_good_def own_def)
    then have nf: "?a \<notin> fresh s" using table_parts(7) [OF tab, of ?a] f by (auto simp: own_def cell_good_def Let_def)
    have "lf_acquire_step t st (Aq_find i) s = Inr (at_point t (In_acquire q) s)"
      by (rule lf_acquire_step_read) (use True in \<open>simp_all add: AcquireLock_access_def prepare_step_def q_def Let_def\<close>)
    moreover have "lf_good (at_point t (In_acquire q) s)"
      by (rule point_step [OF good t f acq]) (use a nf in \<open>simp_all add: lock_fits_def q_def n_renewals_def\<close>)
    ultimately show ?thesis by blast
  next
    case False
    then have "lf_acquire_step t st (Aq_find i) s = Inr (resume_at t (In_acquire (Aq_mode (cells s)))
        ((base s)\<lparr>mem := allocate t ?r (memo s)\<rparr>) (s\<lparr>fresh := insert (cells s) (fresh s)\<rparr>))"
      using lf_acquire_step_prepare [of "Aq_find i" t st s "Aq_mode (cells s)"] by (simp add: prepare_step_def)
    then show ?thesis using allocate_ok [OF good t f acq] by blast
  qed
qed

end
