(* ===== verification/LfStore.thy ===== *)
theory LfStore
  imports LfPrepare
begin

text \<open>
  Steps that store into the part of a lock that others see: its \<open>next\<close>, its id, its flags.
  One lemma shows what such a store has to satisfy.
\<close>

definition flag_stored :: "nat \<Rightarrow> nat \<Rightarrow> lock_t \<Rightarrow> fine \<Rightarrow> lf_sys \<Rightarrow> lf_sys \<Rightarrow> bool" where
  "flag_stored t c l' f s s' \<longleftrightarrow>
     order s' = order s \<and> passed s' = passed s \<and> fresh s' = fresh s \<and> head_mutex s' = head_mutex s
     \<and> heap (memo s') = (heap (memo s))[c := l']
     \<and> lock_table (memo s') = lock_table (memo s) \<and> record_count (memo s') = record_count (memo s)
     \<and> lock_saved_vectors (memo s') = lock_saved_vectors (memo s)
     \<and> fines s' = (fines s)[t := f] \<and> tpcs (base s') = tpcs (base s) \<and> locs (base s') = locs (base s)
     \<and> (\<forall>u. map_option (\<lambda>x. (trx_lock_deque x, conflict_lock x, trx_thread_id x)) (trx_node_table (memo s') u)
          = map_option (\<lambda>x. (trx_lock_deque x, conflict_lock x, trx_thread_id x)) (trx_node_table (memo s) u))
     \<and> (let l = cell s c in record_id l' = record_id l \<and> thread_id l' = thread_id l \<and> mode l' = mode l
          \<and> state l' = state l \<and> diff l' = diff l)"

lemma flag_stored_cell:
  assumes "flag_stored t c l' f s s'" and "c < cells s"
  shows "cell s' b = (if b = c then l' else cell s b)" "cells s' = cells s"
    "record_id (cell s' b) = record_id (cell s b)" "thread_id (cell s' b) = thread_id (cell s b)"
    "mode (cell s' b) = mode (cell s b)" "state (cell s' b) = state (cell s b)"
    "placed s' = placed s" "present s' = present s" "gone s' = gone s" "clear_to s' = clear_to s" "has_head s' = has_head s"
proof -
  show cell: "cell s' b = (if b = c then l' else cell s b)" for b using assms by (simp add: flag_stored_def nth_upd)
  show "cells s' = cells s" using assms(1) by (simp add: flag_stored_def)
  have e: "record_id l' = record_id (cell s c)" "thread_id l' = thread_id (cell s c)" "mode l' = mode (cell s c)"
    "state l' = state (cell s c)" using assms(1) by (simp_all add: flag_stored_def Let_def)
  show "record_id (cell s' b) = record_id (cell s b)" "thread_id (cell s' b) = thread_id (cell s b)"
    by (simp_all add: cell e)
  have mode: "mode (cell s' b) = mode (cell s b)" and state: "state (cell s' b) = state (cell s b)" for b
    by (simp_all add: cell e)
  then show "mode (cell s' b) = mode (cell s b)" "state (cell s' b) = state (cell s b)" .
  have o: "order s' = order s" "fresh s' = fresh s" "lock_table (memo s') = lock_table (memo s)"
    using assms(1) by (simp_all add: flag_stored_def)
  show pl: "placed s' = placed s" and pr: "present s' = present s" by (simp_all add: fun_eq_iff placed_def present_def o)
  show go: "gone s' = gone s" by (simp add: fun_eq_iff gone_def pr o state)
  show "clear_to s' = clear_to s" by (simp add: fun_eq_iff clear_to_def passable_def shared_at_def go o mode)
  show "has_head s' = has_head s" by (simp add: fun_eq_iff has_head_def o)
qed

text \<open>What the store must satisfy, on the record \<open>r\<close> of the lock at position \<open>k\<close>.\<close>

definition store_fits :: "lf_sys \<Rightarrow> nat \<Rightarrow> nat \<Rightarrow> nat \<Rightarrow> lock_t \<Rightarrow> bool" where
  "store_fits s r c k l' \<longleftrightarrow>
     (let l = cell s c in
      placed s r c k
      \<and> (next_lock l' = next_lock l \<or> (Suc k < length (order s r) \<and> next_lock l' = Some (order s r ! Suc k)))
      \<and> (lock_id_on_record l' = lock_id_on_record l
         \<or> (lock_id_on_record l = no_id \<and> lock_id_on_record l' = of_nat k
            \<and> (\<forall>j b. j < k \<and> placed s r b j \<longrightarrow> lock_id_on_record (cell s b) \<noteq> no_id)))
      \<and> (signal_flag l' \<longrightarrow> signal_flag l \<or> clear_to s r k)
      \<and> (head_pass_flag l' \<longrightarrow> head_pass_flag l \<or> k < passed s r)
      \<and> (id_pass_flag l' \<longrightarrow> id_pass_flag l \<or> Suc k < length (order s r)))"

lemma store_table:
  assumes tab: "table_good s" and st: "flag_stored t c l' f s s'" and fit: "store_fits s r c k l'"
    and prep: "prepared (fines s ! t) \<in> {None, prepared (fines s' ! t)}"
    and wait: "waits_with (fines s ! t) \<in> {None, waits_with (fines s' ! t)}"
  shows "table_good s'"
proof -
  have c: "placed s r c k" using fit by (simp add: store_fits_def Let_def)
  then have lc: "last_place (order s r) c k" "c \<notin> fresh s" by (simp_all add: placed_def)
  have cr: "c < cells s" "record_id (cell s c) = r" using last_place_cell [OF tab lc(1)] by simp_all
  note cell = flag_stored_cell [OF st cr(1)] and parts = table_parts [OF tab]
  have o: "order s' = order s" "passed s' = passed s" "fresh s' = fresh s" "lock_table (memo s') = lock_table (memo s)"
    using st by (simp_all add: flag_stored_def)
  have only: "a = c \<Longrightarrow> r' = r \<and> n = k" if "placed s r' a n" for a n r'
    using that cr(2) last_place_cell(2) [OF tab, of r' c n] last_place_unique [of "order s r" c n k] lc(1) by (auto simp: placed_def)
  have fits: "next_lock l' = next_lock (cell s c) \<or> (Suc k < length (order s r) \<and> next_lock l' = Some (order s r ! Suc k))"
    "lock_id_on_record l' = lock_id_on_record (cell s c) \<or> (lock_id_on_record (cell s c) = no_id
       \<and> lock_id_on_record l' = of_nat k \<and> (\<forall>j b. j < k \<and> placed s r b j \<longrightarrow> lock_id_on_record (cell s b) \<noteq> no_id))"
    "signal_flag l' \<Longrightarrow> signal_flag (cell s c) \<or> clear_to s r k"
    "head_pass_flag l' \<Longrightarrow> head_pass_flag (cell s c) \<or> k < passed s r"
    "id_pass_flag l' \<Longrightarrow> id_pass_flag (cell s c) \<or> Suc k < length (order s r)"
    using fit by (simp_all add: store_fits_def Let_def)
  have "record_good s' r'" for r'
  proof -
    have "present s r' n \<and> \<not> head_pass_flag (cell s' (order s r' ! n))" if n: "n < length (order s r')" "passed s r' \<le> n" for n
    proof -
      have p: "present s r' n" "\<not> head_pass_flag (cell s (order s r' ! n))"
        using parts(1) [of r'] n by (simp_all add: order_good_def)
      then have "placed s r' (order s r' ! n) n" by (simp add: present_def placed_def)
      then show ?thesis using p n fits(4) only [of r' "order s r' ! n" n] cell(1) by auto
    qed
    then have "order_good s' r'"
      using parts(1) [of r'] cell(2,3,9) by (auto simp: order_good_def o cell(8))
    moreover have "links_good s' r'"
      unfolding links_good_def o
    proof (intro allI impI)
      fix a n assume a: "last_place (order s r') a n"
      note old = parts(2) [of r', unfolded links_good_def, rule_format, OF a]
      show "next_lock (cell s' a) = None \<or> Suc n < length (order s r') \<and> next_lock (cell s' a) = Some (order s r' ! Suc n)"
      proof (cases "a = c")
        case True
        then have "r' = r" "n = k" using last_place_cell(2) [OF tab a] cr(2) last_place_unique [OF a] lc(1) by auto
        then show ?thesis using True old fits(1) cell(1) by auto
      qed (use old cell(1) in simp)
    qed
    moreover have "ids_good s' r'"
    proof -
      note old = parts(3) [of r', unfolded ids_good_def]
      have "lock_id_on_record (cell s' a) \<in> {no_id, of_nat n}" if "placed s r' a n" for a n
      proof -
        have "lock_id_on_record (cell s a) \<in> {no_id, of_nat n}" using old that by blast
        then show ?thesis using only [OF that] fits(2) cell(1) by (cases "a = c") auto
      qed
      moreover have "lock_id_on_record (cell s' a) \<noteq> no_id"
        if p: "j < n" "placed s r' a j" "placed s r' b n" "lock_id_on_record (cell s' b) \<noteq> no_id" for j n a b
      proof (cases "b = c")
        case True
        then have b: "r' = r" "n = k" using only [OF p(3)] by blast+
        have "a \<noteq> c" using only [OF p(2)] p(1) b(2) by auto
        then have a: "cell s' a = cell s a" by (simp add: cell(1))
        have l': "lock_id_on_record l' \<noteq> no_id" using p(4) True by (simp add: cell(1))
        from fits(2) show ?thesis
        proof
          assume "lock_id_on_record l' = lock_id_on_record (cell s c)"
          then have "lock_id_on_record (cell s b) \<noteq> no_id" using l' True by simp
          then show ?thesis using old p(1-3) unfolding a by blast
        next
          assume "lock_id_on_record (cell s c) = no_id \<and> lock_id_on_record l' = of_nat k
            \<and> (\<forall>j b. j < k \<and> placed s r b j \<longrightarrow> lock_id_on_record (cell s b) \<noteq> no_id)"
          then show ?thesis using p(1,2) b unfolding a by blast
        qed
      next
        case False
        then have "lock_id_on_record (cell s b) \<noteq> no_id" using p(4) by (simp add: cell(1))
        then have a: "lock_id_on_record (cell s a) \<noteq> no_id" using old p(1-3) by blast
        then show ?thesis using fits(2) by (cases "a = c") (auto simp: cell(1))
      qed
      ultimately show ?thesis unfolding ids_good_def cell(7) by blast
    qed
    moreover have "signals_good s' r'"
      unfolding signals_good_def cell(7,10)
    proof (intro allI impI)
      fix a n assume a: "placed s r' a n \<and> signal_flag (cell s' a)"
      then show "clear_to s r' n"
        using parts(4) [of r'] only [of r' a n] fits(3) cell(1) by (cases "a = c") (auto simp: signals_good_def)
    qed
    moreover have "passes_good s' r'"
      unfolding passes_good_def cell(7) o
    proof (intro allI impI)
      fix a n assume a: "placed s r' a n \<and> id_pass_flag (cell s' a)"
      then show "Suc n < length (order s r')"
        using parts(13) [of r'] only [of r' a n] fits(5) cell(1) by (cases "a = c") (auto simp: passes_good_def)
    qed
    moreover have "case lock_table (memo s') r' of None \<Rightarrow> order s' r' = [] | Some node \<Rightarrow> queue_good s' r' node"
      using parts(8,9) [of r'] by (auto simp: o queue_good_def split: option.splits)
    ultimately show ?thesis by (simp add: record_good_def)
  qed
  moreover have "cell_good s' a" if a: "a < cells s" for a
  proof -
    note old = parts(7) [OF a, unfolded cell_good_def Let_def]
    have f: "prepared (fines s ! thread_id (cell s a)) = Some a \<Longrightarrow> prepared (fines s' ! thread_id (cell s a)) = Some a"
      "waits_with (fines s ! thread_id (cell s a)) = Some a \<Longrightarrow> waits_with (fines s' ! thread_id (cell s a)) = Some a"
      using prep wait st by (cases "thread_id (cell s a) = t"; auto simp: flag_stored_def)+
    have "trx_node_table (memo s') (thread_id (cell s a)) \<noteq> None"
    proof -
      have "trx_node_table (memo s') u = None \<longleftrightarrow> trx_node_table (memo s) u = None" for u
      proof -
        have "map_option (\<lambda>x. (trx_lock_deque x, conflict_lock x, trx_thread_id x)) (trx_node_table (memo s') u)
          = map_option (\<lambda>x. (trx_lock_deque x, conflict_lock x, trx_thread_id x)) (trx_node_table (memo s) u)"
          using st unfolding flag_stored_def by blast
        then show ?thesis by (cases "trx_node_table (memo s) u"; cases "trx_node_table (memo s') u") simp_all
      qed
      then show ?thesis using old by simp
    qed
    moreover have "a \<notin> set (order s (record_id (cell s a))) \<longrightarrow> next_lock (cell s' a) = None"
    proof (cases "a = c")
      case True
      then show ?thesis using nth_mem [OF last_place_less [OF lc(1)]] last_place_nth [OF lc(1)] cr(2) by simp
    qed (use old in \<open>simp add: cell(1)\<close>)
    moreover have "a \<in> fresh s \<longrightarrow> lock_id_on_record (cell s' a) = no_id" using old lc(2) by (auto simp: cell(1))
    moreover have "n_threads (base s') = n_threads (base s)" using st by (simp add: flag_stored_def)
    ultimately show ?thesis
      using old f unfolding cell_good_def Let_def cell(3,4,6) o by auto
  qed
  moreover have "nodes_good s'"
    unfolding nodes_good_def
  proof (intro allI impI)
    fix u y assume y: "trx_node_table (memo s') u = Some y"
    have "map_option (\<lambda>x. (trx_lock_deque x, conflict_lock x, trx_thread_id x)) (trx_node_table (memo s) u)
      = Some (trx_lock_deque y, conflict_lock y, trx_thread_id y)"
    proof -
      have "map_option (\<lambda>x. (trx_lock_deque x, conflict_lock x, trx_thread_id x)) (trx_node_table (memo s') u)
        = map_option (\<lambda>x. (trx_lock_deque x, conflict_lock x, trx_thread_id x)) (trx_node_table (memo s) u)"
        using st unfolding flag_stored_def by blast
      then show ?thesis using y by simp
    qed
    then obtain x where "trx_node_table (memo s) u = Some x" "conflict_lock x = conflict_lock y" "trx_thread_id x = trx_thread_id y"
      by auto
    then show "trx_thread_id y = u \<and> (\<forall>c. conflict_lock y = Some c \<longrightarrow> c < cells s' \<and> has_head s' (record_id (cell s' c)))"
      using parts(5) by (auto simp: nodes_good_def cell(2,3,11))
  qed
  moreover have "saved_good s'" using parts(6) st by (simp add: saved_good_def cell(2,3,4)) (simp add: flag_stored_def)
  ultimately show ?thesis using tab st cell(2) unfolding table_good_def by (simp add: flag_stored_def) blast
qed

section \<open>The frame of a store\<close>

lemma store_frame:
  assumes tab: "table_good s" and st: "flag_stored t c l' f s s'" and fit: "store_fits s r c k l'"
    and mono: "thread_id (cell s c) \<noteq> t \<Longrightarrow> lock_id_on_record l' = lock_id_on_record (cell s c)
      \<and> (id_pass_flag (cell s c) \<longrightarrow> id_pass_flag l') \<and> (head_pass_flag (cell s c) \<longrightarrow> head_pass_flag l')
      \<and> (signal_flag (cell s c) \<longrightarrow> signal_flag l')"
    and pass: "\<not> id_pass_flag (cell s c) \<Longrightarrow> id_pass_flag l' \<Longrightarrow> thread_id (cell s (order s r ! Suc k)) = t"
    and head: "\<not> head_pass_flag (cell s c) \<Longrightarrow> head_pass_flag l' \<Longrightarrow> head_mutex s r = Some t"
    and cond: "\<And>u x y. u \<noteq> t \<Longrightarrow> trx_node_table (memo s) u = Some x \<Longrightarrow> trx_node_table (memo s') u = Some y \<Longrightarrow>
      cond x = cond_at s (fines s ! u) \<Longrightarrow>
      (\<forall>a. fines s ! u = In_acquire (Aq_sleep a) \<longrightarrow> a < cells s \<and> thread_id (cell s a) = u) \<Longrightarrow>
      cond y = cond_at s' (fines s ! u)"
  shows "framed t s s'"
proof -
  have c: "placed s r c k" using fit by (simp add: store_fits_def Let_def)
  then have lc: "last_place (order s r) c k" "c \<notin> fresh s" by (simp_all add: placed_def)
  have cr: "c < cells s" "record_id (cell s c) = r" using last_place_cell [OF tab lc(1)] by simp_all
  note cell = flag_stored_cell [OF st cr(1)]
  have o: "order s' = order s" "passed s' = passed s" "fresh s' = fresh s" "lock_table (memo s') = lock_table (memo s)"
    "head_mutex s' = head_mutex s" using st by (simp_all add: flag_stored_def)
  have id: "lock_id_on_record (cell s c) \<noteq> no_id \<Longrightarrow> lock_id_on_record l' = lock_id_on_record (cell s c)"
    using fit by (auto simp: store_fits_def Let_def)
  have l': "mode l' = mode (cell s c)" "state l' = state (cell s c)" "diff l' = diff (cell s c)"
    using st by (simp_all add: flag_stored_def Let_def)
  have "cell_kept t s s' a" if "a < cells s" for a
  proof (cases "a = c")
    case True
    have k: "\<not> id_pass_flag (cell s c) \<and> id_pass_flag l' \<longrightarrow>
        (\<forall>n. last_place (order s r) c n \<longrightarrow> thread_id (cell s (order s r ! Suc n)) = t)"
      using last_place_unique lc(1) pass by blast
    have "own_kept s s' c" using lc(2) id l' by (simp add: own_kept_def o cell(1))
    moreover have "thread_id (cell s c) \<noteq> t \<Longrightarrow> other_kept s s' c" using mono lc(2) l' by (simp add: other_kept_def o cell(1))
    ultimately show ?thesis using True head k cell(3,4) [of c] cr(2) by (simp add: cell_kept_def Let_def cell(1))
  next
    case False
    then show ?thesis by (simp add: cell_kept_def own_kept_def other_kept_def Let_def cell(1) o)
  qed
  moreover have "record_kept t s s' r'" for r' by (simp add: record_kept_def o cell(11))
  moreover have tables: "map_option (\<lambda>x. (trx_lock_deque x, conflict_lock x, trx_thread_id x)) (trx_node_table (memo s') u)
      = map_option (\<lambda>x. (trx_lock_deque x, conflict_lock x, trx_thread_id x)) (trx_node_table (memo s) u)" for u
    using st unfolding flag_stored_def by blast
  moreover have "node_kept s s' u" if u: "u \<noteq> t" for u
  proof (cases "trx_node_table (memo s) u")
    case None
    then show ?thesis using tables [of u] st u by (auto simp: node_kept_def flag_stored_def)
  next
    case (Some x)
    then obtain y where y: "trx_node_table (memo s') u = Some y" "trx_lock_deque y = trx_lock_deque x" "conflict_lock y = conflict_lock x"
      using tables [of u] by (cases "trx_node_table (memo s') u") auto
    then show ?thesis using Some cond [OF u Some y(1)] st u by (simp add: node_kept_def flag_stored_def)
  qed
  moreover have "trx_node_table (memo s') u \<noteq> None" if "trx_node_table (memo s) u \<noteq> None" for u
    using tables [of u] that by auto
  ultimately show ?thesis using tab st cell(2) by (simp add: framed_def others_kept_def flag_stored_def)
qed

end
