(* ===== verification/LfLink.thy ===== *)
theory LfLink
  imports LfStore
begin

text \<open>
  The steps of \<open>AcquireLock\<close> that insert the lock: the exchange of the tail gives it its
  position, then it is linked from the lock before it, waits for that lock's id, takes the
  next id and says so; the first lock of a record takes id 0 and becomes the head.
\<close>

section \<open>Records a step leaves alone\<close>

lemma record_cong:
  assumes tab: "table_good s" and o: "order s' r = order s r" "passed s' r = passed s r"
      "lock_table (memo s') r = lock_table (memo s) r" "cells s \<le> cells s'"
    and c: "\<And>x. x \<in> set (order s r) \<Longrightarrow> cell s' x = cell s x \<and> (x \<in> fresh s' \<longleftrightarrow> x \<in> fresh s)"
  shows "record_good s' r"
proof -
  have old: "record_good s r" using tab by (simp add: table_good_def)
  have nth: "cell s' (order s r ! k) = cell s (order s r ! k) \<and> (order s r ! k \<in> fresh s' \<longleftrightarrow> order s r ! k \<in> fresh s)"
    if "k < length (order s r)" for k using c that nth_mem by blast
  have pl: "placed s' r x k \<longleftrightarrow> placed s r x k" for x k
    using nth [of k] last_place_less last_place_nth by (auto simp: placed_def o)
  have pr: "present s' r k \<longleftrightarrow> present s r k" for k
    using nth [of k] last_place_less by (auto simp: present_def o)
  have go: "gone s' r k \<longleftrightarrow> gone s r k" for k
    using nth [of k] last_place_less by (auto simp: gone_def pr o) (auto simp: present_def)
  have cell: "cell s' x = cell s x" if "last_place (order s r) x k" for x k
    using nth [OF last_place_less [OF that]] last_place_nth [OF that] by simp
  have clear: "clear_to s' r k \<longleftrightarrow> clear_to s r k" if "k < length (order s r)" for k
    using nth that by (auto simp: clear_to_def passable_def shared_at_def go o)
  have "\<forall>x \<in> set (order s r). x < cells s' \<and> record_id (cell s' x) = r"
    using old c less_le_trans [OF _ o(4)] by (simp add: record_good_def order_good_def)
  then have "order_good s' r"
    using old nth by (simp add: record_good_def order_good_def o(1,2) go pr)
  moreover have "links_good s' r" using old cell by (simp add: record_good_def links_good_def o)
  moreover have "ids_good s' r"
  proof -
    have "cell s' x = cell s x" if "placed s r x k" for x k using cell [of x k] that by (simp add: placed_def)
    moreover have "ids_good s r" using old by (simp add: record_good_def)
    ultimately show ?thesis unfolding ids_good_def pl by (simp cong: conj_cong) (metis (no_types, lifting))
  qed
  moreover have "signals_good s' r"
    unfolding signals_good_def pl
  proof (intro allI impI)
    fix x k assume x: "placed s r x k \<and> signal_flag (cell s' x)"
    then have l: "last_place (order s r) x k" by (simp add: placed_def)
    then have "signal_flag (cell s x)" using x cell [OF l] by simp
    then have "clear_to s r k" using x old by (auto simp: record_good_def signals_good_def)
    then show "clear_to s' r k" using clear [OF last_place_less [OF l]] by simp
  qed
  moreover have "passes_good s' r"
    unfolding passes_good_def pl o
  proof (intro allI impI)
    fix x k assume x: "placed s r x k \<and> id_pass_flag (cell s' x)"
    then have "id_pass_flag (cell s x)" using cell [of x k] by (simp add: placed_def)
    then show "Suc k < length (order s r)" using x old by (auto simp: record_good_def passes_good_def)
  qed
  moreover have "case lock_table (memo s') r of None \<Rightarrow> order s' r = [] | Some node \<Rightarrow> queue_good s' r node"
    using old by (cases "lock_table (memo s) r") (auto simp: record_good_def o queue_good_def split: option.splits)
  ultimately show ?thesis by (simp add: record_good_def)
qed

section \<open>The exchange of the tail\<close>

definition exchanged :: "nat \<Rightarrow> nat \<Rightarrow> nat \<Rightarrow> fine \<Rightarrow> lf_sys \<Rightarrow> lf_sys \<Rightarrow> bool" where
  "exchanged t r a f s s' \<longleftrightarrow>
     order s' = (order s)(r := order s r @ [a]) \<and> fresh s' = fresh s - {a} \<and> passed s' = passed s
     \<and> head_mutex s' = head_mutex s
     \<and> memo s' = upd_node r (\<lambda>n. n\<lparr>tail := Some a\<rparr>) (memo s)
     \<and> fines s' = (fines s)[t := f] \<and> tpcs (base s') = tpcs (base s) \<and> locs (base s') = locs (base s)"

lemma exchanged_frame:
  assumes tab: "table_good s" and st: "exchanged t r a f s s'" and a: "own s t r a" "a \<in> fresh s"
  shows "framed t s s'"
proof -
  have cell: "cell s' b = cell s b" "cells s' = cells s" for b using st by (simp_all add: exchanged_def)
  have head: "has_head s' r' \<longleftrightarrow> has_head s r'" for r'
    using st by (auto simp: has_head_def exchanged_def)
  have tabs: "lock_table (memo s') r' = None \<longleftrightarrow> lock_table (memo s) r' = None" for r'
    using st by (simp add: exchanged_def)
  have trx: "trx_node_table (memo s') = trx_node_table (memo s)" using st by (simp add: exchanged_def)
  have "cell_kept t s s' b" if "b < cells s" for b
    using a st by (auto simp: cell_kept_def own_kept_def other_kept_def Let_def cell exchanged_def own_def)
  moreover have "record_kept t s s' r'" for r'
    using a st by (auto simp: record_kept_def head tabs exchanged_def own_def)
  moreover have "node_kept s s' u" if "u \<noteq> t" for u
  proof -
    have "cond_at s' f = cond_at s f" for f by (cases "(s, f)" rule: cond_at.cases) (simp_all add: cell)
    then show ?thesis using st that by (auto simp: node_kept_def trx exchanged_def split: option.splits)
  qed
  ultimately show ?thesis using tab st by (simp add: framed_def others_kept_def cell trx) (simp add: exchanged_def)
qed

lemma exchanged_record:
  assumes tab: "table_good s" and st: "exchanged t r a f s s'" and a: "own s t r a" "renewed s a n_renewals"
  shows "record_good s' r"
proof -
  have af: "a \<in> fresh s" "next_lock (cell s a) = None" "\<not> head_pass_flag (cell s a)" "\<not> signal_flag (cell s a)"
    using a(2) by (simp_all add: renewed_def n_renewals_def)
  note fr = exchanged_frame [OF tab st a(1) af(1)] and parts = table_parts [OF tab]
  have cell: "cell s' b = cell s b" "cells s' = cells s" for b using st by (simp_all add: exchanged_def)
  have o: "order s' r = order s r @ [a]" "passed s' r = passed s r" "fresh s' = fresh s - {a}"
    using st by (simp_all add: exchanged_def)
  have ida: "lock_id_on_record (cell s a) = no_id"
    using parts(7) [of a] a(1) af(1) by (simp add: own_def cell_good_def Let_def)
  have pl: "placed s' r x n \<longleftrightarrow> (if x = a then n = length (order s r) else placed s r x n)" for x n
    by (simp add: placed_def o last_place_snoc)
  have "present s' r n \<and> \<not> head_pass_flag (cell s' (order s' r ! n))" if n: "n < length (order s' r)" "passed s r \<le> n" for n
  proof (cases "n < length (order s r)")
    case True
    then have p: "present s r n" "\<not> head_pass_flag (cell s (order s r ! n))"
      using parts(1) [of r] n(2) by (simp_all add: order_good_def)
    then have "order s r ! n \<noteq> a" using af(1) by (auto simp: present_def)
    then show ?thesis using p True by (simp add: present_def o last_place_snoc nth_append cell)
  next
    case False
    then have "n = length (order s r)" using n(1) by (simp add: o)
    then show ?thesis using af(3) by (simp add: present_def o last_place_snoc nth_append cell)
  qed
  moreover have "gone s' r n" if "n < passed s r" for n
  proof (cases "n < length (order s r)")
    case True
    then show ?thesis using gone_stays [OF fr _ True] parts(1) [of r] that by (simp add: order_good_def)
  next
    case False
    then obtain node where node: "lock_table (memo s) r = Some node"
      using parts(7) [of a] a(1) by (auto simp: own_def cell_good_def Let_def)
    then have "passed s r < length (order s r) \<or> passed s r = 0"
      using parts(8) [OF node] by (auto simp: queue_good_def split: option.splits)
    then show ?thesis using that False by linarith
  qed
  moreover have "\<forall>b \<in> set (order s' r). b < cells s' \<and> record_id (cell s' b) = r"
    using parts(1) [of r] a(1) by (auto simp: order_good_def own_def o cell)
  ultimately have "order_good s' r" by (simp add: order_good_def o(2))
  moreover have "links_good s' r"
    unfolding links_good_def
  proof (intro allI impI)
    fix x n assume x: "last_place (order s' r) x n"
    show "next_lock (cell s' x) = None \<or> Suc n < length (order s' r) \<and> next_lock (cell s' x) = Some (order s' r ! Suc n)"
    proof (cases "x = a")
      case False
      then have "last_place (order s r) x n" using x by (simp add: o last_place_snoc)
      then show ?thesis using parts(2) [of r, unfolded links_good_def, rule_format, of x n]
        by (auto simp: o nth_append cell)
    qed (simp add: cell af)
  qed
  moreover have "ids_good s' r"
  proof -
    note old = parts(3) [of r, unfolded ids_good_def]
    have "lock_id_on_record (cell s' x) \<in> {no_id, of_nat n}" if "placed s' r x n" for x n
    proof (cases "x = a")
      case False
      then have "placed s r x n" using that by (simp add: pl)
      then show ?thesis using old unfolding cell(1) by blast
    qed (simp add: cell ida)
    moreover have "lock_id_on_record (cell s' x) \<noteq> no_id"
      if p: "j < n" "placed s' r x j" "placed s' r y n" "lock_id_on_record (cell s' y) \<noteq> no_id" for j n x y
    proof -
      have y: "y \<noteq> a" "placed s r y n" using p(3,4) ida by (auto simp: pl cell split: if_splits)
      then have "n < length (order s r)" using last_place_less by (auto simp: placed_def)
      then have "placed s r x j" using p(1,2) by (auto simp: pl split: if_splits)
      then show ?thesis using old p(1,4) y unfolding cell(1) by blast
    qed
    ultimately show ?thesis unfolding ids_good_def by blast
  qed
  moreover have "signals_good s' r"
    unfolding signals_good_def
  proof (intro allI impI)
    fix x n assume x: "placed s' r x n \<and> signal_flag (cell s' x)"
    then have p: "placed s r x n" "signal_flag (cell s x)" using af(4) by (auto simp: pl cell split: if_splits)
    then have n: "n < length (order s r)" using last_place_less by (auto simp: placed_def)
    then have "passable s r q (mode (cell s (order s r ! n)))" if "q < n" for q
      using parts(4) [of r] p that by (auto simp: signals_good_def clear_to_def)
    then show "clear_to s' r n"
      using passable_stays [OF fr] n by (auto simp: clear_to_def o nth_append cell)
  qed
  moreover have "passes_good s' r"
    unfolding passes_good_def
  proof (intro allI impI)
    fix x n assume x: "placed s' r x n \<and> id_pass_flag (cell s' x)"
    then have "x \<noteq> a" using a(2) by (auto simp: cell renewed_def n_renewals_def)
    then have "Suc n < length (order s r)" using parts(13) [of r] x by (auto simp: passes_good_def pl cell)
    then show "Suc n < length (order s' r)" by (simp add: o)
  qed
  moreover have "case lock_table (memo s') r of None \<Rightarrow> order s' r = [] | Some node \<Rightarrow> queue_good s' r node"
  proof -
    obtain node where node: "lock_table (memo s) r = Some node"
      using parts(7) [of a] a(1) by (auto simp: own_def cell_good_def Let_def)
    then show ?thesis using parts(8) [OF node] st
      by (auto simp: exchanged_def queue_good_def o nth_append split: option.splits)
  qed
  ultimately show ?thesis by (simp add: record_good_def)
qed

lemma exchanged_table:
  assumes tab: "table_good s" and st: "exchanged t r a f s s'" and a: "own s t r a" "renewed s a n_renewals"
    and f: "prepared (fines s ! t) = Some a" "waits_with (fines s ! t) = None"
  shows "table_good s'"
proof -
  have af: "a \<in> fresh s" using a(2) by (simp add: renewed_def)
  note parts = table_parts [OF tab]
  have cell: "cell s' b = cell s b" "cells s' = cells s" for b using st by (simp_all add: exchanged_def)
  have tabs: "lock_table (memo s') r' = None \<longleftrightarrow> lock_table (memo s) r' = None" for r'
    using st by (simp add: exchanged_def)
  have head: "has_head s' r' \<longleftrightarrow> has_head s r'" for r' using st by (auto simp: has_head_def exchanged_def)
  have same: "trx_node_table (memo s') = trx_node_table (memo s)" "lock_saved_vectors (memo s') = lock_saved_vectors (memo s)"
    "n_threads (base s') = n_threads (base s)" using st by (simp_all add: exchanged_def)
  have "record_good s' r'" for r'
  proof (cases "r' = r")
    case False
    have "x \<noteq> a" if "x \<in> set (order s r')" for x
      using parts(1) [of r'] a(1) that False by (auto simp: order_good_def own_def)
    then show ?thesis using False st by (intro record_cong [OF tab]) (auto simp: exchanged_def)
  qed (use exchanged_record [OF tab st a] in simp)
  moreover have "cell_good s' b" if b: "b < cells s" for b
  proof -
    note old = parts(7) [OF b, unfolded cell_good_def Let_def]
    have in_order: "b \<in> set (order s' (record_id (cell s b))) \<longleftrightarrow> b = a \<or> b \<in> set (order s (record_id (cell s b)))"
      using st a(1) by (auto simp: exchanged_def own_def)
    have fresh: "b \<in> fresh s' \<longleftrightarrow> b \<in> fresh s \<and> b \<noteq> a" using st by (auto simp: exchanged_def)
    have "b \<in> fresh s' \<longrightarrow> prepared (fines s' ! thread_id (cell s b)) = Some b"
      using old f(1) fresh st by (cases "thread_id (cell s b) = t") (auto simp: exchanged_def)
    moreover have "state (cell s b) = WAIT \<longrightarrow> waits_with (fines s' ! thread_id (cell s b)) = Some b"
      using old f(2) st by (cases "thread_id (cell s b) = t") (auto simp: exchanged_def)
    ultimately show ?thesis
      using old fresh unfolding cell_good_def Let_def cell in_order tabs same by blast
  qed
  moreover have "nodes_good s'" using parts(5) by (simp add: nodes_good_def cell head same)
  moreover have "saved_good s'" using parts(6) by (simp add: saved_good_def cell same)
  moreover have "fresh s' \<subseteq> {..<cells s'}" using parts(12) st by (auto simp: cell(2) exchanged_def)
  moreover have "length (fines s') = n_threads (base s')" "length (locs (base s')) = n_threads (base s')"
    "record_count (memo s') = record_count (memo s)"
    using parts(10,11) st by (simp_all add: exchanged_def upd_node_def)
  ultimately show ?thesis using tab by (simp add: table_good_def cell(2) tabs)
qed

section \<open>Storing the head\<close>

definition head_stored :: "nat \<Rightarrow> nat \<Rightarrow> nat \<Rightarrow> fine \<Rightarrow> lf_sys \<Rightarrow> lf_sys \<Rightarrow> bool" where
  "head_stored t r p f s s' \<longleftrightarrow>
     order s' = order s \<and> fresh s' = fresh s \<and> passed s' = (passed s)(r := p) \<and> head_mutex s' = head_mutex s
     \<and> memo s' = upd_node r (\<lambda>n. n\<lparr>head := Some (order s r ! p)\<rparr>) (memo s)
     \<and> fines s' = (fines s)[t := f] \<and> tpcs (base s') = tpcs (base s) \<and> locs (base s') = locs (base s)"

lemma head_stored_ok:
  assumes tab: "table_good s" and st: "head_stored t r p f s s'" and node: "lock_table (memo s) r \<noteq> None"
    and p: "p < length (order s r)" "passed s r \<le> p" "\<And>k. k < p \<Longrightarrow> gone s r k"
    and moved: "passed s r < p \<Longrightarrow> head_mutex s r = Some t"
    and first: "\<not> has_head s r \<Longrightarrow> thread_id (cell s (order s r ! 0)) = t"
    and f: "prepared (fines s ! t) = None" "waits_with (fines s ! t) = None"
  shows "framed t s s'" "table_good s'"
proof -
  note parts = table_parts [OF tab]
  have cell: "cell s' b = cell s b" "cells s' = cells s" for b using st by (simp_all add: head_stored_def)
  have o: "order s' = order s" "fresh s' = fresh s" "passed s' = (passed s)(r := p)" "head_mutex s' = head_mutex s"
    using st by (simp_all add: head_stored_def)
  have same: "trx_node_table (memo s') = trx_node_table (memo s)" "lock_saved_vectors (memo s') = lock_saved_vectors (memo s)"
    "n_threads (base s') = n_threads (base s)" "record_count (memo s') = record_count (memo s)"
    using st by (simp_all add: head_stored_def upd_node_def)
  have tabs: "lock_table (memo s') r' = None \<longleftrightarrow> lock_table (memo s) r' = None" for r'
    using st by (simp add: head_stored_def)
  have head: "has_head s' r' \<longleftrightarrow> r' = r \<or> has_head s r'" for r'
    using st node by (auto simp: has_head_def head_stored_def)
  have pred: "placed s' = placed s" "present s' = present s" "gone s' = gone s" "clear_to s' = clear_to s"
    by (simp_all add: fun_eq_iff placed_def present_def gone_def clear_to_def passable_def shared_at_def o cell)
  have "record_kept t s s' r'" for r'
    using p(1,2) moved first by (cases "r' = r") (auto simp: record_kept_def o head tabs le_less)
  moreover have "node_kept s s' u" if "u \<noteq> t" for u
  proof -
    have "cond_at s' f = cond_at s f" for f by (cases "(s, f)" rule: cond_at.cases) (simp_all add: cell)
    then show ?thesis using st that by (auto simp: node_kept_def same head_stored_def split: option.splits)
  qed
  moreover have "cell_kept t s s' b" for b by (simp add: cell_kept_def own_kept_def other_kept_def Let_def cell o)
  ultimately show "framed t s s'" using tab by (simp add: framed_def others_kept_def cell same)
  have "record_good s' r"
  proof -
    have old: "order_good s r" "links_good s r" "ids_good s r" "signals_good s r" "passes_good s r"
      using parts(1-4,13) by auto
    then have "order_good s' r" using p by (auto simp: order_good_def o pred cell)
    moreover have "links_good s' r" "ids_good s' r" "signals_good s' r" "passes_good s' r"
      using old by (simp_all add: passes_good_def links_good_def ids_good_def signals_good_def o pred cell)
    moreover have "case lock_table (memo s') r of None \<Rightarrow> order s' r = [] | Some node \<Rightarrow> queue_good s' r node"
      using node parts(8) [of r] p(1) st by (auto simp: head_stored_def queue_good_def o)
    ultimately show ?thesis by (simp add: record_good_def)
  qed
  moreover have "record_good s' r'" if "r' \<noteq> r" for r'
    by (rule record_cong [OF tab]) (use that st cell o in \<open>simp_all add: head_stored_def\<close>)
  ultimately have "record_good s' r'" for r' by (cases "r' = r") simp_all
  moreover have "cell_good s' b" if b: "b < cells s" for b
  proof -
    note old = parts(7) [OF b, unfolded cell_good_def Let_def]
    have "prepared (fines s ! thread_id (cell s b)) = Some b \<longrightarrow> prepared (fines s' ! thread_id (cell s b)) = Some b"
      "waits_with (fines s ! thread_id (cell s b)) = Some b \<longrightarrow> waits_with (fines s' ! thread_id (cell s b)) = Some b"
      using f st by (cases "thread_id (cell s b) = t"; auto simp: head_stored_def)+
    then show ?thesis using old unfolding cell_good_def Let_def cell o tabs same by blast
  qed
  moreover have "nodes_good s'" using parts(5) by (auto simp: nodes_good_def cell head same)
  moreover have "saved_good s'" using parts(6) by (simp add: saved_good_def cell same)
  moreover have "fresh s' \<subseteq> {..<cells s'}" using parts(12) by (auto simp: cell(2) o)
  moreover have "length (fines s') = n_threads (base s')" "length (locs (base s')) = n_threads (base s')"
    using parts(10,11) st by (simp_all add: head_stored_def)
  ultimately show "table_good s'" using tab by (simp add: table_good_def cell(2) tabs same)
qed

section \<open>The steps\<close>

text \<open>A step after which the thread is still linking, its lock's holder data untouched.\<close>

lemma linked_thread:
  assumes good: "lf_good s" and t: "t < n_threads (base s)" and f: "fines s ! t = In_acquire p"
    and acq: "acquiring s t p st ds x" "lock_fits s t st p"
    and fr: "framed t s s'" and tab': "table_good s'"
    and cells: "\<And>b. b < cells s \<Longrightarrow> record_id (cell s b) \<noteq> stage_record st (locs (base s) ! t) \<Longrightarrow>
      cell s' b = cell s b \<and> (b \<in> fresh s' \<longleftrightarrow> b \<in> fresh s)"
    and base: "tpcs (base s') = tpcs (base s)" "locs (base s') = locs (base s)" "fines s' = (fines s)[t := In_acquire p']"
    and node: "trx_node_table (memo s') = trx_node_table (memo s)"
    and p: "acq_lock p' = acq_lock p" "conflict_at (In_acquire p') = conflict_at (In_acquire p)"
      "cond_at s' (In_acquire p') = No_waiter" "cond_at s (In_acquire p) = No_waiter"
      "\<And>a. acq_lock p = Some a \<Longrightarrow> acq_state p' a = acq_state p a \<and> mode (cell s' a) = mode (cell s a)
        \<and> state (cell s' a) = state (cell s a)"
    and q: "acq_good s' t (stage_record st (locs (base s) ! t)) p'"
  shows "lf_good s'"
proof -
  note tab = lf_good_parts(1) [OF good]
  have f': "fines s' ! t = In_acquire p'" using base(3) t table_parts(10) [OF tab] by simp
  have "acquiring s' t p' st ds x"
    by (rule acquiring_kept [OF acq(1) fr _ _ cells]) (use acq(1) base node p in \<open>simp_all add: acquiring_def\<close>)
  moreover have "lock_fits s' t st p'"
    using acq(2) p(1,5) own_stays [OF fr] base(2) by (simp add: lock_fits_def)
  ultimately have "thread_good s' t" using q unfolding thread_good_acquire [OF f'] base(2) by blast
  then show ?thesis by (rule lf_good_step [OF good fr tab'])
qed

text \<open>A store into the new lock or the one before it.\<close>

lemma flag_linked:
  assumes good: "lf_good s" and t: "t < n_threads (base s)" and f: "fines s ! t = In_acquire p"
    and acq: "acquiring s t p st ds x" "lock_fits s t st p"
    and stored: "flag_stored t c l' (In_acquire p') s s'" and node: "trx_node_table (memo s') = trx_node_table (memo s)"
    and fit: "store_fits s (stage_record st (locs (base s) ! t)) c k l'"
    and flags: "signal_flag l' = signal_flag (cell s c)" "head_pass_flag l' = head_pass_flag (cell s c)"
      "id_pass_flag (cell s c) \<longrightarrow> id_pass_flag l'"
    and id: "thread_id (cell s c) \<noteq> t \<Longrightarrow> lock_id_on_record l' = lock_id_on_record (cell s c)"
    and pass: "\<not> id_pass_flag (cell s c) \<Longrightarrow> id_pass_flag l' \<Longrightarrow>
      thread_id (cell s (order s (stage_record st (locs (base s) ! t)) ! Suc k)) = t"
    and p: "acq_lock p' = acq_lock p" "conflict_at (In_acquire p') = conflict_at (In_acquire p)"
      "\<And>s. cond_at s (In_acquire p') = No_waiter" "\<And>s. cond_at s (In_acquire p) = No_waiter"
      "\<And>a. acq_lock p = Some a \<Longrightarrow> acq_state p' a = acq_state p a"
      "prepared (In_acquire p) = None" "waits_with (In_acquire p) = None"
    and q: "acq_good s' t (stage_record st (locs (base s) ! t)) p'"
  shows "lf_good s'"
proof -
  let ?r = "stage_record st (locs (base s) ! t)"
  note tab = lf_good_parts(1) [OF good]
  have c: "c < cells s" "record_id (cell s c) = ?r"
    using fit last_place_cell [OF tab, of ?r c k] by (auto simp: store_fits_def placed_def Let_def)
  note cell = flag_stored_cell [OF stored c(1)]
  have cond: "cond_at s' g = cond_at s g" for g
    by (cases "(s, g)" rule: cond_at.cases) (simp_all add: cell(1) flags(1))
  have fr: "framed t s s'"
    by (rule store_frame [OF tab stored fit]) (use flags id pass cond node in auto)
  have tab': "table_good s'" by (rule store_table [OF tab stored fit]) (use f p(6,7) in simp_all)
  show ?thesis
  proof (rule linked_thread [OF good t f acq fr tab'])
    show "cell s' b = cell s b \<and> (b \<in> fresh s' \<longleftrightarrow> b \<in> fresh s)" if "record_id (cell s b) \<noteq> ?r" for b
      using that c(2) cell(1) stored by (auto simp: flag_stored_def)
    show "acq_state p' a = acq_state p a \<and> mode (cell s' a) = mode (cell s a) \<and> state (cell s' a) = state (cell s a)"
      if "acq_lock p = Some a" for a using that p(5) cell(5,6) by simp
  qed (use stored node p q in \<open>simp_all add: flag_stored_def\<close>)
qed

lemma lf_acquire_step_link:
  assumes "phase_of p = Linking" and "\<forall>a. p \<noteq> Aq_tail a" and "fresh_lock q = {}"
    and "link_step t (stage_record st (locs (base s) ! t)) p (memo s) = Inr (q, m)"
  shows "lf_acquire_step t st p s = Inr (resume_at t (In_acquire q) ((base s)\<lparr>mem := m\<rparr>) s)"
proof -
  have "note_insertion r p (Aq_on q) s = s" for r
    using assms(2,3) by (cases p) (simp_all add: note_insertion_def)
  then show ?thesis using assms(1,4) by (simp add: lf_acquire_step_def AcquireLock_access_def Let_def)
qed

text \<open>The world after a store by \<open>upd_lock\<close>.\<close>

lemma upd_lock_stored:
  assumes "c < cells s" and "record_id (g (cell s c)) = record_id (cell s c) \<and> thread_id (g (cell s c)) = thread_id (cell s c)
    \<and> mode (g (cell s c)) = mode (cell s c) \<and> state (g (cell s c)) = state (cell s c) \<and> diff (g (cell s c)) = diff (cell s c)"
  shows "flag_stored t c (g (cell s c)) f s (resume_at t f ((base s)\<lparr>mem := upd_lock c g (memo s)\<rparr>) s)"
    "trx_node_table (memo (resume_at t f ((base s)\<lparr>mem := upd_lock c g (memo s)\<rparr>) s)) = trx_node_table (memo s)"
  using assms by (simp_all add: flag_stored_def resume_at_def Let_def)

lemma behind_parts:
  assumes tab: "table_good s" and b: "behind s r a b"
  obtains k where "placed s r a (Suc k)" "placed s r b k" "\<not> id_pass_flag (cell s b)" "a \<noteq> b" "a < cells s" "b < cells s"
    "Suc k < length (order s r)" "order s r ! Suc k = a"
proof -
  obtain k where k: "placed s r a (Suc k)" "placed s r b k" "\<not> id_pass_flag (cell s b)" using b by (auto simp: behind_def)
  then have l: "last_place (order s r) a (Suc k)" "last_place (order s r) b k" by (simp_all add: placed_def)
  then have "a \<noteq> b" using last_place_unique n_not_Suc_n by metis
  then show ?thesis using that k l last_place_cell(1) [OF tab] last_place_less [OF l(1)] last_place_nth [OF l(1)] by blast
qed

lemma linking_step_ok:
  assumes good: "lf_good s" and ids: "ids_left s" and t: "t < n_threads (base s)" and f: "fines s ! t = In_acquire p"
    and acq: "acquiring s t p st ds x" "acq_good s t (stage_record st (locs (base s) ! t)) p" "lock_fits s t st p"
    and ph: "phase_of p = Linking"
  shows "\<exists>s'. lf_acquire_step t st p s = Inr s' \<and> lf_good s'"
proof -
  let ?r = "stage_record st (locs (base s) ! t)"
  note tab = lf_good_parts(1) [OF good]
  note parts = table_parts [OF tab]
  have x: "trx_node_table (memo s) t = Some x" "conflict_lock x = conflict_at (In_acquire p)" using acq(1) by (simp_all add: acquiring_def)
  have own: "own s t ?r a" "a < cells s" "thread_id (cell s a) = t" if "acq_lock p = Some a" for a
    using acq(3) that by (auto simp: lock_fits_def own_def)
  have "records_ok (memo s) (locs (base s) ! t)" using acq(1) by (simp add: acquiring_def)
  then obtain node where node: "lock_table (memo s) ?r = Some node"
    by (cases st) (auto simp: records_ok_def wanted_def)
  note linked = flag_linked [OF good t f acq(1,3)]
  show ?thesis
  proof (cases p)
    case (Aq_tail a)
    define q where "q = (case tail node of None \<Rightarrow> Aq_first_id a | Some b \<Rightarrow> Aq_connect a b)"
    define s' where "s' = resume_at t (In_acquire q) ((base s)\<lparr>mem := upd_node ?r (\<lambda>n. n\<lparr>tail := Some a\<rparr>) (memo s)\<rparr>)
      (s\<lparr>order := (order s)(?r := order s ?r @ [a]), fresh := fresh s - {a}\<rparr>)"
    have a: "own s t ?r a" "renewed s a n_renewals" using own(1) acq(2) Aq_tail by simp_all
    have af: "a \<in> fresh s" using a(2) by (simp add: renewed_def)
    have step: "lf_acquire_step t st p s = Inr s'"
      using node Aq_tail by (simp add: lf_acquire_step_def AcquireLock_access_def link_step_def get_node_def note_insertion_def
          s'_def q_def Let_def)
    have ex: "exchanged t ?r a (In_acquire q) s s'" by (simp add: exchanged_def s'_def resume_at_def)
    note fr = exchanged_frame [OF tab ex a(1) af]
    have tab': "table_good s'" by (rule exchanged_table [OF tab ex a]) (use f Aq_tail in simp_all)
    have cell: "cell s' b = cell s b" for b using ex by (simp add: exchanged_def)
    have pl: "placed s' ?r a (length (order s ?r))" using ex by (simp add: exchanged_def placed_def last_place_snoc)
    have id: "lock_id_on_record (cell s a) = no_id" using parts(7) [of a] a(1) af by (simp add: own_def cell_good_def Let_def)
    have q: "acq_good s' t ?r q"
    proof (cases "order s ?r")
      case Nil
      then have "head node = None" "tail node = None"
        using parts(8) [OF node] by (auto simp: queue_good_def split: option.splits)
      then have "\<not> has_head s' ?r" using node ex by (simp add: has_head_def exchanged_def)
      then show ?thesis using pl Nil \<open>tail node = None\<close> by (simp add: q_def)
    next
      case (Cons y ys)
      let ?n = "length (order s ?r) - 1" and ?b = "last (order s ?r)"
      have n: "length (order s ?r) = Suc ?n" "?b = order s ?r ! ?n" using Cons by (simp_all add: last_conv_nth)
      have tl: "tail node = Some ?b" using parts(8) [OF node] Cons by (simp add: queue_good_def)
      have ps: "passed s ?r \<le> ?n" using parts(8) [OF node] n(1) by (auto simp: queue_good_def split: option.splits)
      then have b: "placed s ?r ?b ?n" using parts(1) [of ?r] n by (simp add: order_good_def present_def placed_def)
      then have ba: "?b \<noteq> a" using af by (auto simp: placed_def)
      then have "placed s' ?r ?b ?n" using b ex by (simp add: placed_def exchanged_def last_place_snoc)
      moreover have "\<not> id_pass_flag (cell s ?b)" using parts(13) [of ?r, unfolded passes_good_def, rule_format, of ?b ?n] b n(1) by auto
      ultimately show ?thesis using pl n tl id cell by (simp add: q_def behind_def) (metis n(1))
    qed
    have "lf_good s'"
      by (rule linked_thread [OF good t f acq(1,3) fr tab'])
         (use Aq_tail ex cell a(1) q in \<open>auto simp: exchanged_def q_def acq_state_def own_def split: option.splits\<close>)
    then show ?thesis using step by blast
  next
    case (Aq_connect a b)
    have beh: "behind s ?r a b" "lock_id_on_record (cell s a) = no_id" using acq(2) Aq_connect by simp_all
    from behind_parts [OF tab beh(1)] obtain k where k: "placed s ?r a (Suc k)" "placed s ?r b k" "\<not> id_pass_flag (cell s b)"
      "a \<noteq> b" "a < cells s" "b < cells s" "Suc k < length (order s ?r)" "order s ?r ! Suc k = a" .
    let ?g = "\<lambda>l. l\<lparr>next_lock := Some a\<rparr>"
    let ?s = "resume_at t (In_acquire (Aq_await a b)) ((base s)\<lparr>mem := upd_lock b ?g (memo s)\<rparr>) s"
    have stored: "flag_stored t b (?g (cell s b)) (In_acquire (Aq_await a b)) s ?s"
      "trx_node_table (memo ?s) = trx_node_table (memo s)" using upd_lock_stored [OF k(6)] by auto
    note cell = flag_stored_cell [OF stored(1) k(6)]
    have q: "acq_good ?s t ?r (Aq_await a b)" using beh k by (auto simp: behind_def cell(1,7))
    have "lf_good ?s"
      by (rule linked [OF stored, of k]) (use k q Aq_connect in \<open>simp_all add: store_fits_def acq_state_def\<close>)
    moreover have "lf_acquire_step t st p s = Inr ?s"
      by (rule lf_acquire_step_link) (use Aq_connect in \<open>simp_all add: link_step_def\<close>)
    ultimately show ?thesis by blast
  next
    case (Aq_await a b)
    let ?q = "if lock_id_on_record (cell s b) = no_id \<or> head node = None then Aq_await a b else Aq_id a b"
    have "lf_acquire_step t st p s = Inr (at_point t (In_acquire ?q) s)"
      by (rule lf_acquire_step_read) (use Aq_await node in \<open>simp_all add: AcquireLock_access_def link_step_def get_node_def\<close>)
    moreover have "lf_good (at_point t (In_acquire ?q) s)"
      by (rule point_step [OF good t f acq(1,3)]) (use Aq_await acq(2) node in \<open>simp_all add: has_head_def acq_state_def\<close>)
    ultimately show ?thesis by blast
  next
    case (Aq_id a b)
    have beh: "behind s ?r a b" "lock_id_on_record (cell s a) = no_id" "lock_id_on_record (cell s b) \<noteq> no_id" "has_head s ?r"
      using acq(2) Aq_id by simp_all
    from behind_parts [OF tab beh(1)] obtain k where k: "placed s ?r a (Suc k)" "placed s ?r b k" "\<not> id_pass_flag (cell s b)"
      "a \<noteq> b" "a < cells s" "b < cells s" "Suc k < length (order s ?r)" "order s ?r ! Suc k = a" .
    have idb: "lock_id_on_record (cell s b) = of_nat k" "\<And>j c. j < Suc k \<Longrightarrow> placed s ?r c j \<Longrightarrow> lock_id_on_record (cell s c) \<noteq> no_id"
    proof -
      show "lock_id_on_record (cell s b) = of_nat k" using parts(3) [of ?r] k(2) beh(3) by (auto simp: ids_good_def)
      fix j c assume j: "j < Suc k" "placed s ?r c j"
      show "lock_id_on_record (cell s c) \<noteq> no_id"
      proof (cases "j = k")
        case True
        then have "c = b" using j(2) k(2) by (simp add: placed_def last_place_def)
        then show ?thesis using beh(3) by simp
      next
        case False
        then have "j < k" using j(1) by simp
        then show ?thesis using parts(3) [of ?r, unfolded ids_good_def] j(2) k(2) beh(3) by blast
      qed
    qed
    let ?g = "\<lambda>l. l\<lparr>lock_id_on_record := lock_id_on_record (cell s b) + 1\<rparr>"
    let ?s = "resume_at t (In_acquire (Aq_pass a b)) ((base s)\<lparr>mem := upd_lock a ?g (memo s)\<rparr>) s"
    have stored: "flag_stored t a (?g (cell s a)) (In_acquire (Aq_pass a b)) s ?s"
      "trx_node_table (memo ?s) = trx_node_table (memo s)" using upd_lock_stored [OF k(5)] by auto
    note cell = flag_stored_cell [OF stored(1) k(5)]
    have num: "of_nat k + 1 = (of_nat (Suc k) :: u64)" by simp
    have "lock_id_on_record (cell ?s a) = lock_id_on_record (cell s b) + 1" unfolding cell(1) by simp
    then have "lock_id_on_record (cell ?s a) = of_nat (Suc k)" unfolding idb(1) num .
    then have "settled ?s ?r a (Suc k)" using k(1) beh(4) unfolding settled_def cell(7,11) by blast
    moreover have "behind ?s ?r a b" using k by (auto simp: behind_def cell(1,7))
    ultimately have q: "acq_good ?s t ?r (Aq_pass a b)" by auto
    have fit: "store_fits s ?r a (Suc k) (?g (cell s a))" using k(1) idb beh(2) num by (simp add: store_fits_def) blast
    have "lf_good ?s"
    proof (rule linked [OF stored fit])
      show "acq_good ?s t ?r (Aq_pass a b)" by (rule q)
    qed (use Aq_id own(3) in \<open>simp_all add: acq_state_def\<close>)
    moreover have "lf_acquire_step t st p s = Inr ?s"
      by (rule lf_acquire_step_link) (use Aq_id in \<open>simp_all add: link_step_def\<close>)
    ultimately show ?thesis by blast
  next
    case (Aq_pass a b)
    have beh: "behind s ?r a b" "\<exists>k. settled s ?r a k" using acq(2) Aq_pass by simp_all
    from behind_parts [OF tab beh(1)] obtain k where k: "placed s ?r a (Suc k)" "placed s ?r b k" "\<not> id_pass_flag (cell s b)"
      "a \<noteq> b" "a < cells s" "b < cells s" "Suc k < length (order s ?r)" "order s ?r ! Suc k = a" .
    let ?g = "\<lambda>l. l\<lparr>id_pass_flag := True\<rparr>"
    let ?s = "resume_at t (In_acquire (Aq_announce a)) ((base s)\<lparr>mem := upd_lock b ?g (memo s)\<rparr>) s"
    have stored: "flag_stored t b (?g (cell s b)) (In_acquire (Aq_announce a)) s ?s"
      "trx_node_table (memo ?s) = trx_node_table (memo s)" using upd_lock_stored [OF k(6)] by auto
    note cell = flag_stored_cell [OF stored(1) k(6)]
    obtain j where "settled s ?r a j" using beh(2) by blast
    then have "settled ?s ?r a j" using k(4) by (simp add: settled_def cell(1,7,11))
    then have q: "acq_good ?s t ?r (Aq_announce a)" by auto
    have "lf_good ?s"
      by (rule linked [OF stored, of k]) (use k q Aq_pass own(3) in \<open>simp_all add: store_fits_def acq_state_def\<close>)
    moreover have "lf_acquire_step t st p s = Inr ?s"
      by (rule lf_acquire_step_link) (use Aq_pass k(3) in \<open>simp_all add: link_step_def\<close>)
    ultimately show ?thesis by blast
  next
    case (Aq_first_id a)
    have a: "placed s ?r a 0" "\<not> has_head s ?r" using acq(2) Aq_first_id by simp_all
    have id: "lock_id_on_record (cell s a) \<in> {no_id, 0}" using parts(3) [of ?r] a(1) by (fastforce simp: ids_good_def)
    let ?g = "\<lambda>l. l\<lparr>lock_id_on_record := 0\<rparr>"
    let ?s = "resume_at t (In_acquire (Aq_first_head a)) ((base s)\<lparr>mem := upd_lock a ?g (memo s)\<rparr>) s"
    have "a < cells s" using own(2) Aq_first_id by simp
    then have stored: "flag_stored t a (?g (cell s a)) (In_acquire (Aq_first_head a)) s ?s"
      "trx_node_table (memo ?s) = trx_node_table (memo s)" using upd_lock_stored [of a] by auto
    note cell = flag_stored_cell [OF stored(1) \<open>a < cells s\<close>]
    have q: "acq_good ?s t ?r (Aq_first_head a)" using a by (simp add: cell(1,7,11))
    have "lf_good ?s"
      by (rule linked [OF stored, of 0]) (use a id q Aq_first_id own(3) in \<open>auto simp: store_fits_def acq_state_def\<close>)
    moreover have "lf_acquire_step t st p s = Inr ?s"
      by (rule lf_acquire_step_link) (use Aq_first_id in \<open>simp_all add: link_step_def\<close>)
    ultimately show ?thesis by blast
  next
    case (Aq_first_head a)
    have a: "placed s ?r a 0" "\<not> has_head s ?r" "lock_id_on_record (cell s a) = 0" using acq(2) Aq_first_head by simp_all
    have o: "0 < length (order s ?r)" "order s ?r ! 0 = a" using a(1) by (simp_all add: placed_def last_place_def)
    have ps: "passed s ?r = 0" using parts(8) [OF node] a(2) node by (auto simp: has_head_def queue_good_def)
    let ?s = "resume_at t (In_acquire (Aq_announce a)) ((base s)\<lparr>mem := upd_node ?r (\<lambda>n. n\<lparr>head := Some a\<rparr>) (memo s)\<rparr>) s"
    have st: "head_stored t ?r 0 (In_acquire (Aq_announce a)) s ?s" 
      using o fun_upd_idem [of "passed s" ?r 0] ps by (simp add: head_stored_def resume_at_def)
    note ok = head_stored_ok [OF tab st _ o(1)]
    have fr: "framed t s ?s" and tab': "table_good ?s"
      by (rule ok; use node ps own(3) o(2) f Aq_first_head in simp)+
    have "settled ?s ?r a 0" using a st node
      by (simp add: settled_def placed_def head_stored_def) (auto simp: has_head_def resume_at_def)
    then have "lf_good ?s"
      by (intro linked_thread [OF good t f acq(1,3) fr tab'])
         (use Aq_first_head in \<open>auto simp: resume_at_def acq_state_def\<close>)
    moreover have "lf_acquire_step t st p s = Inr ?s"
      by (rule lf_acquire_step_link) (use Aq_first_head node in \<open>simp_all add: link_step_def get_node_def\<close>)
    ultimately show ?thesis by blast
  next
    case (Aq_announce a)
    obtain k where k: "settled s ?r a k" using acq(2) Aq_announce by auto
    let ?y = "x\<lparr>conflict_lock := Some a\<rparr>"
    let ?s = "resume_at t (In_acquire (Aq_head a)) ((base s)\<lparr>mem := upd_trx t (\<lambda>x. x\<lparr>conflict_lock := Some a\<rparr>) (memo s)\<rparr>) s"
    have mem: "heap (memo ?s) = heap (memo s)" "lock_table (memo ?s) = lock_table (memo s)"
      "trx_node_table (memo ?s) = (trx_node_table (memo s))(t \<mapsto> ?y)"
      "lock_saved_vectors (memo ?s) = lock_saved_vectors (memo s)" "record_count (memo ?s) = record_count (memo s)"
      "order ?s = order s" "fresh ?s = fresh s" "passed ?s = passed s" "head_mutex ?s = head_mutex s"
      "fines ?s = (fines s)[t := In_acquire (Aq_head a)]" "tpcs (base ?s) = tpcs (base s)" "locs (base ?s) = locs (base s)"
      using x by (simp_all add: resume_at_def)
    have len: "t < length (fines s)" using t parts(10) by simp
    have loc: "local_step t s ?s"
    proof (rule local_none [OF tab])
      show "same_fields t s ?s"
        using mem by (auto simp: same_fields_def ends_of_def fun_eq_iff) (metis list_update_id)+
      show "node_fits t s (trx_node_table (memo ?s) t)"
        using parts(5) x own [of a] Aq_announce k by (auto simp: mem nodes_good_def node_fits_def own_def settled_def)
    qed (use mem f len Aq_announce in simp_all)
    have pred: "placed ?s = placed s" "has_head ?s = has_head s" by (simp_all add: fun_eq_iff placed_def has_head_def mem)
    have q: "acq_good ?s t ?r (Aq_head a)" using k mem by (auto simp: settled_def pred)
    have f': "fines ?s ! t = In_acquire (Aq_head a)" using mem len by simp
    have "acquiring ?s t (Aq_head a) st ds ?y"
      by (rule acquiring_kept [OF acq(1) local_frame [OF tab loc]])
         (use acq(1) mem Aq_announce in \<open>simp_all add: acquiring_def\<close>)
    moreover have "lock_fits ?s t st (Aq_head a)"
      using acq(3) Aq_announce mem by (simp add: lock_fits_def own_def acq_state_def)
    ultimately have "thread_good ?s t" using q mem unfolding thread_good_acquire [OF f'] by auto
    then have "lf_good ?s" by (rule lf_good_local [OF good loc])
    moreover have "lf_acquire_step t st p s = Inr ?s"
      by (rule lf_acquire_step_link) (use Aq_announce x in \<open>simp_all add: link_step_def trx_of_def\<close>)
    ultimately show ?thesis by blast
  qed (use ph in simp_all)
qed

end
