(* ===== verification/LfRelease.thy ===== *)
theory LfRelease
  imports LfLink
begin

text \<open>
  The steps of \<open>ReleaseLock\<close>. Only the thread that holds the head mutex of the record moves
  the head, past positions that are gone, and it signals a lock only when everything
  before it is gone or shared with it.
\<close>

section \<open>A thread inside ReleaseLock\<close>

definition releasing :: "lf_sys \<Rightarrow> nat \<Rightarrow> rel \<Rightarrow> trx_node \<Rightarrow> nat \<Rightarrow> bool" where
  "releasing s t p x n \<longleftrightarrow>
     (let pc = tpcs (base s) ! t; ds = trx_lock_deque x in
      trx_node_table (memo s) t = Some x \<and> conflict_lock x = None \<and> cond x = No_waiter
      \<and> records_ok (memo s) (locs (base s) ! t)
      \<and> ((\<exists>cid rs vs. pc = Releasing cid n rs vs) \<or> (\<exists>f. pc = Undo_release f n)) \<and> count_ok pc (length ds)
      \<and> (\<forall>k < length ds. (if p = Rl_state then n \<le> k else n < k) \<longrightarrow> slot_good s t ds k)
      \<and> own s t (fst (wanted (locs (base s) ! t) ! n)) (ds ! n) \<and> ds ! n \<notin> fresh s
      \<and> (p \<noteq> Rl_state \<longrightarrow> state (cell s (ds ! n)) = OBSOLETE))"

lemma thread_good_release:
  assumes "fines s ! t = In_release p"
  shows "thread_good s t \<longleftrightarrow> (\<exists>x n. releasing s t p x n \<and> rel_good s t (fst (wanted (locs (base s) ! t) ! n)) p)"
proof (cases "trx_node_table (memo s) t")
  case (Some x)
  let ?pc = "tpcs (base s) ! t" and ?len = "length (trx_lock_deque x)"
  have shape: "live_from ?pc ?len = n \<and> \<not> idle_pc ?pc"
    if "(\<exists>cid rs vs. ?pc = Releasing cid n rs vs) \<or> (\<exists>f. ?pc = Undo_release f n)" for n
    using that by (auto simp: idle_pc_def)
  have "thread_good s t \<longleftrightarrow> conflict_lock x = None \<and> cond x = No_waiter
      \<and> (\<not> idle_pc ?pc \<longrightarrow> records_ok (memo s) (locs (base s) ! t)) \<and> releasing_good s t x p"
    using assms Some by (simp add: thread_good_def)
  also have "\<dots> \<longleftrightarrow> (\<exists>n. releasing s t p x n \<and> rel_good s t (fst (wanted (locs (base s) ! t) ! n)) p)"
  proof
    assume l: "conflict_lock x = None \<and> cond x = No_waiter
      \<and> (\<not> idle_pc ?pc \<longrightarrow> records_ok (memo s) (locs (base s) ! t)) \<and> releasing_good s t x p"
    define n where "n = live_from ?pc ?len"
    have pc: "(\<exists>cid rs vs. ?pc = Releasing cid n rs vs) \<or> (\<exists>f. ?pc = Undo_release f n)"
      using l unfolding releasing_good_def Let_def n_def by blast
    have "releasing s t p x n \<and> rel_good s t (fst (wanted (locs (base s) ! t) ! n)) p"
      using l Some pc shape [OF pc] by (auto simp: releasing_good_def releasing_def own_def Let_def)
    then show "\<exists>n. releasing s t p x n \<and> rel_good s t (fst (wanted (locs (base s) ! t) ! n)) p" by blast
  next
    assume "\<exists>n. releasing s t p x n \<and> rel_good s t (fst (wanted (locs (base s) ! t) ! n)) p"
    then obtain n where n: "releasing s t p x n" "rel_good s t (fst (wanted (locs (base s) ! t) ! n)) p" by blast
    then have pc: "(\<exists>cid rs vs. ?pc = Releasing cid n rs vs) \<or> (\<exists>f. ?pc = Undo_release f n)"
      by (simp add: releasing_def Let_def)
    show "conflict_lock x = None \<and> cond x = No_waiter
      \<and> (\<not> idle_pc ?pc \<longrightarrow> records_ok (memo s) (locs (base s) ! t)) \<and> releasing_good s t x p"
      using n pc shape [OF pc] by (simp add: releasing_good_def releasing_def own_def Let_def)
  qed
  finally show ?thesis using Some by (auto simp: releasing_def Let_def)
qed (use assms in \<open>auto simp: thread_good_def releasing_def Let_def\<close>)

lemma releasing_count:
  assumes "releasing s t p x n"
  shows "n < length (trx_lock_deque x)" "length (trx_lock_deque x) \<le> 3"
  using assms by (auto simp: releasing_def Let_def)

lemma released_lock_eq:
  assumes "releasing s t p x n"
  shows "released_lock t (base s) = trx_lock_deque x ! n"
  using assms by (auto simp: releasing_def released_lock_def deque_def trx_of_def Let_def)

text \<open>The locks still to be released are others.\<close>

lemma later_lock:
  assumes rel: "releasing s t p x n" and k: "n < k" "k < length (trx_lock_deque x)"
  shows "trx_lock_deque x ! k \<noteq> trx_lock_deque x ! n"
proof -
  let ?w = "map fst (wanted (locs (base s) ! t))"
  have k3: "k < 3" using releasing_count(2) [OF rel] k(2) by simp
  have w: "length (wanted (locs (base s) ! t)) = 3" by (simp add: wanted_def)
  have "slot_good s t (trx_lock_deque x) k" using rel k by (simp add: releasing_def Let_def)
  then have "(record_id (cell s (trx_lock_deque x ! k)), mode (cell s (trx_lock_deque x ! k))) = wanted (locs (base s) ! t) ! k"
    by (simp add: slot_good_def)
  then have "record_id (cell s (trx_lock_deque x ! k)) = fst (wanted (locs (base s) ! t) ! k)" by (metis fst_conv)
  then have rk: "record_id (cell s (trx_lock_deque x ! k)) = ?w ! k" using k3 w by simp
  have rn: "record_id (cell s (trx_lock_deque x ! n)) = ?w ! n"
    using rel k(1) k3 w by (simp add: releasing_def own_def Let_def)
  have "distinct ?w" using rel by (simp add: releasing_def records_ok_def Let_def)
  then have "?w ! k \<noteq> ?w ! n" using nth_eq_iff_index_eq [of ?w k n] k(1) k3 w by simp
  then show ?thesis using rk rn by metis
qed

lemma releasing_kept:
  assumes rel: "releasing s t p x n" and fr: "framed t s s'" and p': "p' \<noteq> Rl_state"
    and pc: "tpcs (base s') ! t = tpcs (base s) ! t" "locs (base s') ! t = locs (base s) ! t"
    and others: "\<And>b. b < cells s \<Longrightarrow> thread_id (cell s b) = t \<Longrightarrow> b \<noteq> trx_lock_deque x ! n \<Longrightarrow>
      steady s s' b \<and> state (cell s' b) = state (cell s b)"
    and self: "state (cell s' (trx_lock_deque x ! n)) = OBSOLETE" "trx_lock_deque x ! n \<notin> fresh s'"
    and node: "trx_node_table (memo s') t = Some y" "conflict_lock y = None" "cond y = No_waiter"
      "trx_lock_deque y = trx_lock_deque x"
  shows "releasing s' t p' y n"
proof -
  have "slot_good s' t (trx_lock_deque x) k" if k: "n < k" "k < length (trx_lock_deque x)" for k
  proof -
    have slot: "slot_good s t (trx_lock_deque x) k" using rel k by (simp add: releasing_def Let_def)
    then have "trx_lock_deque x ! k < cells s" "thread_id (cell s (trx_lock_deque x ! k)) = t"
      by (auto simp: slot_good_def own_def)
    then have "steady s s' (trx_lock_deque x ! k) \<and> state (cell s' (trx_lock_deque x ! k)) = state (cell s (trx_lock_deque x ! k))"
      using others later_lock [OF rel k] by blast
    then show ?thesis using pc by (intro steady_slot [OF fr slot]) simp_all
  qed
  moreover have "records_ok (memo s') (locs (base s) ! t)"
    using rel records_ok_cong [of "memo s'" "memo s"] framed_parts(3) [OF fr]
    by (simp add: releasing_def record_kept_def Let_def)
  ultimately show ?thesis
    using rel pc self node p' own_stays [OF fr] by (simp add: releasing_def Let_def)
qed

section \<open>Reading steps\<close>

lemma lf_release_step_read:
  assumes "ReleaseLock_access a p (memo s) = Inr (q, memo s)" and "p \<noteq> Rl_unlock" and "p \<noteq> Rl_lock" and "\<forall>y x. p \<noteq> Rl_move y x"
  shows "lf_release_step t a p s = Inr (at_point t (In_release q) s)"
proof -
  have "note_release t r p s = s" for r using assms(3,4) by (cases p) (simp_all add: note_release_def)
  then show ?thesis using assms(1,2) by (simp add: lf_release_step_def Let_def resume_at_def at_point_def)
qed

lemma release_point:
  assumes good: "lf_good s" and t: "t < n_threads (base s)" and f: "fines s ! t = In_release p"
    and rel: "releasing s t p x n" and p: "p \<noteq> Rl_state" "q \<noteq> Rl_state"
    and q: "rel_good s t (fst (wanted (locs (base s) ! t) ! n)) q"
  shows "lf_good (at_point t (In_release q) s)"
proof -
  let ?s = "at_point t (In_release q) s"
  note tab = lf_good_parts(1) [OF good]
  have loc: "local_step t s ?s" by (rule local_point [OF tab t]) (use f in simp_all)
  have f': "fines ?s ! t = In_release q" using t table_parts(10) [OF tab] by simp
  have "releasing ?s t q x n"
    by (rule releasing_kept [OF rel local_frame [OF tab loc] p(2)])
       (use rel p in \<open>auto simp: releasing_def Let_def steady_def\<close>)
  then have "thread_good ?s t" using q same_world_good(3) [OF same_world_point]
    unfolding thread_good_release [OF f'] by auto
  then show ?thesis by (rule lf_good_local [OF good loc])
qed

lemma head_next:
  assumes tab: "table_good s" and j: "passed s r \<le> j" "j < length (order s r)" and nxt: "next_lock (cell s (order s r ! j)) = Some y"
  shows "Suc j < length (order s r)" "y = order s r ! Suc j"
proof -
  have "last_place (order s r) (order s r ! j) j"
    using table_parts(1) [OF tab, of r] j by (simp add: order_good_def present_def)
  then show "Suc j < length (order s r)" "y = order s r ! Suc j"
    using table_parts(2) [OF tab, of r, unfolded links_good_def, rule_format] nxt by fastforce+
qed

text \<open>The points at which \<open>ReleaseLock\<close> reads.\<close>

definition reads :: "rel \<Rightarrow> bool" where
  "reads p \<longleftrightarrow> (case p of Rl_state \<Rightarrow> False | Rl_lock \<Rightarrow> False | Rl_move y x \<Rightarrow> False | Rl_pass y x \<Rightarrow> False
     | Rl_wake x \<Rightarrow> False | Rl_signal x \<Rightarrow> False | Rl_unlock \<Rightarrow> False | _ \<Rightarrow> True)"

lemma release_read_good:
  assumes tab: "table_good s" and good: "rel_good s t r p" and rd: "reads p" and r: "record_id (cell s a) = r"
  shows "\<exists>q. ReleaseLock_access a p (memo s) = Inr (q, memo s) \<and> rel_good s t r q \<and> q \<noteq> Rl_state"
proof -
  have head: "load_head r (memo s) = Inr (order s r ! passed s r)" "passed s r < length (order s r)" if "holds_head s t r"
    using head_loaded [OF tab] that by (simp_all add: holds_head_def)
  have sh: "mode l = SHARED \<longleftrightarrow> mode l \<noteq> EXCLUSIVE" for l :: lock_t by (cases "mode l") simp_all
  show ?thesis
  proof (cases p)
    case Rl_head
    then show ?thesis using good head by (simp add: ReleaseLock_access_def r at_head_def)
  next
    case (Rl_first x)
    then show ?thesis using good by (simp add: ReleaseLock_access_def is_obsolete_def Let_def)
  next
    case (Rl_next y)
    then show ?thesis using good head_next [OF tab, of r "passed s r"]
      by (auto simp: ReleaseLock_access_def at_head_def Let_def split: option.splits)
  next
    case (Rl_test x)
    then show ?thesis using good by (simp add: ReleaseLock_access_def is_obsolete_def Let_def)
  next
    case (Rl_check x)
    then have "has_head s r" "at_head s r x" using good by (simp_all add: holds_head_def)
    then obtain node y where node: "lock_table (memo s) r = Some node" "head node = Some y" by (auto simp: has_head_def)
    then have "y = x" using table_parts(8) [OF tab node(1)] \<open>at_head s r x\<close> by (simp add: queue_good_def at_head_def)
    then show ?thesis using good Rl_check node by (simp add: ReleaseLock_access_def r get_node_def)
  next
    case (Rl_mode x)
    then have h: "holds_head s t r" "at_head s r x" using good by simp_all
    then have "readers_to s r (passed s r)" by (auto simp: readers_to_def at_head_def)
    then show ?thesis using Rl_mode h by (auto simp: ReleaseLock_access_def at_head_def shared_at_def Let_def)
  next
    case (Rl_follow x)
    then obtain j where j: "holds_head s t r" "readers_to s r j" "x = order s r ! j" "gone s r j \<or> shared_at s r j"
      using good by auto
    then have b: "passed s r \<le> j" "j < length (order s r)" by (simp_all add: readers_to_def)
    have "readers_to s r (Suc j)" if "Suc j < length (order s r)"
      using j(2,4) that by (auto simp: readers_to_def less_Suc_eq)
    then show ?thesis using j head_next [OF tab b] Rl_follow
      by (auto simp: ReleaseLock_access_def Let_def split: option.splits)
  next
    case (Rl_look x)
    then obtain j where j: "holds_head s t r" "readers_to s r j" "x = order s r ! j" using good by auto
    then show ?thesis using Rl_look obsolete_gone by (auto simp: ReleaseLock_access_def Let_def)
  next
    case (Rl_look_mode x)
    then obtain j where j: "holds_head s t r" "readers_to s r j" "x = order s r ! j" using good by auto
    then show ?thesis using Rl_look_mode sh by (auto simp: ReleaseLock_access_def shared_at_def Let_def)
  qed (use rd in \<open>simp_all add: reads_def\<close>)
qed

end
