(* ===== verification/LfWake.thy ===== *)
theory LfWake
  imports LfRelease
begin

text \<open>
  The steps of \<open>ReleaseLock\<close> that store: the lock becomes obsolete, the head mutex is taken,
  the head moves, a lock that the head has passed is told so, a lock is signalled, and the
  mutex is given back.
\<close>

section \<open>What they share\<close>

lemma releasing_stored:
  assumes good: "lf_good s" and t: "t < n_threads (base s)" and rel: "releasing s t p x n"
    and fr: "framed t s s'" and tab': "table_good s'" and p': "p' \<noteq> Rl_state"
    and base: "tpcs (base s') = tpcs (base s)" "locs (base s') = locs (base s)" "fines s' = (fines s)[t := In_release p']"
    and others: "\<And>b. b < cells s \<Longrightarrow> thread_id (cell s b) = t \<Longrightarrow> b \<noteq> trx_lock_deque x ! n \<Longrightarrow>
      steady s s' b \<and> state (cell s' b) = state (cell s b)"
    and self: "state (cell s' (trx_lock_deque x ! n)) = OBSOLETE" "fresh s' = fresh s"
    and node: "trx_node_table (memo s') t = Some y" "conflict_lock y = None" "cond y = No_waiter"
      "trx_lock_deque y = trx_lock_deque x"
    and q: "rel_good s' t (fst (wanted (locs (base s) ! t) ! n)) p'"
  shows "lf_good s'"
proof -
  have f': "fines s' ! t = In_release p'" using base(3) t table_parts(10) [OF lf_good_parts(1) [OF good]] by simp
  have "releasing s' t p' y n"
    by (rule releasing_kept [OF rel fr p' _ _ others self(1) _ node])
       (use rel base self(2) in \<open>simp_all add: releasing_def Let_def\<close>)
  then have "thread_good s' t" using q unfolding thread_good_release [OF f'] base(2) by blast
  then show ?thesis by (rule lf_good_step [OF good fr tab'])
qed

lemma releasing_lock:
  assumes "releasing s t p x n"
  shows "own s t (fst (wanted (locs (base s) ! t) ! n)) (trx_lock_deque x ! n)" "trx_lock_deque x ! n \<notin> fresh s"
    "trx_node_table (memo s) t = Some x" "conflict_lock x = None" "cond x = No_waiter"
    "p \<noteq> Rl_state \<Longrightarrow> state (cell s (trx_lock_deque x ! n)) = OBSOLETE"
    "record_id (cell s (trx_lock_deque x ! n)) = fst (wanted (locs (base s) ! t) ! n)"
  using assms by (simp_all add: releasing_def own_def Let_def)

section \<open>The state, the mutex\<close>

lemma release_state_ok:
  assumes good: "lf_good s" and t: "t < n_threads (base s)" and f: "fines s ! t = In_release Rl_state"
    and rel: "releasing s t Rl_state x n" and q: "rel_good s t (fst (wanted (locs (base s) ! t) ! n)) Rl_state"
  shows "\<exists>s'. lf_release_step t (trx_lock_deque x ! n) Rl_state s = Inr s' \<and> lf_good s'"
proof -
  let ?a = "trx_lock_deque x ! n" and ?r = "fst (wanted (locs (base s) ! t) ! n)"
  note tab = lf_good_parts(1) [OF good] and lock = releasing_lock [OF rel]
  define s' where "s' = resume_at t (In_release Rl_lock) ((base s)\<lparr>mem := set_state ?a OBSOLETE (memo s)\<rparr>) s"
  have step: "lf_release_step t ?a Rl_state s = Inr s'"
    by (simp add: lf_release_step_def ReleaseLock_access_def note_release_def s'_def Let_def)
  have st: "state_stored t ?a OBSOLETE x (In_release Rl_lock) s s'"
    using lock(3) by (simp add: state_stored_def s'_def resume_at_def set_state_def fun_upd_idem)
      (metis list_update_id)
  have fits: "node_fits t s (Some x)" by (rule own_node_fits [OF tab lock(3)]) (simp_all add: lock(4))
  have loc: "local_step t s s'" by (rule state_stored_local [OF tab t st lock(1,2) _ _ _ _ fits]) (use f in simp_all)
  have a: "?a < cells s" using lock(1) by (simp add: own_def)
  note fr = local_frame [OF tab loc]
  have "lf_good s'"
  proof (rule releasing_stored [OF good t rel fr local_table [OF tab loc], where p' = Rl_lock and y = x])
    show "rel_good s' t ?r Rl_lock" using q has_head_stays [OF fr] by simp
  qed (use state_stored_cell [OF st a] state_stored_steady [OF st a] lock in \<open>simp_all add: s'_def resume_at_def set_state_def\<close>)
  then show ?thesis using step by blast
qed

lemma release_lock_ok:
  assumes good: "lf_good s" and t: "t < n_threads (base s)" and f: "fines s ! t = In_release Rl_lock"
    and rel: "releasing s t Rl_lock x n" and q: "rel_good s t (fst (wanted (locs (base s) ! t) ! n)) Rl_lock"
    and free: "head_mutex s (fst (wanted (locs (base s) ! t) ! n)) = None"
  shows "\<exists>s'. lf_release_step t (trx_lock_deque x ! n) Rl_lock s = Inr s' \<and> lf_good s'"
proof -
  let ?a = "trx_lock_deque x ! n" and ?r = "fst (wanted (locs (base s) ! t) ! n)"
  note tab = lf_good_parts(1) [OF good] and lock = releasing_lock [OF rel]
  define s' where "s' = s\<lparr>head_mutex := (head_mutex s)(?r := Some t), fines := (fines s)[t := In_release Rl_head]\<rparr>"
  have step: "lf_release_step t ?a Rl_lock s = Inr s'"
    by (simp add: lf_release_step_def ReleaseLock_access_def note_release_def s'_def resume_at_def Let_def lock(7))
  have "local_step t s s'"
  proof (rule local_none [OF tab])
    show "same_fields t s s'" using free by (auto simp: same_fields_def s'_def ends_of_def) (metis list_update_id)+
    show "node_fits t s (trx_node_table (memo s') t)" using table_parts(5) [OF tab] by (simp add: nodes_fit s'_def)
  qed (use f in \<open>simp_all add: s'_def\<close>)
  then have fr: "framed t s s'" and tab': "table_good s'" by (rule local_frame [OF tab], rule local_table [OF tab])
  have "lf_good s'"
  proof (rule releasing_stored [OF good t rel fr tab', where p' = Rl_head and y = x])
    show "rel_good s' t ?r Rl_head" using q has_head_stays [OF fr] by (simp add: holds_head_def s'_def)
  qed (use lock in \<open>simp_all add: s'_def steady_def\<close>)
  then show ?thesis using step by blast
qed

section \<open>Moving the head\<close>

lemma release_move_ok:
  assumes good: "lf_good s" and t: "t < n_threads (base s)" and f: "fines s ! t = In_release (Rl_move b c)"
    and rel: "releasing s t (Rl_move b c) x n" and q: "rel_good s t (fst (wanted (locs (base s) ! t) ! n)) (Rl_move b c)"
  shows "\<exists>s'. lf_release_step t (trx_lock_deque x ! n) (Rl_move b c) s = Inr s' \<and> lf_good s'"
proof -
  let ?a = "trx_lock_deque x ! n" and ?r = "fst (wanted (locs (base s) ! t) ! n)"
  note tab = lf_good_parts(1) [OF good] and lock = releasing_lock [OF rel]
  have h: "holds_head s t ?r" "at_head s ?r b" "state (cell s b) = OBSOLETE" "Suc (passed s ?r) < length (order s ?r)"
    "c = order s ?r ! Suc (passed s ?r)" using q by simp_all
  define s' where "s' = resume_at t (In_release (Rl_pass b c))
    ((base s)\<lparr>mem := upd_node ?r (\<lambda>n. n\<lparr>head := Some c\<rparr>) (memo s)\<rparr>) (s\<lparr>passed := (passed s)(?r := Suc (passed s ?r))\<rparr>)"
  have step: "lf_release_step t ?a (Rl_move b c) s = Inr s'"
    by (simp add: lf_release_step_def ReleaseLock_access_def note_release_def s'_def Let_def lock(7))
  have st: "head_stored t ?r (Suc (passed s ?r)) (In_release (Rl_pass b c)) s s'"
    by (simp add: head_stored_def s'_def resume_at_def h(5))
  have old: "present s ?r (passed s ?r)" "\<not> head_pass_flag (cell s b)" "\<forall>k < passed s ?r. gone s ?r k"
    using table_parts(1) [OF tab, of ?r] h(2) by (simp_all add: order_good_def at_head_def)
  have gone: "gone s ?r k" if "k < Suc (passed s ?r)" for k
    using that old(3) h(2,3) by (cases "k = passed s ?r") (auto simp: gone_def at_head_def)
  have node: "lock_table (memo s) ?r \<noteq> None" "has_head s ?r" using h(1) by (auto simp: holds_head_def has_head_def)
  have "framed t s s'" "table_good s'"
    by (rule head_stored_ok [OF tab st node(1) h(4) _ gone]; use h(1) f node(2) in \<open>simp add: holds_head_def\<close>)+
  note fr = this(1) and tab' = this(2)
  have same: "cell s' k = cell s k" for k by (simp add: s'_def resume_at_def)
  have "lf_good s'"
  proof (rule releasing_stored [OF good t rel fr tab', where p' = "Rl_pass b c" and y = x])
    have "holds_head s' t ?r" using h(1) has_head_stays [OF fr] by (simp add: holds_head_def s'_def resume_at_def)
    moreover have "at_head s' ?r c" using h(4,5) by (simp add: at_head_def s'_def resume_at_def)
    moreover have "placed s' ?r b (passed s ?r)" using old(1) h(2)
      by (simp add: placed_def present_def at_head_def s'_def resume_at_def)
    ultimately show "rel_good s' t ?r (Rl_pass b c)" using old(2) same by (simp add: s'_def resume_at_def)
  qed (use lock in \<open>simp_all add: s'_def steady_def resume_at_def\<close>)
  then show ?thesis using step by blast
qed

text \<open>A store into a flag of some lock of the record, by the holder of the head mutex.\<close>

lemma release_flag_ok:
  assumes good: "lf_good s" and t: "t < n_threads (base s)" and f: "fines s ! t = In_release p"
    and rel: "releasing s t p x n" and p: "p \<noteq> Rl_state" "p' \<noteq> Rl_state"
    and st: "flag_stored t c l' (In_release p') s s'" and fit: "store_fits s (fst (wanted (locs (base s) ! t) ! n)) c k l'"
    and l': "lock_id_on_record l' = lock_id_on_record (cell s c)" "id_pass_flag l' = id_pass_flag (cell s c)"
      "head_pass_flag (cell s c) \<longrightarrow> head_pass_flag l'" "signal_flag (cell s c) \<longrightarrow> signal_flag l'"
    and h: "holds_head s t (fst (wanted (locs (base s) ! t) ! n))"
    and cond: "\<And>u x y. u \<noteq> t \<Longrightarrow> trx_node_table (memo s) u = Some x \<Longrightarrow> trx_node_table (memo s') u = Some y \<Longrightarrow>
      cond x = cond_at s (fines s ! u) \<Longrightarrow>
      (\<forall>a. fines s ! u = In_acquire (Aq_sleep a) \<longrightarrow> a < cells s \<and> thread_id (cell s a) = u) \<Longrightarrow>
      cond y = cond_at s' (fines s ! u)"
    and node: "trx_node_table (memo s') t = Some x"
    and q: "framed t s s' \<Longrightarrow> rel_good s' t (fst (wanted (locs (base s) ! t) ! n)) p'"
  shows "lf_good s'"
proof -
  let ?r = "fst (wanted (locs (base s) ! t) ! n)"
  note tab = lf_good_parts(1) [OF good] and lock = releasing_lock [OF rel]
  have pl: "placed s ?r c k" using fit by (simp add: store_fits_def Let_def)
  then have c: "c < cells s" using last_place_cell [OF tab] by (auto simp: placed_def)
  have tab': "table_good s'" by (rule store_table [OF tab st fit]) (use f in simp_all)
  have fr: "framed t s s'"
    by (rule store_frame [OF tab st fit _ _ _ cond]) (use l' h in \<open>simp_all add: holds_head_def\<close>)
  note cell = flag_stored_cell [OF st c]
  have id: "lock_id_on_record (cell s' b) = lock_id_on_record (cell s b)" for b by (simp add: cell(1) l'(1))
  have world: "tpcs (base s') = tpcs (base s)" "locs (base s') = locs (base s)" "fines s' = (fines s)[t := In_release p']"
    "fresh s' = fresh s" using st by (simp_all add: flag_stored_def)
  show ?thesis
    by (rule releasing_stored [OF good t rel fr tab' p(2), where y = x])
       (use lock q [OF fr] p(1) node in \<open>simp_all add: steady_def cell(5,6) id world\<close>)
qed

lemma release_pass_ok:
  assumes good: "lf_good s" and t: "t < n_threads (base s)" and f: "fines s ! t = In_release (Rl_pass b c)"
    and rel: "releasing s t (Rl_pass b c) x n" and q: "rel_good s t (fst (wanted (locs (base s) ! t) ! n)) (Rl_pass b c)"
  shows "\<exists>s'. lf_release_step t (trx_lock_deque x ! n) (Rl_pass b c) s = Inr s' \<and> lf_good s'"
proof -
  let ?a = "trx_lock_deque x ! n" and ?r = "fst (wanted (locs (base s) ! t) ! n)"
  note tab = lf_good_parts(1) [OF good] and lock = releasing_lock [OF rel]
  obtain k where h: "holds_head s t ?r" "at_head s ?r c" "passed s ?r = Suc k" "placed s ?r b k" using q by auto
  have b: "b < cells s" using last_place_cell [OF tab] h(4) by (auto simp: placed_def)
  let ?g = "\<lambda>l. l\<lparr>head_pass_flag := True\<rparr>"
  define s' where "s' = resume_at t (In_release (Rl_test c)) ((base s)\<lparr>mem := upd_lock b ?g (memo s)\<rparr>) s"
  have step: "lf_release_step t ?a (Rl_pass b c) s = Inr s'"
    by (simp add: lf_release_step_def ReleaseLock_access_def note_release_def s'_def Let_def)
  have stored: "flag_stored t b (?g (cell s b)) (In_release (Rl_test c)) s s'"
    "trx_node_table (memo s') = trx_node_table (memo s)" unfolding s'_def using upd_lock_stored [OF b] by auto
  note cell = flag_stored_cell [OF stored(1) b]
  have "signal_flag (cell s' u) = signal_flag (cell s u)" for u by (simp add: cell(1))
  then have cond: "cond_at s' g = cond_at s g" for g by (cases "(s, g)" rule: cond_at.cases) simp_all
  have world: "order s' = order s" "passed s' = passed s" "head_mutex s' = head_mutex s"
    using stored(1) by (simp_all add: flag_stored_def)
  have "lf_good s'"
  proof (rule release_flag_ok [OF good t f rel _ _ stored(1)])
    show "store_fits s ?r b k (?g (cell s b))" using h(3,4) by (simp add: store_fits_def)
    show "framed t s s' \<Longrightarrow> rel_good s' t ?r (Rl_test c)" using h(1,2) by (simp add: holds_head_def at_head_def cell(11) world)
  qed (use h lock stored(2) cond in simp_all)
  then show ?thesis using step by blast
qed

section \<open>Signals\<close>

text \<open>What the wake-up of the lock at position \<open>k\<close> does to the threads' nodes.\<close>

lemma wake_cond:
  assumes good: "lf_good s" and c: "c < cells s" and cell: "cell s' c = (cell s c)\<lparr>signal_flag := True\<rparr>"
    "\<And>b. b \<noteq> c \<Longrightarrow> cell s' b = cell s b" and tabs: "trx_node_table (memo s') = trx_node_table (wake c (memo s))"
    and u: "u < n_threads (base s)" "trx_node_table (memo s) u = Some x" "trx_node_table (memo s') u = Some y"
    and old: "cond x = cond_at s (fines s ! u)"
  shows "cond y = cond_at s' (fines s ! u)"
proof -
  note tab = lf_good_parts(1) [OF good]
  note cg = table_parts(7) [OF tab c, unfolded cell_good_def Let_def]
  then have "thread_id (cell s c) \<in> dom (trx_node_table (memo s))" by auto
  from wake_trx [OF this] have y: "cond y = (if u = thread_id (cell s c) \<and> state (cell s c) = WAIT then notify_one (cond x) else cond x)"
    using u tabs by (auto split: if_splits)
  show ?thesis
  proof (cases "\<exists>b. fines s ! u = In_acquire (Aq_sleep b)")
    case True
    then obtain b where b: "fines s ! u = In_acquire (Aq_sleep b)" by blast
    obtain st where lf: "lock_fits s u st (Aq_sleep b)"
      using lf_good_parts(2) [OF good u(1)] unfolding thread_good_acquire [OF b] by blast
    show ?thesis
    proof (cases "b = c")
      case True
      then have "state (cell s c) = WAIT" "thread_id (cell s c) = u" using lf by (simp_all add: lock_fits_def own_def acq_state_def)
      then show ?thesis using y old b True cell(1) by (simp add: notify_one_def)
    next
      case False
      then have "\<not> (u = thread_id (cell s c) \<and> state (cell s c) = WAIT)" using cg b by auto
      then have "cond y = cond x" using y by (simp only: if_False)
      then show ?thesis using old b cell(2) [OF False] by simp
    qed
  next
    case False
    then have "cond_at s (fines s ! u) = No_waiter" "cond_at s' (fines s ! u) = No_waiter"
      by (cases "(s, fines s ! u)" rule: cond_at.cases; simp)+
    then show ?thesis using y old by (simp add: notify_one_def)
  qed
qed

lemma release_wake_ok:
  assumes good: "lf_good s" and t: "t < n_threads (base s)" and f: "fines s ! t = In_release p"
    and rel: "releasing s t p x n" and p: "p \<noteq> Rl_state" "p' \<noteq> Rl_state"
    and k: "placed s (fst (wanted (locs (base s) ! t) ! n)) c k" "clear_to s (fst (wanted (locs (base s) ! t) ! n)) k"
    and h: "holds_head s t (fst (wanted (locs (base s) ! t) ! n))"
    and s': "s' = resume_at t (In_release p') ((base s)\<lparr>mem := wake c (memo s)\<rparr>) s"
    and q: "framed t s s' \<Longrightarrow> gone s' = gone s \<Longrightarrow> shared_at s' = shared_at s \<Longrightarrow> order s' = order s \<Longrightarrow> passed s' = passed s
      \<Longrightarrow> holds_head s' t (fst (wanted (locs (base s) ! t) ! n)) \<Longrightarrow> rel_good s' t (fst (wanted (locs (base s) ! t) ! n)) p'"
  shows "lf_good s'"
proof -
  let ?r = "fst (wanted (locs (base s) ! t) ! n)" and ?l = "(cell s c)\<lparr>signal_flag := True\<rparr>"
  note tab = lf_good_parts(1) [OF good] and lock = releasing_lock [OF rel]
  have c: "c < cells s" using last_place_cell [OF tab] k(1) by (auto simp: placed_def)
  have dom: "thread_id (cell s c) \<in> dom (trx_node_table (memo s))" "thread_id (cell s c) < n_threads (base s)"
    using table_parts(7) [OF tab c] by (auto simp: cell_good_def Let_def)
  have glob: "record_count (wake c (memo s)) = record_count (memo s)"
    using wake_trx [OF dom(1)] by (simp add: globals_def)
  have st: "flag_stored t c ?l (In_release p') s s'"
  proof -
    have "heap (wake c (memo s)) = (heap (memo s))[c := ?l]"
      by (rule nth_equalityI) (use wake_lock [of c "memo s"] c in \<open>auto simp: nth_upd\<close>)
    moreover have "map_option (\<lambda>x. (trx_lock_deque x, conflict_lock x, trx_thread_id x)) (trx_node_table (wake c (memo s)) u)
        = map_option (\<lambda>x. (trx_lock_deque x, conflict_lock x, trx_thread_id x)) (trx_node_table (memo s) u)" for u
      using wake_trx [OF dom(1)] by (simp add: option.map_comp comp_def)
    ultimately show ?thesis using glob by (simp add: flag_stored_def s' resume_at_def Let_def)
  qed
  note cell = flag_stored_cell [OF st c]
  have tabs: "trx_node_table (memo s') = trx_node_table (wake c (memo s))" by (simp add: s' resume_at_def)
  show ?thesis
  proof (rule release_flag_ok [OF good t f rel p st])
    show "store_fits s ?r c k ?l" using k by (simp add: store_fits_def)
    show "cond y = cond_at s' (fines s ! u)"
      if u: "u \<noteq> t" "trx_node_table (memo s) u = Some x" "trx_node_table (memo s') u = Some y" "cond x = cond_at s (fines s ! u)"
        "\<forall>a. fines s ! u = In_acquire (Aq_sleep a) \<longrightarrow> a < cells s \<and> thread_id (cell s a) = u" for u x y
    proof (cases "u < n_threads (base s)")
      case True
      show ?thesis by (rule wake_cond [OF good c _ _ tabs True u(2-4)]) (simp_all add: cell(1))
    next
      case False
      then have "fines s ! u \<noteq> In_acquire (Aq_sleep b)" for b
        using u(5) table_parts(7) [OF tab, of b] by (auto simp: cell_good_def Let_def)
      then have "cond_at s' (fines s ! u) = cond_at s (fines s ! u)"
        by (cases "(s, fines s ! u)" rule: cond_at.cases) simp_all
      moreover have "y = x" using wake_trx [OF dom(1)] dom(2) u(2,3) tabs False by auto
      ultimately show ?thesis using u(4) by simp
    qed
    show "trx_node_table (memo s') t = Some x"
      using wake_trx [OF dom(1)] lock(3,5) tabs by (auto simp: notify_one_def)
    have "order s' = order s" using st by (simp add: flag_stored_def)
    then have sh: "shared_at s' = shared_at s" by (simp add: fun_eq_iff shared_at_def cell(5))
    have "holds_head s' t ?r" using h st by (simp add: holds_head_def cell(11) flag_stored_def)
    then show "framed t s s' \<Longrightarrow> rel_good s' t ?r p'" using q sh cell(9) st by (simp add: flag_stored_def)
  qed (use h in simp_all)
qed

section \<open>The return\<close>

lemma release_unlock_ok:
  assumes good: "lf_good s" and t: "t < n_threads (base s)" and f: "fines s ! t = In_release Rl_unlock"
    and rel: "releasing s t Rl_unlock x n" and q: "rel_good s t (fst (wanted (locs (base s) ! t) ! n)) Rl_unlock"
  shows "\<exists>s'. lf_release_step t (trx_lock_deque x ! n) Rl_unlock s = Inr s' \<and> lf_good s'"
proof -
  let ?a = "trx_lock_deque x ! n" and ?r = "fst (wanted (locs (base s) ! t) ! n)" and ?ds = "trx_lock_deque x"
  note tab = lf_good_parts(1) [OF good] and lock = releasing_lock [OF rel]
  have dq: "deque t (memo s) = ?ds" using lock(3) by (simp add: deque_def trx_of_def)
  have cnt: "count_ok (tpcs (base s) ! t) (length ?ds)" "records_ok (memo s) (locs (base s) ! t)"
    "\<And>k. n < k \<Longrightarrow> k < length ?ds \<Longrightarrow> slot_good s t ?ds k"
    "(\<exists>cid rs vs. tpcs (base s) ! t = Releasing cid n rs vs) \<or> (\<exists>f. tpcs (base s) ! t = Undo_release f n)"
    using rel by (simp_all add: releasing_def Let_def)
  define s1 where "s1 = s\<lparr>head_mutex := (head_mutex s)(?r := None)\<rparr>"
  obtain pc b where ret: "release_return t s1 = resume_at t Idle b s1" and b: "mem b = memo s"
      "tpcs b = (tpcs (base s))[t := pc]" "locs b = locs (base s)"
    and pc: "count_ok pc (length ?ds)" "conflict_of pc = None" "last_lock pc = None"
      "\<And>k. k < length ?ds \<Longrightarrow> live_from pc (length ?ds) \<le> k \<Longrightarrow>
        n < k \<and> expected pc (length ?ds) k = expected (tpcs (base s) ! t) (length ?ds) k"
  proof -
    from cnt(4) show thesis
    proof (elim disjE exE)
      fix cid rs vs assume p: "tpcs (base s) ! t = Releasing cid n rs vs"
      show thesis
        by (rule that [of "go t (commit_from cid (Suc n) rs vs ?ds) (memo s) (base s)" "commit_from cid (Suc n) rs vs ?ds"])
           (use p cnt(1) dq in \<open>auto simp: release_return_def s1_def Let_def go_def commit_from_def split: if_splits\<close>)
    next
      fix u assume p: "tpcs (base s) ! t = Undo_release u n"
      show thesis
        by (rule that [of "go t (undo_from u (Suc n) ?ds) (memo s) (finish_thread t (undo_from u (Suc n) ?ds) (base s))"
            "undo_from u (Suc n) ?ds"])
           (use p cnt(1) dq in \<open>cases u; auto simp: release_return_def s1_def Let_def go_def undo_from_def finish_thread_def
             split: if_splits\<close>)+
    qed
  qed
  define s' where "s' = resume_at t Idle b s1"
  have step: "lf_release_step t ?a Rl_unlock s = Inr s'"
    using ret by (simp add: lf_release_step_def Let_def lock(7) s1_def s'_def)
  have "head_mutex s ?r = Some t" using q by (simp add: holds_head_def)
  then have "local_step t s s'"
  proof (intro local_none [OF tab])
    show "same_fields t s s'" if "head_mutex s ?r = Some t"
      using that b by (auto simp: same_fields_def s'_def s1_def resume_at_def ends_of_def) (metis list_update_id)+
    show "node_fits t s (trx_node_table (memo s') t)" using table_parts(5) [OF tab] b(1)
      by (simp add: nodes_fit s'_def resume_at_def)
  qed (use f b in \<open>simp_all add: s'_def s1_def resume_at_def\<close>)
  note loc = this and fr = local_frame [OF tab this]
  have len: "t < length (fines s)" using t table_parts(10) [OF tab] by simp
  have f': "fines s' ! t = Idle" "tpcs (base s') ! t = pc" "locs (base s') = locs (base s)" "memo s' = memo s"
    "fresh s' = fresh s" using len t b by (simp_all add: s'_def s1_def resume_at_def)
  have "slot_good s' t ?ds k" if k: "k < length ?ds" "live_from pc (length ?ds) \<le> k" for k
    by (rule steady_slot [OF fr cnt(3)]) (use pc(4) [OF k] k f' in \<open>simp_all add: steady_same\<close>)
  then have "thread_good s' t" using f' lock(3-5) cnt(2) pc(1-3) by (simp add: thread_good_def outer_good_def)
  then have "lf_good s'" by (rule lf_good_local [OF good loc])
  then show ?thesis using step by blast
qed

section \<open>All steps\<close>

lemma readers_clear:
  assumes tab: "table_good s" and j: "readers_to s r j" and sh: "j = passed s r \<or> shared_at s r j"
  shows "placed s r (order s r ! j) j" "clear_to s r j"
proof -
  have b: "passed s r \<le> j" "j < length (order s r)" using j by (simp_all add: readers_to_def)
  show "placed s r (order s r ! j) j"
    using table_parts(1) [OF tab, of r] b by (simp add: order_good_def present_def placed_def)
  have old: "gone s r q" if "q < passed s r" for q using table_parts(1) [OF tab, of r] that by (simp add: order_good_def)
  show "clear_to s r j"
    unfolding clear_to_def passable_def
  proof (intro allI impI)
    fix q assume q: "q < j"
    show "gone s r q \<or> mode (cell s (order s r ! j)) = SHARED \<and> shared_at s r q"
      using old [of q] j sh q by (cases "q < passed s r") (auto simp: readers_to_def shared_at_def)
  qed
qed

lemma releasing_step_ok:
  assumes good: "lf_good s" and t: "t < n_threads (base s)" and f: "fines s ! t = In_release p" and can: "lf_can_go t s"
  shows "\<exists>s'. lf_release_step t (released_lock t (base s)) p s = Inr s' \<and> lf_good s'"
proof -
  obtain x n where rel: "releasing s t p x n" and q: "rel_good s t (fst (wanted (locs (base s) ! t) ! n)) p"
    using lf_good_parts(2) [OF good t] unfolding thread_good_release [OF f] by blast
  let ?a = "trx_lock_deque x ! n" and ?r = "fst (wanted (locs (base s) ! t) ! n)"
  note tab = lf_good_parts(1) [OF good] and lock = releasing_lock [OF rel] and a = released_lock_eq [OF rel]
  have wake: "\<exists>s'. lf_release_step t ?a p s = Inr s' \<and> lf_good s'"
    if p: "ReleaseLock_access ?a p (memo s) = Inr (p', wake c (memo s))" "note_release t ?r p s = s" "p \<noteq> Rl_unlock" "p \<noteq> Rl_state"
      "p' \<noteq> Rl_state"
      and k: "holds_head s t ?r" "readers_to s ?r k" "c = order s ?r ! k" "k = passed s ?r \<or> shared_at s ?r k"
      and good': "\<And>s'. gone s' = gone s \<Longrightarrow> shared_at s' = shared_at s \<Longrightarrow> order s' = order s \<Longrightarrow> passed s' = passed s
        \<Longrightarrow> holds_head s' t ?r \<Longrightarrow> rel_good s' t ?r p'" for p' c k
  proof -
    let ?s = "resume_at t (In_release p') ((base s)\<lparr>mem := wake c (memo s)\<rparr>) s"
    have "lf_good ?s"
      by (rule release_wake_ok [OF good t f rel p(4,5) _ _ k(1) refl])
         (use readers_clear [OF tab k(2,4)] k(3) good' in blast)+
    moreover have "lf_release_step t ?a p s = Inr ?s" using p by (simp add: lf_release_step_def Let_def lock(7))
    ultimately show ?thesis by blast
  qed
  show ?thesis
    unfolding a
  proof (cases "reads p")
    case True
    have p: "p \<noteq> Rl_unlock" "p \<noteq> Rl_lock" "\<forall>y x. p \<noteq> Rl_move y x" "p \<noteq> Rl_state" using True by (auto simp: reads_def)
    obtain p' where p': "ReleaseLock_access ?a p (memo s) = Inr (p', memo s)" "rel_good s t ?r p'" "p' \<noteq> Rl_state"
      using release_read_good [OF tab q True lock(7)] by blast
    then show "\<exists>s'. lf_release_step t ?a p s = Inr s' \<and> lf_good s'"
      using lf_release_step_read [OF p'(1) p(1-3)] release_point [OF good t f rel p(4) p'(3,2)] by blast
  next
    case False
    then show "\<exists>s'. lf_release_step t ?a p s = Inr s' \<and> lf_good s'"
    proof (cases p)
      case Rl_lock
      then have "head_mutex s ?r = None" using can f by (simp add: lf_can_go_def a lock(7))
      then show ?thesis using release_lock_ok [OF good t] f rel q Rl_lock by simp
    next
      case (Rl_wake c)
      then show ?thesis using q
        by (intro wake [where p' = "Rl_mode c" and k = "passed s ?r" and c = c])
           (auto simp: ReleaseLock_access_def note_release_def at_head_def readers_to_def)
    next
      case (Rl_signal c)
      then obtain j where "holds_head s t ?r" "readers_to s ?r j" "c = order s ?r ! j" "shared_at s ?r j" using q by auto
      then show ?thesis using Rl_signal
        by (intro wake [where p' = "Rl_follow c" and k = j and c = c])
           (auto simp: ReleaseLock_access_def note_release_def readers_to_def)
    qed (use release_state_ok [OF good t] release_move_ok [OF good t] release_pass_ok [OF good t]
        release_unlock_ok [OF good t] f rel q in \<open>simp_all add: reads_def\<close>)
  qed
qed

end
