(* ===== verification/LfOuter.thy ===== *)
theory LfOuter
  imports LfWake
begin

text \<open>
  The steps outside \<open>AcquireLock\<close> and \<open>ReleaseLock\<close>, the pick of the next transaction, the
  start, and with them the invariant of all runs of the lock manager without the global mutex.
\<close>

section \<open>A step that changes a value or the thread's program counter\<close>

lemma outer_moved:
  assumes good: "lf_good s" and t: "t < n_threads (base s)" and f: "fines s ! t = Idle"
    and x: "trx_node_table (memo s) t = Some x"
    and heap: "a < cells s \<Longrightarrow> thread_id (cell s a) = t" "heap (mem b) = (heap (memo s))[a := (cell s a)\<lparr>diff := d\<rparr>]"
    and mem: "\<And>r. map_option (\<lambda>n. (head n, tail n)) (lock_table (mem b) r) = map_option (\<lambda>n. (head n, tail n)) (lock_table (memo s) r)"
      "lock_saved_vectors (mem b) = lock_saved_vectors (memo s)" "trx_node_table (mem b) = trx_node_table (memo s)"
      "record_count (mem b) = record_count (memo s)"
    and base: "tpcs b = (tpcs (base s))[t := pc]" "locs b = (locs (base s))[t := l]" "wanted l = wanted (locs (base s) ! t)"
    and pc: "count_ok pc (length (trx_lock_deque x))" "conflict_of pc = None" "last_lock pc = None"
      "\<And>k. k < length (trx_lock_deque x) \<Longrightarrow> live_from pc (length (trx_lock_deque x)) \<le> k \<Longrightarrow>
        live_from (tpcs (base s) ! t) (length (trx_lock_deque x)) \<le> k
        \<and> expected pc (length (trx_lock_deque x)) k = expected (tpcs (base s) ! t) (length (trx_lock_deque x)) k"
      "\<not> idle_pc pc \<Longrightarrow> \<not> idle_pc (tpcs (base s) ! t)"
  shows "lf_good (s\<lparr>base := b\<rparr>)"
proof -
  let ?s = "s\<lparr>base := b\<rparr>" and ?ds = "trx_lock_deque x"
  note tab = lf_good_parts(1) [OF good]
  have old: "outer_good s t x" "conflict_lock x = None" "cond x = No_waiter"
    "\<not> idle_pc (tpcs (base s) ! t) \<Longrightarrow> records_ok (memo s) (locs (base s) ! t)"
    using lf_good_parts(2) [OF good t] f x by (simp_all add: thread_good_def)
  have cell: "cell ?s c = (if c = a \<and> a < cells s then (cell s a)\<lparr>diff := d\<rparr> else cell s c)" for c using heap(2) by (auto simp: nth_upd)
  have fields: "mode (cell ?s c) = mode (cell s c)" "state (cell ?s c) = state (cell s c)"
    "lock_id_on_record (cell ?s c) = lock_id_on_record (cell s c)" for c using cell by simp_all
  have loc: "local_step t s ?s"
  proof (rule local_one [OF tab, of t ?s a])
    show "same_fields t s ?s" using base mem f by (auto simp: same_fields_def ends_of_def fun_eq_iff) (metis list_update_id)
    show "tame_cell t s ?s a" if "a < cells s"
      using heap(1) [OF that] cell table_parts(7) [OF tab that] f
      by (auto simp: tame_cell_def own_kept_def cell_good_def Let_def)
    show "node_fits t s (trx_node_table (memo ?s) t)" using table_parts(5) [OF tab] mem(3) by (simp add: nodes_fit)
  qed (use heap mem f in simp_all)
  note fr = local_frame [OF tab loc]
  have now: "tpcs (base ?s) ! t = pc" "locs (base ?s) ! t = l" "fines ?s ! t = Idle" "trx_node_table (memo ?s) t = Some x"
    using base t f x mem(3) table_parts(11) [OF tab] by simp_all
  have "slot_good ?s t ?ds k" if k: "k < length ?ds" "live_from pc (length ?ds) \<le> k" for k
  proof (rule steady_slot [OF fr])
    show "slot_good s t ?ds k" using old(1) pc(4) [OF k] k(1) by (simp add: outer_good_def Let_def)
    show "steady s ?s (?ds ! k)" using fields by (simp add: steady_def)
  qed (use fields now base(3) pc(4) [OF k] in simp_all)
  moreover have "records_ok (memo ?s) l" if "\<not> idle_pc pc"
    using old(4) [OF pc(5) [OF that]] records_ok_cong [of "memo ?s" "memo s"] local_parts(9) [OF loc] base(3)
    by (simp add: records_ok_def)
  ultimately have "thread_good ?s t" using now old(2,3) pc(1-3) by (simp add: thread_good_def outer_good_def)
  then show ?thesis by (rule lf_good_local [OF good loc])
qed

text \<open>The same when no lock changes.\<close>

lemma outer_kept:
  assumes good: "lf_good s" and t: "t < n_threads (base s)" and f: "fines s ! t = Idle"
    and x: "trx_node_table (memo s) t = Some x" and heap: "heap (mem b) = heap (memo s)"
    and mem: "\<And>r. map_option (\<lambda>n. (head n, tail n)) (lock_table (mem b) r) = map_option (\<lambda>n. (head n, tail n)) (lock_table (memo s) r)"
      "lock_saved_vectors (mem b) = lock_saved_vectors (memo s)" "trx_node_table (mem b) = trx_node_table (memo s)"
      "record_count (mem b) = record_count (memo s)"
    and base: "tpcs b = (tpcs (base s))[t := pc]" "locs b = (locs (base s))[t := l]" "wanted l = wanted (locs (base s) ! t)"
    and pc: "count_ok pc (length (trx_lock_deque x))" "conflict_of pc = None" "last_lock pc = None"
      "\<And>k. k < length (trx_lock_deque x) \<Longrightarrow> live_from pc (length (trx_lock_deque x)) \<le> k \<Longrightarrow>
        live_from (tpcs (base s) ! t) (length (trx_lock_deque x)) \<le> k
        \<and> expected pc (length (trx_lock_deque x)) k = expected (tpcs (base s) ! t) (length (trx_lock_deque x)) k"
      "\<not> idle_pc pc \<Longrightarrow> \<not> idle_pc (tpcs (base s) ! t)"
  shows "lf_good (s\<lparr>base := b\<rparr>)"
  by (rule outer_moved [OF good t f x, of "cells s" b 0 pc l])
     (use heap mem base pc in \<open>simp_all add: list_update_beyond\<close>)

text \<open>A live lock of the thread, and the record it stands for.\<close>

lemma live_slot:
  assumes good: "lf_good s" and out: "outer_good s t x" and k: "k < length (trx_lock_deque x)"
    "live_from (tpcs (base s) ! t) (length (trx_lock_deque x)) \<le> k" "k < 3"
  shows "trx_lock_deque x ! k < cells s" "thread_id (cell s (trx_lock_deque x ! k)) = t"
    "record_id (cell s (trx_lock_deque x ! k)) = fst (wanted (locs (base s) ! t) ! k)"
    "mode (cell s (trx_lock_deque x ! k)) = snd (wanted (locs (base s) ! t) ! k)"
    "has_head s (record_id (cell s (trx_lock_deque x ! k)))" "trx_lock_deque x ! k \<notin> fresh s"
    "expected (tpcs (base s) ! t) (length (trx_lock_deque x)) k = ACTIVE \<Longrightarrow> state (cell s (trx_lock_deque x ! k)) = ACTIVE"
    "\<exists>node. lock_table (memo s) (record_id (cell s (trx_lock_deque x ! k))) = Some node"
proof -
  have slot: "slot_good s t (trx_lock_deque x) k" using out k by (simp add: outer_good_def Let_def)
  then show "trx_lock_deque x ! k < cells s" "thread_id (cell s (trx_lock_deque x ! k)) = t"
    by (simp_all add: slot_good_def own_def)
  have "wanted (locs (base s) ! t) ! k = (record_id (cell s (trx_lock_deque x ! k)), mode (cell s (trx_lock_deque x ! k)))"
    using slot by (simp add: slot_good_def)
  then show "record_id (cell s (trx_lock_deque x ! k)) = fst (wanted (locs (base s) ! t) ! k)"
    "mode (cell s (trx_lock_deque x ! k)) = snd (wanted (locs (base s) ! t) ! k)" by simp_all
  show h: "has_head s (record_id (cell s (trx_lock_deque x ! k)))" "trx_lock_deque x ! k \<notin> fresh s"
    using slot by (auto simp: slot_good_def lf_held_def settled_def split: if_splits)
  show "expected (tpcs (base s) ! t) (length (trx_lock_deque x)) k = ACTIVE \<Longrightarrow> state (cell s (trx_lock_deque x ! k)) = ACTIVE"
    using slot by (simp add: slot_good_def lf_held_def)
  show "\<exists>node. lock_table (memo s) (record_id (cell s (trx_lock_deque x ! k))) = Some node"
    using h(1) by (auto simp: has_head_def)
qed

section \<open>Using a lock\<close>

lemma set_value_fields:
  "heap (set_value r v m) = heap m" "lock_saved_vectors (set_value r v m) = lock_saved_vectors m"
  "trx_node_table (set_value r v m) = trx_node_table m" "record_count (set_value r v m) = record_count m"
  "map_option (\<lambda>n. (head n, tail n)) (lock_table (set_value r v m) r')
    = map_option (\<lambda>n. (head n, tail n)) (lock_table m r')"
  by (simp_all add: set_value_def upd_node_def option.map_comp comp_def)

lemma lf_use_lock_ok:
  assumes good: "lf_good s" and t: "t < n_threads (base s)" and f: "fines s ! t = Idle"
    and x: "trx_node_table (memo s) t = Some x" "outer_good s t x" and pc: "tpcs (base s) ! t = Using st a"
  shows "\<exists>b. use_lock t st a (base s) = Inr b \<and> lf_good (s\<lparr>base := b\<rparr>)"
proof -
  let ?ds = "trx_lock_deque x" and ?k = "stage_no st" and ?l = "locs (base s) ! t"
  have len: "length ?ds = Suc ?k" "a = last ?ds" using x(2) pc by (simp_all add: outer_good_def Let_def)
  then have "?ds \<noteq> []" by auto
  then have a: "a = ?ds ! ?k" using len by (simp add: last_conv_nth)
  have k3: "?k < 3" by (cases st) simp_all
  have live: "live_from (tpcs (base s) ! t) (length ?ds) \<le> ?k" "expected (tpcs (base s) ! t) (length ?ds) ?k = ACTIVE" by (simp_all add: pc)
  note slot = live_slot [OF good x(2) _ live(1) k3, folded a, unfolded len(1), OF lessI]
  have act: "state (cell s a) = ACTIVE" using slot(7) live(2) len(1) by simp
  obtain node where node: "lock_table (memo s) (record_id (cell s a)) = Some node" using slot(8) by blast
  have rd: "GetRecord a (memo s) = Inr (record_value node)" by (rule GetRecord_ok) (use act node in simp_all)
  have ch: "change_and_note a d (memo s) = Inr (upd_lock a (\<lambda>l. l\<lparr>diff := d\<rparr>)
      (set_value (record_id (cell s a)) (record_value node + d) (memo s)), record_value node + d)" if "mode (cell s a) = EXCLUSIVE" for d
    using ChangeRecord_ok [of "memo s" a node d] act node that by (simp add: change_and_note_def)
  show ?thesis
  proof (cases st)
    case Find_i
    let ?b = "go t (Calling Update_j) (memo s) ((base s)\<lparr>locs := (locs (base s))[t := ?l\<lparr>record_i := record_value node\<rparr>]\<rparr>)"
    have "use_lock t st a (base s) = Inr ?b" using Find_i rd by (simp add: use_lock_def Let_def)
    moreover have "lf_good (s\<lparr>base := ?b\<rparr>)"
      by (rule outer_kept [OF good t f x(1), where pc = "Calling Update_j" and l = "?l\<lparr>record_i := record_value node\<rparr>"])
         (use len Find_i pc in \<open>auto simp: go_def wanted_def idle_pc_def\<close>)
    ultimately show ?thesis by blast
  next
    case Update_j
    let ?v = "record_value node + (record_i ?l + 1)"
    let ?m = "upd_lock a (\<lambda>l. l\<lparr>diff := record_i ?l + 1\<rparr>) (set_value (record_id (cell s a)) ?v (memo s))"
    let ?b = "go t (Calling Update_k) ?m ((base s)\<lparr>locs := (locs (base s))[t := ?l\<lparr>record_j := ?v\<rparr>]\<rparr>)"
    have "mode (cell s a) = EXCLUSIVE" using slot(4) Update_j by (simp add: wanted_def)
    then have "use_lock t st a (base s) = Inr ?b" using Update_j ch by (simp add: use_lock_def Let_def)
    moreover have "lf_good (s\<lparr>base := ?b\<rparr>)"
      by (rule outer_moved [OF good t f x(1), where a = a and pc = "Calling Update_k" and d = "record_i ?l + 1" and l = "?l\<lparr>record_j := ?v\<rparr>"])
         (use len Update_j pc slot(2) in \<open>simp_all add: go_def wanted_def idle_pc_def set_value_fields\<close>)
    ultimately show ?thesis by blast
  next
    case Update_k
    let ?v = "record_value node + - record_i ?l"
    let ?m = "upd_lock a (\<lambda>l. l\<lparr>diff := - record_i ?l\<rparr>) (set_value (record_id (cell s a)) ?v (memo s))"
    let ?b = "go t Commit_call ?m ((base s)\<lparr>locs := (locs (base s))[t := ?l\<lparr>record_k := ?v\<rparr>]\<rparr>)"
    have "mode (cell s a) = EXCLUSIVE" using slot(4) Update_k by (simp add: wanted_def)
    then have "use_lock t st a (base s) = Inr ?b" using Update_k ch by (simp add: use_lock_def Let_def)
    moreover have "lf_good (s\<lparr>base := ?b\<rparr>)"
      by (rule outer_moved [OF good t f x(1), where a = a and pc = "Commit_call" and d = "- record_i ?l" and l = "?l\<lparr>record_k := ?v\<rparr>"])
         (use len Update_k pc slot(2) in \<open>simp_all add: go_def wanted_def idle_pc_def set_value_fields\<close>)
    ultimately show ?thesis by blast
  qed
qed

section \<open>Commit and Abort\<close>

lemma commit_step_ok:
  assumes good: "lf_good s" and t: "t < n_threads (base s)" and f: "fines s ! t = Idle"
    and x: "trx_node_table (memo s) t = Some x" "outer_good s t x"
    and pc: "tpcs (base s) ! t = Commit_call \<or> (\<exists>cid n rs vs. tpcs (base s) ! t = Reading_back cid n rs vs)
      \<or> (\<exists>cid rs vs. tpcs (base s) ! t = Publishing cid rs vs) \<or> (\<exists>u n. tpcs (base s) ! t = Undoing u n)"
  shows "\<exists>b. trx_access t (base s) = Inr b \<and> lf_good (s\<lparr>base := b\<rparr>)"
proof -
  let ?ds = "trx_lock_deque x"
  have dq: "deque t m = ?ds" if "trx_node_table m = trx_node_table (memo s)" for m
    using x(1) that by (simp add: deque_def trx_of_def)
  have cnt: "count_ok (tpcs (base s) ! t) (length ?ds)" using x(2) by (simp add: outer_good_def Let_def)
  note kept = outer_kept [OF good t f x(1), where l = "locs (base s) ! t"]
  from pc show ?thesis
  proof (elim disjE exE)
    assume p: "tpcs (base s) ! t = Commit_call"
    then have len: "length ?ds = 3" using cnt by simp
    define q where "q = (if last_global_execution_order (memo s) <s global_execution_count (memo s) + 1
      then Undoing True 0 else Reading_back (global_execution_count (memo s) + 1) 0 [] [])"
    have "trx_access t (base s) = Inr (take_commit_id t (base s))" by (simp add: trx_access_def p)
    moreover have "lf_good (s\<lparr>base := take_commit_id t (base s)\<rparr>)"
      by (rule kept [where pc = q])
         (use len p in \<open>auto simp: take_commit_id_def go_def Let_def q_def undo_from_def commit_from_def dq idle_pc_def\<close>)
    ultimately show ?thesis by blast
  next
    fix cid n rs vs assume p: "tpcs (base s) ! t = Reading_back cid n rs vs"
    then have n: "length ?ds = 3" "n < 3" using cnt by simp_all
    have live: "live_from (tpcs (base s) ! t) (length ?ds) \<le> n" "expected (tpcs (base s) ! t) (length ?ds) n = ACTIVE" by (simp_all add: p)
    note slot = live_slot [OF good x(2) _ live(1) n(2), unfolded n(1), OF n(2)]
    obtain node where node: "lock_table (memo s) (record_id (cell s (?ds ! n))) = Some node" using slot(8) by blast
    have "state (cell s (?ds ! n)) = ACTIVE" using slot(7) live(2) n(1) by simp
    then have "GetRecord (?ds ! n) (memo s) = Inr (record_value node)" by (intro GetRecord_ok [OF _ node]) simp
    then have "trx_access t (base s) = Inr (go t (Releasing cid n (rs @ [record_id (cell s (?ds ! n))]) (vs @ [record_value node]))
        (memo s) (base s))" (is "_ = Inr ?b")
      by (simp add: trx_access_def p read_back_def dq Let_def)
    moreover have "lf_good (s\<lparr>base := ?b\<rparr>)"
      by (rule kept [where pc = "Releasing cid n (rs @ [record_id (cell s (?ds ! n))]) (vs @ [record_value node])"])
         (use n p in \<open>auto simp: go_def idle_pc_def\<close>)
    ultimately show ?thesis by blast
  next
    fix cid rs vs assume p: "tpcs (base s) ! t = Publishing cid rs vs"
    have "trx_access t (base s) = Inr (publish t cid rs vs (base s))" by (simp add: trx_access_def p)
    moreover have "lf_good (s\<lparr>base := publish t cid rs vs (base s)\<rparr>)"
      by (rule kept [where pc = Picking]) (use p in \<open>auto simp: publish_def go_def idle_pc_def\<close>)
    ultimately show ?thesis by blast
  next
    fix u n assume p: "tpcs (base s) ! t = Undoing u n"
    then have n: "n < length ?ds" "n < 3" using cnt by auto
    have live: "live_from (tpcs (base s) ! t) (length ?ds) \<le> n" by (simp add: p)
    note slot = live_slot [OF good x(2) n(1) live n(2)]
    let ?a = "?ds ! n"
    obtain node where node: "lock_table (memo s) (record_id (cell s ?a)) = Some node" using slot(8) by blast
    define m where "m = (if mode (cell s ?a) = EXCLUSIVE \<and> state (cell s ?a) \<noteq> OBSOLETE
      then set_value (record_id (cell s ?a)) (record_value node + - diff (cell s ?a)) (memo s) else memo s)"
    have "trx_access t (base s) = Inr (go t (Undo_release u n) m (base s))"
      using ChangeRecord_ok [OF _ _ node, of "- diff (cell s ?a)"] by (simp add: trx_access_def p undo_next_def dq m_def Let_def)
    moreover have "lf_good (s\<lparr>base := go t (Undo_release u n) m (base s)\<rparr>)"
    proof (rule kept [where pc = "Undo_release u n"])
      have "expected (Undo_release u n) (length ?ds) k = expected (tpcs (base s) ! t) (length ?ds) k" for k
        by (cases u) (simp_all add: p)
      then show "live_from (tpcs (base s) ! t) (length ?ds) \<le> k \<and>
          expected (Undo_release u n) (length ?ds) k = expected (tpcs (base s) ! t) (length ?ds) k"
        if "live_from (Undo_release u n) (length ?ds) \<le> k" for k using that p by simp
    qed (use n p cnt in \<open>auto simp: go_def idle_pc_def m_def set_value_fields\<close>)
    ultimately show ?thesis by blast
  qed
qed

section \<open>The calls\<close>

lemma call_acquire_ok:
  assumes good: "lf_good s" and t: "t < n_threads (base s)" and f: "fines s ! t = Idle"
    and x: "trx_node_table (memo s) t = Some x" "outer_good s t x" and pc: "tpcs (base s) ! t = Calling st"
  shows "outer_step t s = Inr (at_point t (In_acquire (Aq_find 0)) s)" "lf_good (at_point t (In_acquire (Aq_find 0)) s)"
proof -
  let ?s = "at_point t (In_acquire (Aq_find 0)) s"
  note tab = lf_good_parts(1) [OF good]
  have old: "conflict_lock x = None" "cond x = No_waiter" "records_ok (memo s) (locs (base s) ! t)"
    using lf_good_parts(2) [OF good t] f x pc by (simp_all add: thread_good_def idle_pc_def)
  have "GetTrxNode t (memo s) = memo s" "trx_thread_id (trx_of t (memo s)) = t"
    using x(1) table_parts(5) [OF tab] by (auto simp: GetTrxNode_def trx_of_def nodes_good_def)
  then show "outer_step t s = Inr ?s" by (simp add: outer_step_def pc resume_at_def at_point_def Let_def assert_that_def)
  have loc: "local_step t s ?s" by (rule local_point [OF tab t]) (use f in simp_all)
  have "slot_good ?s t (trx_lock_deque x) k" if "k < length (trx_lock_deque x)" for k
    by (rule steady_slot [OF local_frame [OF tab loc]])
       (use that x(2) pc in \<open>simp_all add: outer_good_def steady_same Let_def\<close>)
  then have "acquiring ?s t (Aq_find 0) st (trx_lock_deque x) x"
    using x pc old by (simp add: acquiring_def outer_good_def Let_def)
  moreover have f': "fines ?s ! t = In_acquire (Aq_find 0)" using t table_parts(10) [OF tab] by simp
  ultimately have "thread_good ?s t" unfolding thread_good_acquire [OF f'] lock_fits_def by fastforce
  then show "lf_good ?s" by (rule lf_good_local [OF good loc])
qed

lemma call_release_ok:
  assumes good: "lf_good s" and t: "t < n_threads (base s)" and f: "fines s ! t = Idle"
    and x: "trx_node_table (memo s) t = Some x" "outer_good s t x"
    and pc: "(\<exists>cid rs vs. tpcs (base s) ! t = Releasing cid n rs vs) \<or> (\<exists>u. tpcs (base s) ! t = Undo_release u n)"
  shows "outer_step t s = Inr (at_point t (In_release Rl_state) s)" "lf_good (at_point t (In_release Rl_state) s)"
proof -
  let ?s = "at_point t (In_release Rl_state) s" and ?ds = "trx_lock_deque x"
  note tab = lf_good_parts(1) [OF good]
  have pcs: "\<not> idle_pc (tpcs (base s) ! t)" "live_from (tpcs (base s) ! t) (length ?ds) = n" using pc by (auto simp: idle_pc_def)
  have old: "conflict_lock x = None" "cond x = No_waiter" "records_ok (memo s) (locs (base s) ! t)"
    using lf_good_parts(2) [OF good t] f x pcs by (simp_all add: thread_good_def)
  show "outer_step t s = Inr ?s" using pc by (auto simp: outer_step_def resume_at_def at_point_def Let_def)
  have cnt: "count_ok (tpcs (base s) ! t) (length ?ds)" using x(2) by (simp add: outer_good_def Let_def)
  have n: "n < length ?ds" "n < 3" using cnt pc by auto
  note slot = live_slot [OF good x(2) n(1) _ n(2), unfolded pcs(2), OF order_refl]
  have loc: "local_step t s ?s" by (rule local_point [OF tab t]) (use f in simp_all)
  note fr = local_frame [OF tab loc]
  have "slot_good ?s t ?ds k" if "k < length ?ds" "n \<le> k" for k
    by (rule steady_slot [OF fr]) (use that x(2) pcs(2) in \<open>simp_all add: outer_good_def steady_same Let_def\<close>)
  then have "releasing ?s t Rl_state x n"
    using x old pc cnt slot(1-3,6) by (simp add: releasing_def own_def)
  moreover have "rel_good ?s t (fst (wanted (locs (base s) ! t) ! n)) Rl_state"
    using slot(3,5) has_head_stays [OF fr] by simp
  moreover have f': "fines ?s ! t = In_release Rl_state" using t table_parts(10) [OF tab] by simp
  ultimately have "thread_good ?s t" unfolding thread_good_release [OF f'] by auto
  then show "lf_good ?s" by (rule lf_good_local [OF good loc])
qed

section \<open>A step of a thread\<close>

lemma unchecked_ok:
  assumes good: "lf_good s" and ids: "ids_left s" and t: "t < n_threads (base s)" and can: "lf_can_go t s"
  shows "\<exists>s'. lf_unchecked t s = Inr s' \<and> lf_good s'"
proof (cases "fines s ! t")
  case Idle
  have p: "tpcs (base s) ! t \<noteq> Picking" "tpcs (base s) ! t \<noteq> Finished" using can Idle by (simp_all add: lf_can_go_def)
  then obtain x where x: "trx_node_table (memo s) t = Some x" "outer_good s t x"
    using lf_good_parts(2) [OF good t] Idle by (auto simp: thread_good_def split: option.splits)
  have other: "\<exists>s'. outer_step t s = Inr s' \<and> lf_good s'"
    if "\<exists>b. trx_access t (base s) = Inr b \<and> lf_good (s\<lparr>base := b\<rparr>)" "outer_step t s = and_then (trx_access t (base s)) (\<lambda>b'. Inr (s\<lparr>base := b'\<rparr>))"
    using that by auto
  have "\<exists>s'. outer_step t s = Inr s' \<and> lf_good s'"
  proof (cases "tpcs (base s) ! t")
    case (Calling st)
    then show ?thesis using call_acquire_ok [OF good t Idle x] by blast
  next
    case (Waiting st a)
    then show ?thesis using x(2) by (simp add: outer_good_def)
  next
    case (Using st a)
    then show ?thesis using lf_use_lock_ok [OF good t Idle x Using] by (intro other) (simp_all add: outer_step_def trx_access_def)
  next
    case (Releasing cid n rs vs)
    then show ?thesis using call_release_ok [OF good t Idle x] by blast
  next
    case (Undo_release u n)
    then show ?thesis using call_release_ok [OF good t Idle x] by blast
  qed (use p commit_step_ok [OF good t Idle x] in \<open>intro other; auto simp: outer_step_def\<close>)+
  then show ?thesis using Idle by (simp add: lf_unchecked_def)
next
  case (In_acquire p)
  obtain st ds x where acq: "acquiring s t p st ds x" "acq_good s t (stage_record st (locs (base s) ! t)) p" "lock_fits s t st p"
    using lf_good_parts(2) [OF good t] unfolding thread_good_acquire [OF In_acquire] by blast
  have "\<exists>s'. lf_acquire_step t st p s = Inr s' \<and> lf_good s'"
  proof (cases "phase_of p")
    case Preparing
    then show ?thesis
      using find_step_ok [OF good t] renew_step_ok [OF good t] mode_step_ok [OF good t] In_acquire acq by (cases p) auto
  next
    case Linking
    then show ?thesis by (rule linking_step_ok [OF good ids t In_acquire acq])
  next
    case Deciding
    then show ?thesis using deciding_step_ok [OF good t In_acquire acq] can by blast
  qed (use reading_step_ok [OF good ids t In_acquire acq] in blast)+
  then show ?thesis using In_acquire acq(1) by (simp add: lf_unchecked_def acquiring_def)
next
  case (In_release p)
  then show ?thesis using releasing_step_ok [OF good t In_release can] by (simp add: lf_unchecked_def)
qed

text \<open>No access follows a pointer that is no lock or leaves a vector.\<close>

lemma search_in_range_good:
  assumes "search_good s (length w) d" and "set w \<subseteq> {..<cells s}"
  shows "search_in_range (memo s) w d"
  using assms
proof (cases d)
  case (Ds_init n q)
  then have "n = 0 \<or> w ! (n - 1) \<in> set w" using assms(1) by (auto intro!: nth_mem)
  then show ?thesis using assms Ds_init by (auto simp: in_vector_def is_lock_def)
next
  case (Ds_pop q pass)
  then show ?thesis using assms(1) by (cases q) (auto simp: is_lock_def)
qed (auto simp: is_lock_def)

lemma vetting_in_vector:
  assumes tab: "table_good s" and vet: "vetting s r a w i" "0 < i"
  shows "in_vector (memo s) w i"
proof -
  obtain k p where k: "settled s r a k" "gathered s r k w p" "p + length w = k" "i \<le> length w" using vet(1) by (auto simp: vetting_def)
  have "w ! (i - 1) = order s r ! (p + (i - 1))" "p + (i - 1) < k" using gathered_nth [OF k(2), of "i - 1"] k(3,4) vet(2) by simp_all
  moreover have "k < length (order s r)" by (rule settled_cell(3) [OF tab k(1)])
  ultimately show ?thesis using placed_cell(1) [OF tab, of "p + (i - 1)" r] vet(2) k(4) by (simp add: in_vector_def is_lock_def)
qed

lemma acq_in_range_good:
  assumes tab: "table_good s" and acq: "acq_good s t r p" and own: "\<And>a. acq_lock p = Some a \<Longrightarrow> a < cells s"
  shows "acq_in_range (memo s) t r p"
proof (cases p)
  case (Aq_find i)
  have "a < cells s" if "a \<in> set (lock_saved_vectors (memo s) t r)" for a
    using table_parts(6) [OF tab] that by (auto simp: saved_good_def)
  then show ?thesis using Aq_find by (simp add: is_lock_def)
next
  case (Aq_collect a w x)
  then obtain k q where k: "settled s r a k" "(q + length w < k \<and> x = order s r ! (q + length w)) \<or> beyond s r k x"
    using acq by (auto simp: walking_def)
  have "k < length (order s r)" by (rule settled_cell(3) [OF tab k(1)])
  then have "\<exists>j < length (order s r). x = order s r ! j" using k(2) by (auto simp: beyond_def intro: less_trans)
  then show ?thesis using own placed_cell(1) [OF tab] Aq_collect by (auto simp: is_lock_def)
next
  case (Aq_next a w x)
  then obtain k q where k: "settled s r a k" "gathered s r k w q" "w \<noteq> []" "x = last w" using acq by (auto simp: stepping_def)
  have len: "q + length w \<le> k" using k(2) by (simp add: gathered_def)
  have "k < length (order s r)" by (rule settled_cell(3) [OF tab k(1)])
  moreover have "x = order s r ! (q + (length w - 1))" using gathered_nth [OF k(2), of "length w - 1"] k(3,4) by (simp add: last_conv_nth)
  moreover have "0 < length w" using k(3) by simp
  then have "q + (length w - 1) < k" using len by linarith
  ultimately show ?thesis using placed_cell(1) [OF tab, of "q + (length w - 1)" r] Aq_next by (simp add: is_lock_def)
next
  case (Aq_search a w d)
  then show ?thesis using acq search_in_range_good by simp
qed (use acq own vetting_in_vector [OF tab] last_place_cell(1) [OF tab] in \<open>auto simp: is_lock_def own_def behind_def placed_def\<close>)

lemma rel_in_range_good:
  assumes tab: "table_good s" and rel: "rel_good s t r p" and a: "a < cells s"
  shows "rel_in_range (memo s) a p"
proof -
  have "x < cells s" if "at_head s r x" for x using that placed_cell(1) [OF tab] by (auto simp: at_head_def)
  moreover have "order s r ! j < cells s" if "readers_to s r j" for j using that placed_cell(1) [OF tab] by (auto simp: readers_to_def)
  ultimately show ?thesis using rel a last_place_cell(1) [OF tab] by (cases p) (auto simp: is_lock_def placed_def)
qed

lemma in_range_ok:
  assumes good: "lf_good s" and t: "t < n_threads (base s)"
  shows "lf_in_range t s"
proof (cases "fines s ! t")
  case Idle
  show ?thesis
  proof (cases "trx_node_table (memo s) t")
    case None
    then show ?thesis using lf_good_parts(2) [OF good t] Idle by (simp add: thread_good_def lf_in_range_def)
  next
    case (Some x)
    have out: "outer_good s t x" using lf_good_parts(2) [OF good t] Idle Some by (simp add: thread_good_def)
    have dq: "deque t (memo s) = trx_lock_deque x" using Some by (simp add: deque_def trx_of_def)
    have cnt: "count_ok (tpcs (base s) ! t) (length (trx_lock_deque x))" using out by (simp add: outer_good_def Let_def)
    have slot: "in_deque t n (memo s)"
      if "n < length (trx_lock_deque x)" "live_from (tpcs (base s) ! t) (length (trx_lock_deque x)) \<le> n" "n < 3" for n
      using that(1) live_slot(1) [OF good out that] by (simp add: in_deque_def dq is_lock_def)
    have used: "is_lock (memo s) a" if "tpcs (base s) ! t = Using st a" for st a
    proof -
      have len: "length (trx_lock_deque x) = Suc (stage_no st)" using cnt that by simp
      have "last_lock (tpcs (base s) ! t) = Some (last (trx_lock_deque x))" using out that by (simp add: outer_good_def Let_def)
      then have "a = trx_lock_deque x ! stage_no st" using len that by (cases "trx_lock_deque x" rule: rev_cases) (simp_all add: nth_append)
      then show ?thesis using slot [of "stage_no st"] len that by (cases st) (simp_all add: in_deque_def dq)
    qed
    show ?thesis using Idle cnt slot used by (cases "tpcs (base s) ! t") (auto simp: lf_in_range_def)
  qed
next
  case (In_acquire p)
  obtain st ds x where acq: "acquiring s t p st ds x" "acq_good s t (stage_record st (locs (base s) ! t)) p" "lock_fits s t st p"
    using lf_good_parts(2) [OF good t] unfolding thread_good_acquire [OF In_acquire] by blast
  then show ?thesis using acq_in_range_good [OF lf_good_parts(1) [OF good] acq(2)] In_acquire
    by (simp add: lf_in_range_def acquiring_def lock_fits_def own_def)
next
  case (In_release p)
  obtain x n where rel: "releasing s t p x n" "rel_good s t (fst (wanted (locs (base s) ! t) ! n)) p"
    using lf_good_parts(2) [OF good t] unfolding thread_good_release [OF In_release] by blast
  have "trx_lock_deque x ! n < cells s" using releasing_lock(1) [OF rel(1)] by (simp add: own_def)
  then show ?thesis using rel_in_range_good [OF lf_good_parts(1) [OF good] rel(2)] released_lock_eq [OF rel(1)] In_release
    by (simp add: lf_in_range_def)
qed

lemma access_ok:
  assumes "lf_good s" and "ids_left s" and "t < n_threads (base s)" and "lf_can_go t s"
  shows "\<exists>s'. lf_access t s = Inr s' \<and> lf_good s'"
  using unchecked_ok [OF assms] in_range_ok [OF assms(1,3)] by (simp add: lf_access_def)

section \<open>The pick and the start\<close>

lemma pick_ok:
  assumes good: "lf_good s" and t: "t < n_threads (base s)" and can: "can_pick t i j k (base s)"
  shows "lf_good (lf_pick t i j k s)"
proof -
  let ?l = "(locs (base s) ! t)\<lparr>rec_i := i, rec_j := j, rec_k := k\<rparr>" and ?s = "lf_pick t i j k s"
  note tab = lf_good_parts(1) [OF good]
  have pick: "tpcs (base s) ! t = Picking" "{i, j, k} \<subseteq> {1..record_count (memo s)}" "distinct [i, j, k]"
    using can by (auto simp: can_pick_def)
  have f: "fines s ! t = Idle" and node: "\<And>x. trx_node_table (memo s) t = Some x \<Longrightarrow> conflict_lock x = None \<and> cond x = No_waiter"
    using lf_good_parts(2) [OF good t] pick(1)
    by (auto simp: thread_good_def acquiring_good_def releasing_good_def Let_def split: option.splits fine.splits)
  obtain y where y: "trx_node_table (memo ?s) t = Some y" "conflict_lock y = None" "cond y = No_waiter"
      "trx_lock_deque y = []" "trx_thread_id y = t" "trx_node_table (memo ?s) = (trx_node_table (memo s))(t \<mapsto> y)"
  proof (cases "trx_node_table (memo s) t")
    case None
    let ?y = "(TrxNode_new t)\<lparr>trx_thread_number := thread_number (memo s), conflict_lock := None, trx_lock_deque := []\<rparr>"
    show thesis
      by (rule that [of ?y]) (use None in \<open>simp_all add: lf_pick_def pick_step_def go_def Begin_def GetTrxNode_def upd_trx_def
        TrxNode_new_def domIff fun_eq_iff\<close>)
  next
    case (Some x)
    then have "trx_thread_id x = t" using table_parts(5) [OF tab] by (simp add: nodes_good_def)
    show thesis
      by (rule that [of "x\<lparr>conflict_lock := None, trx_lock_deque := []\<rparr>"])
         (use Some node \<open>trx_thread_id x = t\<close> in \<open>auto simp: lf_pick_def pick_step_def go_def Begin_def GetTrxNode_def upd_trx_def\<close>)
  qed
  have mem: "heap (memo ?s) = heap (memo s)" "lock_saved_vectors (memo ?s) = lock_saved_vectors (memo s)"
    "lock_table (memo ?s) = lock_table (memo s)" "record_count (memo ?s) = record_count (memo s)"
    by (simp_all add: lf_pick_def pick_step_def go_def Begin_def GetTrxNode_def upd_trx_def)
  have world: "order ?s = order s" "passed ?s = passed s" "fresh ?s = fresh s" "head_mutex ?s = head_mutex s" "fines ?s = fines s"
    "tpcs (base ?s) = (tpcs (base s))[t := Calling Find_i]" "locs (base ?s) = (locs (base s))[t := ?l]"
    by (simp_all add: lf_pick_def pick_step_def go_def)
  have loc: "local_step t s ?s"
  proof (rule local_none [OF tab])
    show "same_fields t s ?s"
      using world mem y(6) by (auto simp: same_fields_def ends_of_def) (metis list_update_id)
    show "node_fits t s (trx_node_table (memo ?s) t)" using y by (simp add: node_fits_def)
  qed (use mem world in simp_all)
  have "records_ok (memo ?s) ?l"
  proof -
    have "lock_table (memo s) r \<noteq> None" if "r \<in> {i, j, k}" for r
      using that pick(2) tab unfolding table_good_def by blast
    then show ?thesis using pick(3) mem(3) by (simp add: records_ok_def wanted_def)
  qed
  then have "thread_good ?s t"
    using t table_parts(11) [OF tab] f world y by (simp add: thread_good_def outer_good_def)
  then show ?thesis by (rule lf_good_local [OF good loc])
qed

lemma start_ok:
  assumes "lf_start s"
  shows "lf_good s"
proof -
  obtain n_thr n_rec last_id where s: "s = lf_sys_new n_thr n_rec last_id Map.empty"
    using assms by (auto simp: lf_start_def)
  have mem: "heap (memo s) = []" "trx_node_table (memo s) = Map.empty" "lock_saved_vectors (memo s) = (\<lambda>t r. [])"
    "record_count (memo s) = n_rec"
    by (simp_all add: s(1) lf_sys_new_def trx_sys_new_def InitManagers_def MakeRecords_def memory_new_def)
  have tab: "lock_table (memo s) = (\<lambda>r. if r \<in> {1..n_rec} then Some (LockTableNode_new r) else None)"
    by (auto simp: s(1) lf_sys_new_def trx_sys_new_def InitManagers_def MakeRecords_table memory_new_def fun_eq_iff)
  have hist: "order s = (\<lambda>r. [])" "passed s = (\<lambda>r. 0)" "fresh s = {}" "fines s = replicate n_thr Idle"
    "tpcs (base s) = replicate n_thr Picking" "length (locs (base s)) = n_thr"
    by (simp_all add: s(1) lf_sys_new_def trx_sys_new_def)
  have "record_good s r" for r
    by (simp add: record_good_def order_good_def links_good_def ids_good_def signals_good_def passes_good_def queue_good_def
        placed_def last_place_def hist mem tab LockTableNode_new_def)
  then show ?thesis
    by (simp add: lf_good_def table_good_def nodes_good_def saved_good_def thread_good_def hist mem tab)
qed

section \<open>All runs\<close>

text \<open>A step only makes the orders longer.\<close>

lemma note_order: "\<exists>l. length l \<le> 1 \<and> order (note_insertion r p q s) r' = order s r' @ l" "order (note_release t r p' s) r' = order s r'"
proof -
  show "\<exists>l. length l \<le> 1 \<and> order (note_insertion r p q s) r' = order s r' @ l"
    by (cases p; cases q) (auto simp: note_insertion_def)
  show "order (note_release t r p' s) r' = order s r'" by (cases p') (simp_all add: note_release_def)
qed

lemma access_order:
  assumes "lf_access t s = Inr s'"
  shows "\<exists>l. length l \<le> 1 \<and> order s' r = order s r @ l"
proof (cases "fines s ! t")
  case Idle
  then have "order s' r = order s r"
    using assms by (auto simp: lf_access_Inr lf_unchecked_def outer_step_def resume_at_def Let_def and_then_Inr split: tpc.splits)
  then show ?thesis by simp
next
  case (In_acquire p)
  show ?thesis
  proof (cases "\<exists>st. tpcs (base s) ! t = Calling st")
    case True
    then obtain st where st: "tpcs (base s) ! t = Calling st" by blast
    then obtain n m where a: "AcquireLock_access t (stage_mode st) (stage_record st (locs (base s) ! t)) p (memo s) = Inr (n, m)"
      "order s' = order (note_insertion (stage_record st (locs (base s) ! t)) p n s)"
      using assms In_acquire
      by (fastforce simp: lf_access_Inr lf_unchecked_def lf_acquire_step_def resume_at_def Let_def and_then_def split: acq_next.splits sum.splits)
    then show ?thesis using note_order(1) by metis
  next
    case False
    then have "s' = s" using assms In_acquire by (auto simp: lf_access_Inr lf_unchecked_def split: tpc.splits)
    then show ?thesis by simp
  qed
next
  case (In_release p)
  then have "order s' r = order s r"
    using assms note_order(2)
    by (auto simp: lf_access_Inr lf_unchecked_def lf_release_step_def release_return_def resume_at_def Let_def and_then_Inr split: if_splits tpc.splits)
  then show ?thesis by simp
qed

lemma act_order: "lf_act e s s' \<Longrightarrow> \<exists>l. length l \<le> 1 \<and> order s' r = order s r @ l"
  by (cases rule: lf_act.cases) (auto simp: lf_pick_def dest!: access_order [of _ _ _ r])

lemma act_ids_left: "lf_act e s s' \<Longrightarrow> ids_left s' \<Longrightarrow> ids_left s"
  unfolding ids_left_def
proof (intro allI)
  fix r assume "lf_act e s s'" and left: "\<forall>r. length (order s' r) < 2 ^ 64"
  then obtain l where "order s' r = order s r @ l" using act_order by blast
  moreover have "length (order s' r) < 2 ^ 64" using left by blast
  ultimately show "length (order s r) < 2 ^ 64" by simp
qed

lemma act_ok:
  assumes "lf_act e s s'" and "\<forall>t. e \<noteq> Spurious t" and "ids_left s" and good: "lf_good s"
  shows "lf_good s'"
  using assms(1)
proof (cases rule: lf_act.cases)
  case (lf_act_go t)
  then show ?thesis using access_ok [OF good assms(3)] by fastforce
qed (use assms(2) pick_ok [OF good] in auto)

interpretation lf_locking: machine_invariant lf_start lf_step "\<lambda>s. ids_left s \<longrightarrow> lf_good s"
proof
  show "ids_left s \<longrightarrow> lf_good s" if "lf_start s" for s using start_ok [OF that] by blast
  show "ids_left s' \<longrightarrow> lf_good s'" if "ids_left s \<longrightarrow> lf_good s" "lf_step s s'" for s s'
    using that act_ok act_ids_left unfolding lf_step_def by blast
qed

end
