(* ===== verification/LfService.thy ===== *)
theory LfService
  imports LfOuter TrxSerial
begin

text \<open>
  The lock manager without the global mutex is a lock service: its invariant gives the
  two-phase contract, every access inside \<open>AcquireLock\<close> or \<open>ReleaseLock\<close> is a step inside
  the lock manager, and the other accesses are those of the version with the mutex. The runs
  considered are those in which no record sees \<open>2^64\<close> locks.
\<close>

section \<open>The contract\<close>

text \<open>A lock that a call returned and that is not being released.\<close>

lemma granted_slot:
  assumes good: "lf_good s" and t: "t < n_threads (base s)" "trx_node_table (memo s) t \<noteq> None"
  defines "ds \<equiv> deque t (memo s)" and "p \<equiv> tpcs (base s) ! t"
  assumes k: "k < granted_to p (length ds)" "live_from p (length ds) \<le> k"
    and kept: "kept_from p (length ds) \<le> k \<or> state (cell s (ds ! k)) \<noteq> OBSOLETE"
  shows "slot_good s t ds k"
proof -
  obtain x where x: "trx_node_table (memo s) t = Some x" "ds = trx_lock_deque x"
    using t(2) by (auto simp: ds_def deque_def trx_of_def)
  show ?thesis
  proof (cases "fines s ! t")
    case Idle
    then have out: "outer_good s t x" using lf_good_parts(2) [OF good t(1)] x by (simp add: thread_good_def)
    then have "k < length ds"
      using k(1) x(2) by (cases p) (simp_all add: granted_to_def outer_good_def Let_def p_def)
    then show ?thesis using k(2) out x(2) by (simp add: outer_good_def Let_def p_def)
  next
    case (In_acquire q)
    obtain st es y where acq: "acquiring s t q st es y"
      using lf_good_parts(2) [OF good t(1)] unfolding thread_good_acquire [OF In_acquire] by blast
    then have y: "y = x" "k < length es" using x k(1) by (simp_all add: acquiring_def granted_to_def p_def)
    then have "slot_good s t es k" using acq by (simp add: acquiring_def)
    moreover have "ds ! k = es ! k" "expected p (length es) k = expected p (length ds) k"
      using acq y x(2) by (simp_all add: acquiring_def nth_append p_def)
    ultimately show ?thesis by (simp add: slot_good_def p_def)
  next
    case (In_release q)
    obtain y n where rel: "releasing s t q y n"
      using lf_good_parts(2) [OF good t(1)] unfolding thread_good_release [OF In_release] by blast
    have y: "y = x" using x releasing_lock(3) [OF rel] by simp
    have p: "(\<exists>cid rs vs. p = Releasing cid n rs vs) \<or> (\<exists>f. p = Undo_release f n)" using rel by (simp add: releasing_def Let_def p_def)
    then have n: "n \<le> k" "k < length ds" using k by (auto simp: granted_to_def)
    have "n = k \<Longrightarrow> q = Rl_state" using p kept releasing_lock(6) [OF rel] y x(2) by auto
    moreover have "\<forall>k < length ds. (if q = Rl_state then n \<le> k else n < k) \<longrightarrow> slot_good s t ds k"
      using rel y x(2) by (simp add: releasing_def Let_def)
    ultimately show ?thesis using n by (cases "n = k") simp_all
  qed
qed

lemma lf_held_compatible:
  assumes good: "lf_good s" and a: "lf_held s t a" and b: "lf_held s u b" and tu: "t \<noteq> u" and r: "record_id (cell s a) = record_id (cell s b)"
  shows "mode (cell s a) = SHARED \<and> mode (cell s b) = SHARED"
proof -
  let ?r = "record_id (cell s a)"
  have pos: "\<exists>k. placed s ?r c k \<and> clear_to s ?r k \<and> \<not> gone s ?r k \<and> order s ?r ! k = c"
    if c: "lf_held s v c" "record_id (cell s c) = ?r" for c v
  proof -
    obtain k where k: "settled s ?r c k" "clear_to s ?r k" "c \<notin> fresh s" "state (cell s c) = ACTIVE" using c by (auto simp: lf_held_def)
    then have l: "last_place (order s ?r) c k" by (simp add: settled_def placed_def)
    then have "order s ?r ! k = c" by (rule last_place_nth)
    then show ?thesis using k l by (intro exI [of _ k]) (simp add: settled_def gone_def present_def)
  qed
  obtain j where j: "placed s ?r a j" "clear_to s ?r j" "\<not> gone s ?r j" "order s ?r ! j = a" using pos [OF a refl] by blast
  obtain k where k: "placed s ?r b k" "clear_to s ?r k" "\<not> gone s ?r k" "order s ?r ! k = b" using pos [OF b] r by auto
  have "a \<noteq> b" using a b tu by (auto simp: lf_held_def)
  then have "j \<noteq> k" using j(4) k(4) by auto
  then show ?thesis using j k by (cases "j < k") (auto simp: clear_to_def passable_def shared_at_def linorder_not_less le_less)
qed

lemma lf_thread_kept:
  assumes good: "lf_good s" and t: "t < n_threads (base s)" "tpcs (base s) ! t \<noteq> Picking"
  shows "thread_kept (base s) t"
proof -
  let ?p = "tpcs (base s) ! t" and ?ds = "deque t (memo s)"
  obtain x where x: "trx_node_table (memo s) t = Some x" "?ds = trx_lock_deque x"
    using lf_good_parts(2) [OF good t(1)] t(2) by (auto simp: thread_good_def deque_def trx_of_def split: option.splits)
  have "count_near ?p (length ?ds) \<and> (last_lock ?p \<noteq> None \<longrightarrow> last_lock ?p = Some (last ?ds)) \<and> conflict_of ?p = None"
  proof (cases "fines s ! t")
    case Idle
    then show ?thesis using lf_good_parts(2) [OF good t(1)] x by (simp add: thread_good_def outer_good_def count_near_def Let_def)
  next
    case (In_acquire q)
    obtain st es y where "acquiring s t q st es y"
      using lf_good_parts(2) [OF good t(1)] unfolding thread_good_acquire [OF In_acquire] by blast
    then show ?thesis using x by (auto simp: acquiring_def count_near_def split: option.splits)
  next
    case (In_release q)
    obtain y n where "releasing s t q y n"
      using lf_good_parts(2) [OF good t(1)] unfolding thread_good_release [OF In_release] by blast
    then show ?thesis using x by (auto simp: releasing_def count_near_def Let_def)
  qed
  moreover have "\<not> idle_pc ?p \<longrightarrow> records_ok (memo s) (locs (base s) ! t)"
    using lf_good_parts(2) [OF good t(1)] x(1) by (simp add: thread_good_def)
  moreover have "slot_fine (memo s) ?p (locs (base s) ! t) t ?ds k"
    if k: "k < granted_to ?p (length ?ds)" "kept_from ?p (length ?ds) \<le> k" for k
  proof -
    have slot: "slot_good s t ?ds k"
      by (rule granted_slot [OF good t(1)]) (use x k order_trans [OF kept_from_live k(2)] in simp_all)
    have "expected ?p (length ?ds) k \<noteq> WAIT" using \<open>count_near _ _ \<and> _\<close>
      by (cases "(?p, length ?ds, k)" rule: expected.cases) auto
    then have "state (cell s (?ds ! k)) = expected ?p (length ?ds) k"
      using slot by (cases "expected ?p (length ?ds) k") (auto simp: slot_good_def lf_held_def)
    then show ?thesis using slot by (simp add: slot_good_def slot_fine_def own_def)
  qed
  ultimately show ?thesis using x(1) by (simp add: thread_kept_def Let_def)
qed

lemma held_at_held:
  assumes good: "lf_good s" and held: "held_at (base s) t k"
  shows "lf_held s t (deque t (memo s) ! k)"
    "(record_id (cell s (deque t (memo s) ! k)), mode (cell s (deque t (memo s) ! k))) = wanted (locs (base s) ! t) ! k"
proof -
  let ?p = "tpcs (base s) ! t" and ?ds = "deque t (memo s)"
  have t: "t < n_threads (base s)" "?p \<noteq> Picking" and k: "k < granted_to ?p (length ?ds)" "kept_from ?p (length ?ds) \<le> k"
    "expected ?p (length ?ds) k = ACTIVE" using held by (simp_all add: held_at_def Let_def)
  have "trx_node_table (memo s) t \<noteq> None" using lf_thread_kept [OF good t] by (simp add: thread_kept_def Let_def)
  then have "slot_good s t ?ds k"
    by (intro granted_slot [OF good t(1)]) (use k order_trans [OF kept_from_live k(2)] in simp_all)
  then show "lf_held s t (?ds ! k)" "(record_id (cell s (?ds ! k)), mode (cell s (?ds ! k))) = wanted (locs (base s) ! t) ! k"
    using k(3) by (simp_all add: slot_good_def)
qed

lemma lf_two_phase:
  assumes good: "lf_good s"
  shows "two_phase (base s)"
proof -
  have "held_apart (base s) t k u k'" if held: "held_at (base s) t k" "held_at (base s) u k'" and "t \<noteq> u" for t u k k'
    using lf_held_compatible [OF good held_at_held(1) [OF good held(1)] held_at_held(1) [OF good held(2)] that(3)]
      held_at_held(2) [OF good held(1)] held_at_held(2) [OF good held(2)]
    by (metis fst_conv held_apart_def snd_conv)
  moreover have "length (locs (base s)) = n_threads (base s)" using table_parts [OF lf_good_parts(1) [OF good]] by simp
  ultimately show ?thesis using lf_thread_kept [OF good] unfolding two_phase_def by blast
qed

section \<open>What the accesses leave alone\<close>

text \<open>
  An access inside the lock manager: no value, no counter of the transactions, no thread
  number, no other thread's deque, and no \<open>diff\<close> but that of the lock that is renewed.
\<close>

definition inside :: "nat \<Rightarrow> nat list \<Rightarrow> nat option \<Rightarrow> memory \<Rightarrow> memory \<Rightarrow> bool" where
  "inside t l c m m' \<longleftrightarrow>
     same_data m m' \<and> (\<forall>u. deque u m' = (if u = t then deque t m @ l else deque u m))
     \<and> (\<forall>b < length (heap m). Some b \<noteq> c \<longrightarrow> diff (lk m' b) = diff (lk m b))"

lemma inside_refl [simp]: "inside t [] c m m"
  by (simp add: inside_def same_data_def)

lemma inside_upd_lock: "(\<forall>l. diff (f l) = diff l) \<or> c = Some a \<Longrightarrow> inside t [] c m (upd_lock a f m)"
  by (auto simp: inside_def same_data_def values_of_def number_of_def deque_def trx_of_def fun_eq_iff nth_upd)

lemma inside_upd_node: "(\<And>n. record_value (g n) = record_value n) \<Longrightarrow> inside t [] c m (upd_node r g m)"
  by (auto simp: inside_def same_data_def values_of_def number_of_def deque_def trx_of_def fun_eq_iff option.map_comp comp_def)

lemma inside_upd_trx:
  "(\<And>x. trx_thread_number (k x) = trx_thread_number x \<and> trx_lock_deque (k x) = trx_lock_deque x) \<Longrightarrow>
    inside t [] c m (upd_trx u k m)"
  by (auto simp: inside_def same_data_def values_of_def number_of_def deque_def trx_of_def fun_eq_iff option.map_comp comp_def
      TrxNode_new_def split: option.splits)

lemma inside_trans: "inside t [] c m m' \<Longrightarrow> inside t l c m' m'' \<Longrightarrow> length (heap m') = length (heap m) \<Longrightarrow> inside t l c m m''"
  by (auto simp: inside_def same_data_def)

lemma prepare_inside:
  assumes "trx_node_table m me \<noteq> None" and "phase_of p = Preparing"
  shows "inside me (case p of Aq_mode a \<Rightarrow> [a] | _ \<Rightarrow> []) (case p of Aq_renew a n \<Rightarrow> Some a | _ \<Rightarrow> None) m
    (snd (prepare_step me md r p m))"
proof (cases p)
  case (Aq_find i)
  have "inside me [] None m (allocate me r m)"
    by (auto simp: inside_def allocate_def same_data_def values_of_def number_of_def globals_def deque_def trx_of_def fun_eq_iff nth_append)
  then show ?thesis using Aq_find by (simp add: prepare_step_def Let_def)
next
  case (Aq_renew a n)
  have "inside me [] (Some a) m (upd_lock a (renew n) m)" by (rule inside_upd_lock) simp
  moreover have "inside me [] (Some a) m' (count_recycled me m')" for m'
    by (auto simp: inside_def count_recycled_def same_data_def values_of_def number_of_def globals_def deque_def trx_of_def fun_eq_iff)
  ultimately show ?thesis using Aq_renew inside_trans by (simp add: prepare_step_def)
next
  case (Aq_mode a)
  have "inside me [] None m (count_lock me m)"
    by (auto simp: inside_def count_lock_def same_data_def values_of_def number_of_def globals_def deque_def trx_of_def fun_eq_iff)
  moreover have "inside me [] None (count_lock me m) (upd_lock a (\<lambda>l. l\<lparr>mode := md\<rparr>) (count_lock me m))"
    by (rule inside_upd_lock) simp
  moreover have "inside me [a] None m' (upd_trx me (\<lambda>x. x\<lparr>trx_lock_deque := trx_lock_deque x @ [a]\<rparr>) m')"
    if "trx_node_table m' me \<noteq> None" for m'
    using that by (auto simp: inside_def same_data_def values_of_def number_of_def deque_def trx_of_def fun_eq_iff option.map_comp comp_def)
  ultimately show ?thesis using Aq_mode assms(1) inside_trans
    by (simp add: prepare_step_def count_lock_def)
qed (use assms in simp_all)

lemma link_inside:
  assumes "link_step me r p m = Inr (p', m')"
  shows "inside me [] None m m'"
  using assms
  by (auto simp: link_step_def split: acq.splits if_splits intro!: inside_upd_lock inside_upd_node inside_upd_trx)

lemma search_inside:
  assumes "search_access me w d m = Inr (d', m')"
    and "\<And>q pass u. d = Ds_conflict q pass u \<Longrightarrow> trx_node_table m u \<noteq> None"
  shows "inside t [] None m m'"
proof -
  have "m' = m" using assms
    by (cases "(me, w, d, m)" rule: search_access.cases) (auto simp: GetTrxNode_def Let_def domIff split: list.splits option.splits)
  then show ?thesis by simp
qed

lemma decide_inside: "inside me [] None m (snd (decide_step me p m))"
proof -
  have "inside me [] None m (set_state a st m)" for a st m unfolding set_state_def by (rule inside_upd_lock) simp
  moreover have "inside me [] None m (clear_conflict me m)" for m unfolding clear_conflict_def by (rule inside_upd_trx) simp
  moreover have "inside me [] None m (upd_trx me (\<lambda>x. x\<lparr>cond := v\<rparr>) m)" for v m by (rule inside_upd_trx) simp
  moreover have "inside me [] None m (upd_trx me (\<lambda>x. x\<lparr>cond := v\<rparr>) (set_state a st m))" for v a st
    by (rule inside_trans [of _ _ _ "set_state a st m"]) (use calculation in \<open>simp_all add: set_state_def\<close>)
  ultimately show ?thesis by (simp add: decide_step_def split: acq.splits)
qed

lemma wake_inside:
  assumes "trx_node_table m (thread_id (lk m a)) \<noteq> None"
  shows "inside t [] None m (wake a m)"
proof -
  have "GetTrxNode (thread_id (lk m a)) m = m" using assms by (auto simp: GetTrxNode_def)
  moreover define m1 where "m1 = (if state (lk m a) = WAIT
    then upd_trx (thread_id (lk m a)) (\<lambda>x. x\<lparr>cond := notify_one (cond x)\<rparr>) m else m)"
  ultimately have w: "wake a m = upd_lock a (\<lambda>l. l\<lparr>signal_flag := True\<rparr>) m1" by (simp add: wake_def Let_def)
  have "inside t [] None m m1" "length (heap m1) = length (heap m)" by (simp_all add: m1_def inside_upd_trx)
  moreover have "inside t [] None m1 (upd_lock a (\<lambda>l. l\<lparr>signal_flag := True\<rparr>) m1)" by (rule inside_upd_lock) simp
  ultimately show ?thesis unfolding w by (blast intro: inside_trans)
qed

lemma release_inside:
  assumes "ReleaseLock_access a p m = Inr (p', m')"
    and "\<And>x. p = Rl_wake x \<or> p = Rl_signal x \<Longrightarrow> trx_node_table m (thread_id (lk m x)) \<noteq> None"
  shows "inside t [] None m m'"
proof (cases "\<exists>x. p = Rl_wake x \<or> p = Rl_signal x")
  case True
  then show ?thesis using assms wake_inside by (auto simp: ReleaseLock_access_def Let_def)
next
  case False
  have st: "inside t [] None m (set_state a OBSOLETE m)" unfolding set_state_def by (rule inside_upd_lock) simp
  have hd: "inside t [] None m (upd_node r (\<lambda>n. n\<lparr>head := Some x\<rparr>) m)" for r x by (rule inside_upd_node) simp
  have "inside t [] None m (upd_lock y (\<lambda>l. l\<lparr>head_pass_flag := True\<rparr>) m)" for y by (rule inside_upd_lock) simp
  then show ?thesis using False assms(1) st hd
    by (cases p) (auto simp: ReleaseLock_access_def Let_def)
qed

section \<open>The accesses as steps of the service\<close>

lemma inside_move:
  assumes good: "lf_good s" and t: "t < n_threads (base s)" "tpcs (base s) ! t \<noteq> Picking"
    and mem: "inside t l c (memo s) (mem b)" "l \<noteq> [] \<longrightarrow> (\<exists>st. tpcs (base s) ! t = Calling st)"
    and c: "\<And>a. c = Some a \<Longrightarrow> a \<in> fresh s \<or> state (cell s a) = OBSOLETE"
    and pc: "tpcs b = tpcs (base s) \<or> (\<exists>p. call_returns (tpcs (base s) ! t) (deque t (mem b)) p \<and> tpcs b = (tpcs (base s))[t := p])"
    and same: "locs b = locs (base s)" "files b = files (base s)" "committed b = committed (base s)" "writers b = writers (base s)"
  shows "lock_move t (base s) b"
proof -
  have "diff (lk (mem b) (deque u (memo s) ! k)) = diff (lk (memo s) (deque u (memo s) ! k))" if "held_at (base s) u k" for u k
    using held_at_held(1) [OF good that] c mem(1) by (auto simp: lf_held_def inside_def)
  then show ?thesis using t(2) mem pc same by (auto simp: lock_move_def inside_def)
qed

lemma acquire_inside:
  assumes acq: "acquiring s t p st ds x" and q: "acq_good s t r p"
    and step: "AcquireLock_access t md r p (memo s) = Inr (n, m')"
  shows "inside t (case p of Aq_mode a \<Rightarrow> [a] | _ \<Rightarrow> []) (case p of Aq_renew a n \<Rightarrow> Some a | _ \<Rightarrow> None) (memo s) m'"
proof -
  have node: "trx_node_table (memo s) t \<noteq> None" using acq by (simp add: acquiring_def)
  show ?thesis
  proof (cases "phase_of p")
    case Preparing
    then have "m' = snd (prepare_step t md r p (memo s))"
      using step by (cases "prepare_step t md r p (memo s)") (simp add: AcquireLock_access_def)
    then show ?thesis using prepare_inside [OF node Preparing, of md r] by simp
  next
    case Linking
    then have "\<exists>p'. link_step t r p (memo s) = Inr (p', m')" using step by (auto simp: AcquireLock_access_def)
    then show ?thesis using link_inside Linking by (cases p) auto
  next
    case Walking
    then have "m' = memo s" using step by (auto simp: AcquireLock_access_def)
    then show ?thesis using Walking by (cases p) simp_all
  next
    case Searching
    then obtain a w d where p: "p = Aq_search a w d" by (cases p) simp_all
    then obtain d' where d: "search_access t w d (memo s) = Inr (d', m')" using step by (auto simp: AcquireLock_access_def)
    have "inside t [] None (memo s) m'" by (rule search_inside [OF d]) (use q p in auto)
    then show ?thesis by (simp add: p)
  next
    case Deciding
    then have "m' = snd (decide_step t p (memo s))" using step by (simp add: AcquireLock_access_def)
    then show ?thesis using decide_inside Deciding by (cases p) simp_all
  qed
qed

text \<open>The call returns with its lock, or with a null pointer, when the lock is the last of the deque.\<close>

lemma acquire_returns:
  assumes acq: "acquiring s t p st ds x" and step: "AcquireLock_access t md r p (memo s) = Inr (n, m')"
  shows "n = Aq_got a \<Longrightarrow> call_returns (Calling st) (deque t m') (Using st a)"
    "n = Aq_null \<Longrightarrow> call_returns (Calling st) (deque t m') (undo_from False 0 (deque t m'))"
proof -
  have "phase_of p = Deciding" if "\<And>q. n \<noteq> Aq_on q"
    using step that
    by (cases "phase_of p"; cases "prepare_step t md r p (memo s)") (auto simp: AcquireLock_access_def split: acq.splits)
  then have dec: "decide_step t p (memo s) = (n, m')" if "\<And>q. n \<noteq> Aq_on q"
    using step that by (simp add: AcquireLock_access_def)
  have on: "n = Aq_got a \<Longrightarrow> p = Aq_clear a" "n = Aq_null \<Longrightarrow> \<exists>a'. p = Aq_refused a'" for a
    using dec by (cases p; auto simp: decide_step_def split: if_splits)+
  have dq: "deque t (memo s) = ds @ [a']" if "p = Aq_clear a' \<or> p = Aq_refused a'" for a'
    using acq that by (auto simp: acquiring_def deque_def trx_of_def)
  have ds: "length ds = stage_no st" using acq by (simp add: acquiring_def)
  have "deque t m' = deque t (memo s)" if "p = Aq_clear a' \<or> p = Aq_refused a'" for a'
    using that step decide_inside [of t "memo s" p] by (auto simp: AcquireLock_access_def inside_def)
  then show "n = Aq_got a \<Longrightarrow> call_returns (Calling st) (deque t m') (Using st a)"
    "n = Aq_null \<Longrightarrow> call_returns (Calling st) (deque t m') (undo_from False 0 (deque t m'))"
    using on dq ds by fastforce+
qed

lemma lf_acquire_move:
  assumes good: "lf_good s" and t: "t < n_threads (base s)" and f: "fines s ! t = In_acquire p"
    and pc: "tpcs (base s) ! t = Calling st" and step: "lf_acquire_step t st p s = Inr s'"
  shows "lock_move t (base s) (base s')"
proof -
  let ?r = "stage_record st (locs (base s) ! t)"
  obtain ds x where acq: "acquiring s t p st ds x" and q: "acq_good s t ?r p"
    using lf_good_parts(2) [OF good t] pc unfolding thread_good_acquire [OF f] by (auto simp: acquiring_def)
  obtain n m where a: "AcquireLock_access t (stage_mode st) ?r p (memo s) = Inr (n, m)"
    and s': "s' = (case n of Aq_on q \<Rightarrow> resume_at t (In_acquire q) ((base s)\<lparr>mem := m\<rparr>) (note_insertion ?r p n s)
      | Aq_got a \<Rightarrow> resume_at t Idle (go t (Using st a) m (base s)) (note_insertion ?r p n s)
      | Aq_null \<Rightarrow> resume_at t Idle (go t (undo_from False 0 (deque t m)) m (base s)) (note_insertion ?r p n s))"
    using step unfolding lf_acquire_step_def Let_def by auto
  have b: "base s' = (case n of Aq_on q \<Rightarrow> (base s)\<lparr>mem := m\<rparr> | Aq_got a \<Rightarrow> go t (Using st a) m (base s)
      | Aq_null \<Rightarrow> go t (undo_from False 0 (deque t m)) m (base s))"
    by (simp add: s' resume_at_def split: acq_next.splits)
  note io = acquire_inside [OF acq q a]
  have n: "mem (base s') = m" "locs (base s') = locs (base s)" "files (base s') = files (base s)"
    "committed (base s') = committed (base s)" "writers (base s') = writers (base s)"
    by (simp_all add: b split: acq_next.splits)
  show ?thesis
  proof (rule inside_move [OF good t _ io [folded n(1)]])
    show "a \<in> fresh s \<or> state (cell s a) = OBSOLETE" if "(case p of Aq_renew a n \<Rightarrow> Some a | _ \<Rightarrow> None) = Some a" for a
      using that q by (auto simp: renewed_def recyclable_def split: acq.splits if_splits)
    show "tpcs (base s') = tpcs (base s) \<or> (\<exists>p. call_returns (tpcs (base s) ! t) (deque t (mem (base s'))) p
        \<and> tpcs (base s') = (tpcs (base s))[t := p])"
      using acquire_returns [OF acq a] unfolding n(1) pc by (cases n) (auto simp: b)
  qed (use pc n in simp_all)
qed

lemma lf_release_move:
  assumes good: "lf_good s" and t: "t < n_threads (base s)" and f: "fines s ! t = In_release p"
    and step: "lf_release_step t (released_lock t (base s)) p s = Inr s'"
  shows "lock_move t (base s) (base s')"
proof -
  obtain x n where rel: "releasing s t p x n" and q: "rel_good s t (fst (wanted (locs (base s) ! t) ! n)) p"
    using lf_good_parts(2) [OF good t] unfolding thread_good_release [OF f] by blast
  have pc: "(\<exists>cid rs vs. tpcs (base s) ! t = Releasing cid n rs vs) \<or> (\<exists>f. tpcs (base s) ! t = Undo_release f n)"
    using rel by (simp add: releasing_def Let_def)
  then have pick: "tpcs (base s) ! t \<noteq> Picking" by auto
  show ?thesis
  proof (cases "p = Rl_unlock")
    case True
    then have "s' = release_return t (s\<lparr>head_mutex := (head_mutex s)(record_id (cell s (released_lock t (base s))) := None)\<rparr>)"
      using step by (simp add: lf_release_step_def Let_def)
    then obtain p' where b: "call_returns (tpcs (base s) ! t) (deque t (memo s)) p'" "tpcs (base s') = (tpcs (base s))[t := p']"
      "mem (base s') = memo s" "locs (base s') = locs (base s)" "files (base s') = files (base s)"
      "committed (base s') = committed (base s)" "writers (base s') = writers (base s)"
      using pc by (auto simp: release_return_def resume_at_def Let_def go_def finish_thread_def)
    show ?thesis
      by (rule inside_move [OF good t pick, of "[]" None]) (use b in auto)
  next
    case False
    then obtain p' m where a: "ReleaseLock_access (released_lock t (base s)) p (memo s) = Inr (p', m)"
      and b: "base s' = (base s)\<lparr>mem := m\<rparr>"
      using step by (auto simp: lf_release_step_def Let_def resume_at_def note_release_def)
    have node: "trx_node_table (memo s) (thread_id (cell s y)) \<noteq> None" if "p = Rl_wake y \<or> p = Rl_signal y" for y
    proof -
      have "y < cells s"
        using that q placed_cell(1) [OF lf_good_parts(1) [OF good]] by (auto simp: at_head_def readers_to_def)
      then show ?thesis using table_parts(7) [OF lf_good_parts(1) [OF good]] by (simp add: cell_good_def Let_def)
    qed
    show ?thesis
      by (rule inside_move [OF good t pick, of "[]" None]) (use release_inside [OF a node, of t] b in auto)
  qed
qed

lemma lf_outer_move:
  assumes good: "lf_good s" and t: "t < n_threads (base s)" and f: "fines s ! t = Idle"
    and pc: "tpcs (base s) ! t \<noteq> Picking" "tpcs (base s) ! t \<noteq> Finished" and step: "outer_step t s = Inr s'"
  shows "lock_move t (base s) (base s') \<or> data_move t (base s) (base s')"
proof -
  obtain x where x: "trx_node_table (memo s) t = Some x" "outer_good s t x"
    using lf_good_parts(2) [OF good t] f pc(1) by (auto simp: thread_good_def split: option.splits)
  have "GetTrxNode t (memo s) = memo s" using x(1) by (auto simp: GetTrxNode_def)
  then have still: "base s' = base s" if "\<not> data_pc (tpcs (base s) ! t)"
    using that step pc x(2) by (cases "tpcs (base s) ! t") (auto simp: outer_step_def resume_at_def Let_def outer_good_def)
  have "lock_move t (base s) (base s)"
    by (rule inside_move [OF good t pc(1), of "[]" None]) simp_all
  moreover have "trx_access t (base s) = Inr (base s')" if "data_pc (tpcs (base s) ! t)"
    using that step by (cases "tpcs (base s) ! t") (auto simp: outer_step_def)
  ultimately show ?thesis using still by (cases "data_pc (tpcs (base s) ! t)") (auto simp: data_move_def)
qed

section \<open>The service\<close>

text \<open>The machine with at most \<open>2^64\<close> locks on a record.\<close>

definition lf_step_bounded :: "lf_sys \<Rightarrow> lf_sys \<Rightarrow> bool" where
  "lf_step_bounded s s' \<longleftrightarrow> lf_step s s' \<and> ids_left s'"

lemma lf_reach_bounded:
  assumes "lf_reach s" and "ids_left s"
  shows "reach lf_start lf_step_bounded s"
  using assms
proof (induction rule: reach.induct)
  case (reach_start s)
  then show ?case by (blast intro: reach.reach_start)
next
  case (reach_next s t)
  then obtain e where "lf_act e s t" unfolding lf_step_def by blast
  then have "ids_left s" using reach_next.prems by (rule act_ids_left)
  then have "reach lf_start lf_step_bounded s" by (rule reach_next.IH)
  moreover have "lf_step_bounded s t" using reach_next.hyps(2) reach_next.prems by (simp add: lf_step_bounded_def)
  ultimately show ?case by (rule reach.reach_next)
qed

lemma lf_service_step:
  assumes good: "lf_good s" and step: "lf_step s s'"
  shows "service_step (base s) (base s')"
proof -
  obtain e where e: "lf_act e s s'" "\<forall>t. e \<noteq> Spurious t" using step unfolding lf_step_def by blast
  show ?thesis
    using e(1)
  proof (cases rule: lf_act.cases)
    case (lf_act_pick t i j k)
    then show ?thesis unfolding service_step_def lf_pick_def by auto
  next
    case (lf_act_go t)
    have "lock_move t (base s) (base s') \<or> data_move t (base s) (base s')"
    proof (cases "fines s ! t")
      case Idle
      then show ?thesis using lf_outer_move [OF good lf_act_go(2) Idle] lf_act_go(3,4) by (simp add: lf_can_go_def lf_access_Inr lf_unchecked_def)
    next
      case (In_acquire p)
      then obtain st where "tpcs (base s) ! t = Calling st"
        using lf_good_parts(2) [OF good lf_act_go(2)] unfolding thread_good_acquire [OF In_acquire] by (auto simp: acquiring_def)
      then show ?thesis using lf_acquire_move [OF good lf_act_go(2) In_acquire] lf_act_go(4) In_acquire by (simp add: lf_access_Inr lf_unchecked_def)
    next
      case (In_release p)
      then show ?thesis using lf_release_move [OF good lf_act_go(2) In_release] lf_act_go(4) by (simp add: lf_access_Inr lf_unchecked_def)
    qed
    then show ?thesis unfolding service_step_def using lf_act_go(2) by blast
  next
    case (lf_act_spurious t a)
    then show ?thesis using e(2) by blast
  qed
qed

interpretation lf_service: lock_service lf_start lf_step_bounded "\<lambda>s. ids_left s \<and> lf_good s" base
proof unfold_locales
  show "ids_left s \<and> lf_good s" if "lf_start s" for s
    using that start_ok [OF that] by (auto simp: ids_left_def lf_start_def lf_sys_new_def)
  show "ids_left t \<and> lf_good t" if "ids_left s \<and> lf_good s" "lf_step_bounded s t" for s t
    using that act_ok unfolding lf_step_bounded_def lf_step_def by blast
  show "trx_start (base s)" if start: "lf_start s" for s
  proof -
    obtain n_thr n_rec last_id where "sizes_ok n_thr n_rec last_id"
      and s: "s = lf_sys_new n_thr n_rec last_id Map.empty"
      using start unfolding lf_start_def by blast
    moreover have "base s = trx_sys_new n_thr n_rec last_id Map.empty" by (simp add: s lf_sys_new_def)
    ultimately show ?thesis unfolding trx_start_def by blast
  qed
  show "two_phase (base s)" if "ids_left s \<and> lf_good s" for s using that lf_two_phase by blast
  show "service_step (base s) (base t)" if "ids_left s \<and> lf_good s" "lf_step_bounded s t" for s t
    using that lf_service_step unfolding lf_step_bounded_def by blast
qed

end
