(* ===== verification/LfProps.thy ===== *)
theory LfProps
  imports LfService TrxProps
begin

text \<open>
  The properties of the lock manager without the global mutex, in all runs in which no
  record sees \<open>2^64\<close> locks, and the runs that witness them.
\<close>

lemma reach_good: "lf_reach s \<Longrightarrow> ids_left s \<Longrightarrow> lf_good s"
  using lf_locking.always by blast

section \<open>Definitions of the properties\<close>

text \<open>The locks a transaction has been given and has not released.\<close>

definition holding :: "lf_sys \<Rightarrow> nat \<Rightarrow> nat \<Rightarrow> bool" where
  "holding s t a \<longleftrightarrow>
     t < n_threads (base s) \<and> trx_node_table (memo s) t \<noteq> None
     \<and> (let ds = deque t (memo s); p = tpcs (base s) ! t in
        \<exists>k < granted_to p (length ds). live_from p (length ds) \<le> k \<and> ds ! k = a \<and> state (cell s a) \<noteq> OBSOLETE)"


text \<open>A lock that is taken from the vector of saved locks and renewed.\<close>

fun renewing :: "acq \<Rightarrow> nat option" where
  "renewing (Aq_renew a n) = Some a"
| "renewing (Aq_mode a) = Some a"
| "renewing (Aq_tail a) = Some a"
| "renewing p = None"

section \<open>Lemmas\<close>

lemma holding_held:
  assumes good: "lf_good s" and h: "holding s t a"
  shows "lf_held s t a"
proof -
  let ?ds = "deque t (memo s)" and ?p = "tpcs (base s) ! t"
  obtain k where k: "t < n_threads (base s)" "trx_node_table (memo s) t \<noteq> None" "k < granted_to ?p (length ?ds)"
    "live_from ?p (length ?ds) \<le> k" "?ds ! k = a" "state (cell s a) \<noteq> OBSOLETE"
    using h by (auto simp: holding_def Let_def)
  then have "slot_good s t ?ds k" by (intro granted_slot [OF good]) simp_all
  then show ?thesis using k(5,6) by (auto simp: slot_good_def split: if_splits)
qed

lemma renewing_cell: "renewing p = Some a \<Longrightarrow> acq_good s t r p \<Longrightarrow> a \<in> fresh s \<or> recyclable (cell s a)"
  by (cases p) (auto simp: renewed_def split: if_splits)

lemma renewing_gone:
  assumes good: "lf_good s" and t: "t < n_threads (base s)" and f: "fines s ! t = In_acquire p" "renewing p = Some a"
    and k: "passed s r \<le> k" "k < length (order s r)"
  shows "order s r ! k \<noteq> a"
proof
  assume e: "order s r ! k = a"
  note tab = lf_good_parts(1) [OF good]
  have "present s r k \<and> \<not> head_pass_flag (cell s (order s r ! k))"
    using table_parts(1) [OF tab, of r] k by (simp add: order_good_def)
  then have pk: "a \<notin> fresh s" "\<not> head_pass_flag (cell s a)" by (simp_all add: present_def e)
  obtain st ds x where acq: "acquiring s t p st ds x \<and> acq_good s t (stage_record st (locs (base s) ! t)) p \<and> lock_fits s t st p"
    using lf_good_parts(2) [OF good t] unfolding thread_good_acquire [OF f(1)] by blast
  have "a \<in> fresh s \<or> recyclable (cell s a)"
    using f(2) acq [THEN conjunct2, THEN conjunct1] by (rule renewing_cell)
  then show False using pk by (simp add: recyclable_def)
qed


lemma renewing_unreachable:
  assumes good: "lf_good s" and t: "t < n_threads (base s)" and f: "fines s ! t = In_acquire p" "renewing p = Some a"
  shows "a \<notin> set (drop (passed s r) (order s r))
    \<and> (\<forall>node. lock_table (memo s) r = Some node \<longrightarrow> head node \<noteq> Some a \<and> tail node \<noteq> Some a)"
proof
  note no = renewing_gone [OF good t f]
  show "a \<notin> set (drop (passed s r) (order s r))"
  proof
    assume "a \<in> set (drop (passed s r) (order s r))"
    then obtain i where "i < length (order s r) - passed s r" "drop (passed s r) (order s r) ! i = a"
      by (auto simp: in_set_conv_nth)
    then show False using no [of r "passed s r + i"] by simp
  qed
  show "\<forall>node. lock_table (memo s) r = Some node \<longrightarrow> head node \<noteq> Some a \<and> tail node \<noteq> Some a"
  proof (intro allI impI)
    fix node assume n: "lock_table (memo s) r = Some node"
    note q = table_parts(8) [OF lf_good_parts(1) [OF good] n, unfolded queue_good_def]
    then have "head node \<noteq> Some a" using no [of r "passed s r"] by auto
    moreover have "tail node \<noteq> Some a"
    proof (cases "order s r = []")
      case False
      then have "passed s r \<le> length (order s r) - 1" using q by (auto split: option.splits)
      then show ?thesis using q no [of r "length (order s r) - 1"] False by (simp add: last_conv_nth)
    qed (use q in simp)
    ultimately show "head node \<noteq> Some a \<and> tail node \<noteq> Some a" by blast
  qed
qed

lemma neighbours_good:
  assumes good: "lf_good s" and ids: "ids_left s" and k: "passed s r \<le> k" "Suc k < length (order s r)"
  defines "l \<equiv> cell s (order s r ! k)" and "l' \<equiv> cell s (order s r ! Suc k)"
  shows "next_lock l \<in> {None, Some (order s r ! Suc k)} \<and> (lock_id_on_record l' \<noteq> no_id \<longrightarrow>
    lock_id_on_record l \<noteq> no_id \<and> unat (lock_id_on_record l') = unat (lock_id_on_record l) + 1)"
proof -
  note tab = lf_good_parts(1) [OF good]
  have pl: "placed s r (order s r ! k) k" "placed s r (order s r ! Suc k) (Suc k)"
    using table_parts(1) [OF tab, of r] k by (simp_all add: order_good_def present_def placed_def)
  note i = table_parts(3) [OF tab, of r, unfolded ids_good_def]
  have "next_lock l \<in> {None, Some (order s r ! Suc k)}"
    using table_parts(2) [OF tab, of r] pl(1) by (auto simp: links_good_def placed_def l_def)
  moreover have "lock_id_on_record l \<noteq> no_id \<and> unat (lock_id_on_record l') = unat (lock_id_on_record l) + 1"
    if n: "lock_id_on_record l' \<noteq> no_id"
  proof -
    have "lock_id_on_record l' = of_nat (Suc k)"
      using i [THEN conjunct1, rule_format, OF pl(2)] n by (simp add: l'_def del: of_nat_Suc)
    moreover have n': "lock_id_on_record l \<noteq> no_id" using i pl n unfolding l_def l'_def by blast
    then have "lock_id_on_record l = of_nat k" using i pl(1) by (auto simp: l_def)
    moreover have "length (order s r) < 2 ^ 64" using ids by (simp add: ids_left_def)
    ultimately show ?thesis using n' k(2) by (simp add: unat_of_nat del: of_nat_Suc)
  qed
  ultimately show ?thesis by blast
qed

lemma calls_held:
  assumes good: "lf_good s" and t: "t < n_threads (base s)" and n: "calls_done (tpcs (base s) ! t) = Some n"
  shows "map (\<lambda>a. (record_id (cell s a), mode (cell s a), state (cell s a))) (take n (deque t (memo s)))
    = map (\<lambda>(r, md). (r, md, ACTIVE)) (take n (wanted (locs (base s) ! t)))"
proof -
  let ?p = "tpcs (base s) ! t"
  have "?p \<noteq> Picking" using n by auto
  then obtain x where x: "trx_node_table (memo s) t = Some x"
    using lf_good_parts(2) [OF good t] by (auto simp: thread_good_def split: option.splits)
  have le: "stage_no st \<le> 2" "stage_no st \<le> 3" for st by (cases st; simp)+
  have "n \<le> 3 \<and> n \<le> length (trx_lock_deque x) \<and> (\<forall>k < n. slot_good s t (trx_lock_deque x) k)"
  proof (cases "fines s ! t")
    case Idle
    then have out: "outer_good s t x" using lf_good_parts(2) [OF good t] x by (simp add: thread_good_def)
    then have "n \<le> 3 \<and> n \<le> length (trx_lock_deque x) \<and> live_from ?p (length (trx_lock_deque x)) = 0"
      using n le by (cases ?p) (auto simp: outer_good_def Let_def le_Suc_eq split: if_splits)
    then show ?thesis using out by (auto simp: outer_good_def Let_def)
  next
    case (In_acquire p)
    obtain st ds y where acq: "acquiring s t p st ds y"
      using lf_good_parts(2) [OF good t] unfolding thread_good_acquire [OF In_acquire] by blast
    then have "n = length ds" "length ds = stage_no st" using n by (auto simp: acquiring_def)
    then show ?thesis using acq x le(2) [of st] by (auto simp: acquiring_def slot_good_def nth_append)
  next
    case (In_release p)
    obtain y n' where rel: "releasing s t p y n'"
      using lf_good_parts(2) [OF good t] unfolding thread_good_release [OF In_release] by blast
    then show ?thesis using n by (auto simp: releasing_def Let_def)
  qed
  moreover have "expected ?p l k = ACTIVE" for k l using n by (cases ?p) simp_all
  ultimately have slots: "n \<le> 3" "n \<le> length (trx_lock_deque x)" "\<And>k. k < n \<Longrightarrow> slot_good s t (trx_lock_deque x) k
      \<and> expected ?p (length (trx_lock_deque x)) k = ACTIVE" by auto
  have dq: "deque t (memo s) = trx_lock_deque x" using x by (simp add: deque_def trx_of_def)
  have "(record_id (cell s (trx_lock_deque x ! k)), mode (cell s (trx_lock_deque x ! k)), state (cell s (trx_lock_deque x ! k)))
      = (case wanted (locs (base s) ! t) ! k of (r, md) \<Rightarrow> (r, md, ACTIVE))" if "k < n" for k
  proof -
    have "(record_id (cell s (trx_lock_deque x ! k)), mode (cell s (trx_lock_deque x ! k))) = wanted (locs (base s) ! t) ! k"
      "state (cell s (trx_lock_deque x ! k)) = ACTIVE" using slots(3) [OF that] by (auto simp: slot_good_def lf_held_def)
    then show ?thesis by (metis (no_types, lifting) case_prod_conv)
  qed
  then show ?thesis using slots(1,2) by (intro nth_equalityI) (simp_all add: dq wanted_def)
qed

section \<open>The properties\<close>

text \<open>
  C22: without the global mutex, whatever a thread does next - the next access of
  \<open>AcquireLock\<close>, \<open>IsDeadlock\<close> or \<open>ReleaseLock\<close>, of a read or change, a commit or a rollback -
  fails no assertion, dereferences no null pointer, follows no pointer that is no lock and
  reads past no vector: the last two are the error \<open>Out_of_range\<close> of \<open>lf_access\<close>.
\<close>

theorem lockfree_access_never_fails:
  assumes "lf_reach s" and "ids_left s" and "t < n_threads (base s)" and "lf_can_go t s"
  shows "\<exists>s'. lf_access t s = Inr s'"
  using access_ok [OF reach_good [OF assms(1,2)] assms(2-4)] by blast

text \<open>
  C23: without the global mutex, two transactions that have been given locks on one record
  and have not released them hold them shared.
\<close>

theorem lockfree_locks_exclude:
  assumes "lf_reach s" and "ids_left s" and "holding s t a" and "holding s u b" and "t \<noteq> u"
    and "record_id (lk (memo s) a) = record_id (lk (memo s) b)"
  shows "mode (lk (memo s) a) = SHARED \<and> mode (lk (memo s) b) = SHARED"
  using lf_held_compatible [OF reach_good [OF assms(1,2)]] holding_held [OF reach_good [OF assms(1,2)]] assms(3-6) by blast


text \<open>
  C24: a thread never stores into a recycled lock that others can still reach: while a lock
  is renewed or waits for the exchange of the tail, it is not among the locks from the head
  of its record on, and it is neither head nor tail.
\<close>

theorem recycled_lock_unreachable:
  assumes "lf_reach s" and "ids_left s" and "t < n_threads (base s)" and "fines s ! t = In_acquire p" and "renewing p = Some a"
  shows "a \<notin> set (drop (passed s r) (order s r))
    \<and> (\<forall>node. lock_table (memo s) r = Some node \<longrightarrow> head node \<noteq> Some a \<and> tail node \<noteq> Some a)"
  using renewing_unreachable [OF reach_good [OF assms(1,2)] assms(3-5)] .

text \<open>
  C25: ids are positions: of two neighbours in a record's queue, from the head on, the second
  has an id only if the first has, and then it is one more, as numbers, not only modulo \<open>2^64\<close>.
\<close>

theorem lock_ids_consecutive:
  assumes "lf_reach s" and "ids_left s" and "passed s r \<le> k" and "Suc k < length (order s r)"
  shows "(let l = lk (memo s) (order s r ! k); l' = lk (memo s) (order s r ! Suc k) in
    next_lock l \<in> {None, Some (order s r ! Suc k)}
    \<and> (lock_id_on_record l' \<noteq> 0xffffffffffffffff \<longrightarrow> lock_id_on_record l \<noteq> 0xffffffffffffffff
       \<and> unat (lock_id_on_record l') = unat (lock_id_on_record l) + 1))"
  using neighbours_good [OF reach_good [OF assms(1,2)] assms(2-4)] by (simp add: Let_def)

text \<open>
  C26: signals tell the truth: a live lock ahead of a signalled one, on its record, is shared,
  and so is the signalled lock.
\<close>

theorem signals_sound:
  assumes "lf_reach s" and "ids_left s" and "present s r k" and "signal_flag (lk (memo s) (order s r ! k))"
    and "q < k" and "present s r q" and "state (lk (memo s) (order s r ! q)) \<noteq> OBSOLETE"
  shows "mode (lk (memo s) (order s r ! q)) = SHARED \<and> mode (lk (memo s) (order s r ! k)) = SHARED"
proof -
  have "placed s r (order s r ! k) k" using assms(3) by (simp add: present_def placed_def)
  then have "clear_to s r k"
    using table_parts(4) [OF lf_good_parts(1) [OF reach_good [OF assms(1,2)]], of r] assms(4) by (auto simp: signals_good_def)
  then show ?thesis using assms(5-7) by (auto simp: clear_to_def passable_def gone_def shared_at_def)
qed

text \<open>
  C28: without the global mutex, too, transactions are two-phase: until the commit releases
  its first lock, a transaction has the locks of the calls it has made, in their modes.
\<close>

theorem lockfree_locks_kept_until_commit:
  assumes "lf_reach s" and "ids_left s" and "t < n_threads (base s)" and "calls_done (tpcs (base s) ! t) = Some n"
  shows "map (\<lambda>a. (record_id (lk (memo s) a), mode (lk (memo s) a), state (lk (memo s) a))) (take n (deque t (memo s)))
    = map (\<lambda>(r, md). (r, md, ACTIVE)) (take n (wanted (locs (base s) ! t)))"
  using calls_held [OF reach_good [OF assms(1,2)] assms(3,4)] .

section \<open>Runs\<close>

lemma do_lf_event_act: "do_lf_event e s = Some s' \<Longrightarrow> lf_act e s s'"
  by (cases e) (auto split: if_splits sum.splits fine.splits acq.splits intro: lf_act.intros)

lemma run_lf_reach:
  "run_lf es s = Some s' \<Longrightarrow> list_all (\<lambda>e. \<not> spurious e) es \<Longrightarrow> lf_reach s \<Longrightarrow> lf_reach s'"
proof (induction es arbitrary: s)
  case (Cons e es)
  then obtain s1 where s1: "do_lf_event e s = Some s1" "run_lf es s1 = Some s'" by (auto split: option.splits)
  have "lf_step s s1" using do_lf_event_act [OF s1(1)] Cons.prems(2) unfolding lf_step_def by (intro exI [of _ e]) auto
  then have "lf_reach s1" using Cons.prems(3) by (rule reach_next [rotated])
  then show ?case using Cons s1 by simp
qed simp

text \<open>Few locks are made in a short run.\<close>

lemma run_lf_short: "run_lf es s = Some s' \<Longrightarrow> length (order s' r) \<le> length (order s r) + length es"
proof (induction es arbitrary: s)
  case (Cons e es)
  then obtain s1 where s1: "do_lf_event e s = Some s1" "run_lf es s1 = Some s'" by (auto split: option.splits)
  have "length (order s1 r) \<le> length (order s r) + 1" using act_order [OF do_lf_event_act [OF s1(1)], of r] by auto
  then show ?case using Cons.IH [OF s1(2)] by simp
qed simp

lemma lf_state_from_run:
  assumes "case run_lf es (lf_sys_new n_thr n_rec last_id Map.empty) of None \<Rightarrow> False | Some s \<Rightarrow> P s"
    and "list_all (\<lambda>e. \<not> spurious e) es" and "length es < 1000"
    and "sizes_ok n_thr n_rec last_id"
  obtains s where "lf_reach s" and "ids_left s" and "P s"
proof -
  let ?s = "lf_sys_new n_thr n_rec last_id Map.empty"
  obtain s where s: "run_lf es ?s = Some s" "P s" using assms(1) by (auto split: option.splits)
  have "lf_start ?s" using assms(4) by (auto simp: lf_start_def)
  then have "lf_reach s" by (intro run_lf_reach [OF s(1) assms(2)] reach_start)
  moreover have "length (order s r) < 2 ^ 64" for r
  proof -
    have "length (order s r) \<le> length es" using run_lf_short [OF s(1), of r] by (simp add: lf_sys_new_def)
    then have "length (order s r) < 1000" using assms(3) by simp
    then show ?thesis by (rule less_trans) simp
  qed
  ultimately show thesis using that s(2) by (simp add: ids_left_def)
qed

lemmas lf_eval = run_eval lf_can_go_def lf_access_def lf_unchecked_def lf_in_range_def in_deque_def is_lock_def in_vector_def lf_pick_def outer_step_def lf_acquire_step_def lf_release_step_def
  release_return_def released_lock_def note_insertion_def note_release_def resume_at_def lf_sys_new_def
  AcquireLock_access_def ReleaseLock_access_def prepare_step_def link_step_def walk_step_def decide_step_def
  check_rest_def collect_loop_def load_head_def is_behind_def is_obsolete_def allocate_def recyclable_def count_recycled_def
  set_state_def clear_conflict_def search_result_def search_loop_def n_renewals_def

text \<open>Transaction 0 has read record 1 and has the lock of record 2; transaction 1 may read record 1, too.\<close>

definition two_readers :: "trx_event list" where
  "two_readers = Pick 0 1 2 3 # replicate 19 (Go 0) @ Pick 1 1 2 3 # replicate 16 (Go 1)"

lemma two_readers_state:
  obtains s where "lf_reach s" and "ids_left s" and "n_threads (base s) = 2" and "tpcs (base s) ! 0 = Using Update_j 1"
    and "lf_can_go 0 s" and "holding s 0 0" and "holding s 1 2" and "record_id (lk (memo s) 0) = record_id (lk (memo s) 2)"
    and "wanted (locs (base s) ! 0) = [(1, SHARED), (2, EXCLUSIVE), (3, EXCLUSIVE)]" and "order s 1 = [0, 2]" and "passed s 1 = 0"
proof (rule lf_state_from_run)
  show "case run_lf two_readers (lf_sys_new 2 3 2 Map.empty) of None \<Rightarrow> False | Some s \<Rightarrow>
      n_threads (base s) = 2 \<and> tpcs (base s) ! 0 = Using Update_j 1 \<and> lf_can_go 0 s \<and> holding s 0 0 \<and> holding s 1 2
      \<and> record_id (lk (memo s) 0) = record_id (lk (memo s) 2)
      \<and> wanted (locs (base s) ! 0) = [(1, SHARED), (2, EXCLUSIVE), (3, EXCLUSIVE)] \<and> order s 1 = [0, 2] \<and> passed s 1 = 0"
    by (simp add: two_readers_def lf_eval holding_def granted_to_def less_Suc_eq conj_disj_distribR ex_disj_distrib wanted_def cong: and_then_weak let_weak_cong
        del: and_then_Inr)
qed (use that in \<open>simp_all add: two_readers_def sizes_ok_def word_sle_eq list_all_iff\<close>)

text \<open>Two readers wait behind a writer, which releases its lock and signals both.\<close>

definition writer_then_readers :: "trx_event list" where
  "writer_then_readers = Pick 0 1 2 3 # replicate 19 (Go 0) @ Pick 1 2 1 3 # replicate 6 (Go 1)
     @ Pick 2 2 1 3 # replicate 6 (Go 2) @ replicate 37 (Go 0)"

lemma writer_then_readers_state:
  obtains s where "lf_reach s" and "ids_left s" and "order s 2 = [1, 2, 3]" and "passed s 2 = 1"
    and "present s 2 1" and "present s 2 2" and "state (lk (memo s) 2) = ACTIVE" and "signal_flag (lk (memo s) 3)"
proof (rule lf_state_from_run)
  show "case run_lf writer_then_readers (lf_sys_new 3 3 2 Map.empty) of None \<Rightarrow> False | Some s \<Rightarrow>
      order s 2 = [1, 2, 3] \<and> passed s 2 = 1 \<and> present s 2 1 \<and> present s 2 2
      \<and> state (lk (memo s) 2) = ACTIVE \<and> signal_flag (lk (memo s) 3)"
    by (simp add: writer_then_readers_def lf_eval present_def last_place_def cong: and_then_weak let_weak_cong del: and_then_Inr)
qed (use that in \<open>simp_all add: writer_then_readers_def sizes_ok_def word_sle_eq list_all_iff\<close>)

text \<open>
  A transaction commits, the next one releases its lock of record 1 and moves the head, and
  the first thread takes its old lock of record 1 again.
\<close>

definition lock_reused :: "trx_event list" where
  "lock_reused = Pick 0 1 2 3 # replicate 56 (Go 0) @ Pick 1 1 2 3 # replicate 57 (Go 1)
     @ Pick 0 1 2 3 # replicate 4 (Go 0)"

lemma lock_reused_state:
  obtains s where "lf_reach s" and "ids_left s" and "n_threads (base s) = 2" and "fines s ! 0 = In_acquire (Aq_renew 0 2)"
    and "order s 1 = [0, 3]" and "passed s 1 = 1"
proof (rule lf_state_from_run)
  show "case run_lf lock_reused (lf_sys_new 2 3 2 Map.empty) of None \<Rightarrow> False | Some s \<Rightarrow>
      n_threads (base s) = 2 \<and> fines s ! 0 = In_acquire (Aq_renew 0 2) \<and> order s 1 = [0, 3] \<and> passed s 1 = 1"
    by (simp add: lock_reused_def lf_eval cong: and_then_weak let_weak_cong del: and_then_Inr)
qed (use that in \<open>simp_all add: lock_reused_def sizes_ok_def word_sle_eq list_all_iff\<close>)

section \<open>Witnesses\<close>

theorem lockfree_access_never_fails_witness:
  "\<exists>s s'. lf_reach s \<and> tpcs (base s) ! 0 = Using Update_j 1 \<and> lf_access 0 s = Inr s'"
proof -
  obtain s where s: "lf_reach s" "ids_left s" "n_threads (base s) = 2" "tpcs (base s) ! 0 = Using Update_j 1" "lf_can_go 0 s"
    by (rule two_readers_state)
  then show ?thesis using lockfree_access_never_fails [of s 0] by auto
qed

theorem lockfree_locks_exclude_witness:
  "\<exists>s. lf_reach s \<and> holding s 0 0 \<and> holding s 1 2 \<and> mode (lk (memo s) 0) = SHARED \<and> mode (lk (memo s) 2) = SHARED"
proof -
  obtain s where s: "lf_reach s" "ids_left s" "holding s 0 0" "holding s 1 2" "record_id (lk (memo s) 0) = record_id (lk (memo s) 2)"
    by (rule two_readers_state)
  then show ?thesis using lockfree_locks_exclude [of s 0 0 1 2] by auto
qed


theorem recycled_lock_unreachable_witness:
  "\<exists>s. lf_reach s \<and> fines s ! 0 = In_acquire (Aq_renew 0 2) \<and> order s 1 = [0, 3] \<and> 0 \<notin> set (drop (passed s 1) (order s 1))"
proof -
  obtain s where s: "lf_reach s" "ids_left s" "n_threads (base s) = 2" "fines s ! 0 = In_acquire (Aq_renew 0 2)" "order s 1 = [0, 3]"
    by (rule lock_reused_state)
  then show ?thesis using recycled_lock_unreachable [of s 0 "Aq_renew 0 2" 0 1] by auto
qed

theorem lock_ids_consecutive_witness:
  "\<exists>s. lf_reach s \<and> order s 1 = [0, 2] \<and> next_lock (lk (memo s) 0) \<in> {None, Some 2}"
proof -
  obtain s where s: "lf_reach s" "ids_left s" "order s 1 = [0, 2]" "passed s 1 = 0" by (rule two_readers_state)
  then show ?thesis using lock_ids_consecutive [of s 1 0] by (auto simp: Let_def)
qed

theorem signals_sound_witness:
  "\<exists>s. lf_reach s \<and> order s 2 = [1, 2, 3] \<and> signal_flag (lk (memo s) 3)
    \<and> mode (lk (memo s) 2) = SHARED \<and> mode (lk (memo s) 3) = SHARED"
proof -
  obtain s where s: "lf_reach s" "ids_left s" "order s 2 = [1, 2, 3]" "present s 2 1" "present s 2 2"
    "state (lk (memo s) 2) = ACTIVE" "signal_flag (lk (memo s) 3)" by (rule writer_then_readers_state)
  then show ?thesis using signals_sound [of s 2 2 1] by auto
qed

theorem lockfree_locks_kept_until_commit_witness:
  "\<exists>s. lf_reach s \<and> map (\<lambda>a. (record_id (lk (memo s) a), mode (lk (memo s) a), state (lk (memo s) a))) (take 2 (deque 0 (memo s)))
    = [(1, SHARED, ACTIVE), (2, EXCLUSIVE, ACTIVE)]"
proof -
  obtain s where s: "lf_reach s" "ids_left s" "n_threads (base s) = 2" "tpcs (base s) ! 0 = Using Update_j 1"
    "wanted (locs (base s) ! 0) = [(1, SHARED), (2, EXCLUSIVE), (3, EXCLUSIVE)]" by (rule two_readers_state)
  then show ?thesis using lockfree_locks_kept_until_commit [of s 0 2] by auto
qed

end
