(* ===== verification/LfCorrect.thy ===== *)
theory LfCorrect
  imports TrxCorrect LfProps
begin

text \<open>
  The transactions over the lock manager without the global mutex, the version that
  \<open>RepeatTrx\<close> runs: they are serializable in the order of their commit ids, and the program's
  own check accepts the files of a finished run. Both are the lemmas of the lock service, on
  the interpretation of \<open>LfService\<close>.
\<close>

section \<open>Properties\<close>

text \<open>
  C2: without the global mutex, when every thread has finished, the program's own check
  succeeds on the files the threads wrote, whatever \<open>std::sort\<close> does with equal entries:
  \<open>IsCorrect\<close> returns, its assertion on the number of log entries holds, and it answers true.
\<close>

theorem lockfree_finished_runs_pass_the_check:
  assumes "lf_reach s" and "ids_left s" and "all_finished (base s)" and "sorts_logs sort_logs"
  shows "IsCorrect sort_logs (record_count (memo s)) (n_threads (base s)) (last_global_execution_order (memo s))
    (files (base s)) = Some (Inr True)"
  by (rule lf_service.service_check [OF assms(4) lf_reach_bounded [OF assms(1,2)] assms(3)])

text \<open>
  C3: without the global mutex the transactions are serializable in the order of their commit
  ids: the values noted at the commits are those of a serial execution, and every record
  always has its serial value plus the changes of the transactions that are neither committed
  nor rolled back, of which at most one has changed it.
\<close>

theorem lockfree_transactions_serializable:
  assumes "lf_reach s" and "ids_left s" and "r \<in> {1..record_count (memo s)}"
  shows "serial_from (committed (base s)) (\<lambda>r. 100)
    \<and> value_at (memo s) r = serial_db (committed (base s)) r + (\<Sum>u<n_threads (base s). pend (base s) u r)
    \<and> (\<forall>u < n_threads (base s). \<forall>v < n_threads (base s). pend (base s) u r \<noteq> 0 \<and> pend (base s) v r \<noteq> 0 \<longrightarrow> u = v)"
  by (rule lf_service.service_serializable [OF lf_reach_bounded [OF assms(1,2)] assms(3)])

section \<open>Witnesses\<close>

text \<open>One thread commits one transaction and fails to commit a second one.\<close>

definition lf_one_commit :: "trx_event list" where
  "lf_one_commit = Pick 0 1 2 3 # replicate 56 (Go 0) @ Pick 0 2 1 3 # replicate 85 (Go 0)"

lemma lf_one_commit_state:
  obtains s where "lf_reach s" and "ids_left s" and "all_finished (base s)" and "length (committed (base s)) = 1"
    and "n_threads (base s) = 1" and "record_count (memo s) = 3" and "last_global_execution_order (memo s) = 1"
proof (rule lf_state_from_run)
  show "case run_lf lf_one_commit (lf_sys_new 1 3 1 Map.empty) of None \<Rightarrow> False | Some s \<Rightarrow>
      all_finished (base s) \<and> length (committed (base s)) = 1 \<and> n_threads (base s) = 1
      \<and> record_count (memo s) = 3 \<and> last_global_execution_order (memo s) = 1"
    by (simp add: lf_one_commit_def all_finished_def lf_eval cong: and_then_weak let_weak_cong del: and_then_Inr)
qed (use that in \<open>simp_all add: lf_one_commit_def sizes_ok_def word_sle_eq list_all_iff\<close>)

text \<open>A transaction commits, another one has changed its second record.\<close>

definition commit_and_change :: "trx_event list" where
  "commit_and_change = Pick 0 1 2 3 # replicate 56 (Go 0) @ Pick 1 1 2 3 # replicate 30 (Go 1)"

lemma commit_and_change_state:
  obtains s where "lf_reach s" and "ids_left s" and "length (committed (base s)) = 1" and "n_threads (base s) = 2"
    and "record_count (memo s) = 3" and "pend (base s) 1 2 = 101"
proof (rule lf_state_from_run)
  show "case run_lf commit_and_change (lf_sys_new 2 3 2 Map.empty) of None \<Rightarrow> False | Some s \<Rightarrow>
      length (committed (base s)) = 1 \<and> n_threads (base s) = 2 \<and> record_count (memo s) = 3 \<and> pend (base s) 1 2 = 101"
    by (simp add: commit_and_change_def lf_eval pend_def pending_def cong: and_then_weak let_weak_cong del: and_then_Inr)
qed (use that in \<open>simp_all add: commit_and_change_def sizes_ok_def word_sle_eq list_all_iff\<close>)

theorem lockfree_finished_runs_pass_the_check_witness:
  "\<exists>s. lf_reach s \<and> length (committed (base s)) = 1 \<and> IsCorrect (sort_key commit_id) 3 1 1 (files (base s)) = Some (Inr True)"
proof -
  obtain s where s: "lf_reach s" "ids_left s" "all_finished (base s)" "length (committed (base s)) = 1" "n_threads (base s) = 1"
    "record_count (memo s) = 3" "last_global_execution_order (memo s) = 1" by (rule lf_one_commit_state)
  then show ?thesis using lockfree_finished_runs_pass_the_check [OF s(1-3) sorts_logs_sort_key] by auto
qed

theorem lockfree_transactions_serializable_witness:
  "\<exists>s. lf_reach s \<and> length (committed (base s)) = 1 \<and> pend (base s) 1 2 = 101
    \<and> value_at (memo s) 2 = serial_db (committed (base s)) 2 + (\<Sum>u<2. pend (base s) u 2)"
proof -
  obtain s where s: "lf_reach s" "ids_left s" "length (committed (base s)) = 1" "n_threads (base s) = 2"
    "record_count (memo s) = 3" "pend (base s) 1 2 = 101" by (rule commit_and_change_state)
  then show ?thesis using lockfree_transactions_serializable [OF s(1,2), of 2] by auto
qed

end
