(* ===== verification/Program.thy ===== *)
theory Program
  imports LfCorrect Arguments
begin

text \<open>
  \<open>main()\<close> of \<^verbatim>\<open>project3\<close> around the threads: the arguments, the start, and the report
  that is printed when all threads are joined. What the arguments and the outcome of the
  check make of a run is modelled; \<open>std::sort\<close>, the elapsed time and the printing of the
  quotient of two numbers as a \<open>double\<close> are parameters.
\<close>

section \<open>Start\<close>

text \<open>
  The program up to the start of the threads: not enough arguments, with what is printed then, an
  argument that is no number, or the threads at work, with the three numbers.
\<close>

datatype started = Usage string | Stopped ending | Running i32 i32 i32 lf_sys

definition main_start :: "string list \<Rightarrow> directory \<Rightarrow> started" where
  "main_start argv d =
     (if length argv < 4 then Usage (''Not enough argument'' @ [newline])
      else case stoi (argv ! 1) of Inl e \<Rightarrow> Stopped e | Inr n_thr \<Rightarrow>
        case stoi (argv ! 2) of Inl e \<Rightarrow> Stopped e | Inr n_rec \<Rightarrow>
        case stoi (argv ! 3) of Inl e \<Rightarrow> Stopped e | Inr last_id \<Rightarrow>
          Running n_thr n_rec last_id (lf_sys_new (nat (sint n_thr)) (nat (sint n_rec)) last_id d))"

section \<open>Report\<close>

definition rule_line :: string where
  "rule_line = replicate 89 (CHR ''#'') @ [newline]"

text \<open>The lines before the check is called, with \<open>show_quotient x y\<close> for \<open>(double)x / y\<close>.\<close>

definition report_head :: "(int \<Rightarrow> int \<Rightarrow> string) \<Rightarrow> int \<Rightarrow> i32 \<Rightarrow> i32 \<Rightarrow> i32 \<Rightarrow> string" where
  "report_head show_quotient milliseconds n_thr n_rec last_id =
     rule_line
     @ ''1. The number of threads : '' @ print_int (sint n_thr) @ [newline]
     @ ''2. The number of records : '' @ print_int (sint n_rec) @ [newline]
     @ ''3. Last commit ID : '' @ print_int (sint last_id) @ [newline]
     @ ''4. Throughput (total number of commits / miliseconds) : ''
     @ show_quotient (sint last_id) milliseconds @ [newline]
     @ ''5. Correctness : ''"

definition report_tail :: "(int \<Rightarrow> int \<Rightarrow> string) \<Rightarrow> trx_sys \<Rightarrow> bool \<Rightarrow> string" where
  "report_tail show_quotient s verdict =
     (if verdict then ''true'' else ''false'') @ [newline]
     @ ''6. Percentage of Recycled Locks : ''
     @ show_quotient (100 * int (global_recycled_lock_count s)) (int (global_total_created_lock_count s)) @ [newline]
     @ rule_line"

text \<open>
  The report of the state in which the threads were joined: what is printed, and how the
  program ends. The check is called between the two parts; its table of records cannot be
  allocated with a negative length.
\<close>

definition main_report :: "(log list \<Rightarrow> log list) \<Rightarrow> (int \<Rightarrow> int \<Rightarrow> string) \<Rightarrow> int \<Rightarrow> i32 \<Rightarrow> i32 \<Rightarrow> i32 \<Rightarrow> trx_sys \<Rightarrow> string \<times> ending" where
  "main_report sort_logs show_quotient milliseconds n_thr n_rec last_id s =
     (let out = report_head show_quotient milliseconds n_thr n_rec last_id in
      if n_rec <s 0 then (out, Bad_array_length)
      else case IsCorrect sort_logs (nat (sint n_rec)) (nat (sint n_thr)) last_id (files s) of
             None \<Rightarrow> (out, Never_ends)
           | Some (Inl e) \<Rightarrow> (out, Run_failed e)
           | Some (Inr verdict) \<Rightarrow> (out @ report_tail show_quotient s verdict, Return_zero))"

section \<open>What a run leaves as it was\<close>

lemma main_start_printed:
  "main_start (name # print_int (sint n_thr) # print_int (sint n_rec) # print_int (sint last_id) # args) d
    = Running n_thr n_rec last_id (lf_sys_new (nat (sint n_thr)) (nat (sint n_rec)) last_id d)"
  using stoi_print [of "[]"] by (simp add: main_start_def)

definition sizes_of :: "trx_sys \<Rightarrow> nat \<times> nat \<times> i32" where
  "sizes_of s = (n_threads s, record_count (mem s), last_global_execution_order (mem s))"

lemma data_move_sizes:
  assumes inv: "two_phase s" and t: "t < n_threads s" and move: "data_move t s s'"
  shows "sizes_of s' = sizes_of s"
proof -
  have step: "trx_access t s = Inr s'" and pc: "data_pc (tpcs s ! t)" using move by (simp_all add: data_move_def)
  show ?thesis
  proof (cases "tpcs s ! t")
    case (Using st a)
    then have "use_lock t st a s = Inr s'" using step by (simp add: trx_access_def)
    then have "same_log s s'" "n_threads s' = n_threads s"
      using use_same_log [OF inv t Using] by (auto simp: use_lock_def go_def Let_def split: stage.splits)
    then show ?thesis by (simp add: same_log_def sizes_of_def globals_def)
  next
    case Commit_call
    then show ?thesis using step by (auto simp: trx_access_def take_commit_id_def sizes_of_def go_def Let_def)
  next
    case (Reading_back cid n rs vs)
    then show ?thesis using step read_back_kept [OF inv t] by (auto simp: trx_access_def sizes_of_def go_def)
  next
    case (Publishing cid rs vs)
    then show ?thesis using step by (auto simp: trx_access_def publish_def sizes_of_def go_def)
  next
    case (Undoing f n)
    then have "undo_next t f n s = Inr s'" using step by (simp add: trx_access_def)
    then have "same_log s s'" "n_threads s' = n_threads s"
      using undo_next_same_log [OF inv t Undoing] by (auto simp: undo_next_def go_def Let_def split: if_splits)
    then show ?thesis by (simp add: same_log_def sizes_of_def globals_def)
  qed (use pc in simp_all)
qed

lemma service_step_sizes:
  assumes inv: "two_phase s" and step: "service_step s s'"
  shows "sizes_of s' = sizes_of s"
proof -
  obtain t where t: "t < n_threads s" and move: "lock_move t s s' \<or> data_move t s s'
      \<or> (\<exists>i j k. can_pick t i j k s \<and> s' = pick_step t i j k s)" using step by (auto simp: service_step_def)
  from move show ?thesis
  proof (elim disjE exE conjE)
    assume "lock_move t s s'"
    then show ?thesis by (auto simp: lock_move_def same_data_def sizes_of_def globals_def)
  next
    assume "data_move t s s'"
    then show ?thesis by (rule data_move_sizes [OF inv t])
  next
    fix i j k assume "can_pick t i j k s" "s' = pick_step t i j k s"
    then show ?thesis using Begin_number [OF inv t] by (simp add: can_pick_def pick_step_def sizes_of_def go_def)
  qed
qed

lemma run_sizes:
  assumes "lf_step\<^sup>*\<^sup>* s0 s" and "lf_start s0"
  shows "ids_left s \<Longrightarrow> lf_reach s \<and> sizes_of (base s) = sizes_of (base s0)"
  using assms(1)
proof (induction rule: rtranclp_induct)
  case base
  then show ?case using assms(2) by (simp add: reach_start)
next
  case (step s t)
  then obtain e where "lf_act e s t" unfolding lf_step_def by blast
  then have ids: "ids_left s" using step.prems by (rule act_ids_left)
  then have old: "lf_reach s" "sizes_of (base s) = sizes_of (base s0)" using step.IH by simp_all
  then have "lf_good s" using lf_service.always [OF lf_reach_bounded [OF old(1) ids]] by simp
  then have "two_phase (base s)" "service_step (base s) (base t)"
    using lf_two_phase ids lf_service_step step.hyps(2) by blast+
  then show ?case using service_step_sizes old reach_next [OF old(1) step.hyps(2)] by metis
qed

lemma sizes_of_new [simp]: "sizes_of (trx_sys_new n_thr n_rec last_id d) = (n_thr, n_rec, last_id)"
  by (simp add: sizes_of_def trx_sys_new_def InitManagers_def MakeRecords_eq)

lemma started_run:
  assumes "main_start argv d = Running n_thr n_rec last_id s0"
    and "0 < sint n_thr" and "0 \<le> sint n_rec" and "sint n_rec < 2 ^ 31 - 1"
    and "0 \<le> sint last_id" and "sint last_id + sint n_thr < 2 ^ 31 - 1"
    and "lf_step\<^sup>*\<^sup>* (s0 :: lf_sys) s" and "ids_left s"
  shows "d = Map.empty \<Longrightarrow> lf_reach s" "d = Map.empty \<Longrightarrow> sizes_of (base s) = (nat (sint n_thr), nat (sint n_rec), last_id)"
    "s0 = lf_sys_new (nat (sint n_thr)) (nat (sint n_rec)) last_id d" "sizes_ok (nat (sint n_thr)) (nat (sint n_rec)) last_id"
proof -
  show s0: "s0 = lf_sys_new (nat (sint n_thr)) (nat (sint n_rec)) last_id d"
    using assms(1) by (auto simp: main_start_def split: if_splits sum.splits)
  show ok: "sizes_ok (nat (sint n_thr)) (nat (sint n_rec)) last_id" using assms(2-6) by (simp add: sizes_ok_def word_sle_eq)
  assume d: "d = Map.empty"
  then have "lf_start s0" using s0 ok by (auto simp: lf_start_def)
  from run_sizes [OF assms(7) this assms(8)]
  show "lf_reach s" "sizes_of (base s) = (nat (sint n_thr), nat (sint n_rec), last_id)" by (simp_all add: s0 lf_sys_new_def)
qed

section \<open>Properties\<close>

text \<open>
  C1: the program, started in a directory without log files with three numbers, namely a
  positive number of threads, a number of records that is not negative and below the
  largest \<open>int\<close>, and a last commit id that is not negative and leaves room for one failed
  commit of each thread below the largest \<open>int\<close>, reports \<open>Correctness : true\<close> and returns 0
  once all threads are joined, whatever they did and however \<open>std::sort\<close> orders equal
  entries. (Without a thread no id is used up, and with a negative last commit id none can be: then
  the assertion of \<open>IsCorrect\<close> is not promised.)
\<close>

theorem program_reports_correctness:
  assumes "main_start argv Map.empty = Running n_thr n_rec last_id s0"
    and "0 < sint n_thr" and "0 \<le> sint n_rec" and "sint n_rec < 2 ^ 31 - 1"
    and "0 \<le> sint last_id" and "sint last_id + sint n_thr < 2 ^ 31 - 1"
    and "lf_step\<^sup>*\<^sup>* s0 s" and "ids_left s" and "\<forall>t < n_threads (base s). tpcs (base s) ! t = Finished"
    and "sorts_logs sort_logs"
  shows "main_report sort_logs show_quotient milliseconds n_thr n_rec last_id (base s) =
    (report_head show_quotient milliseconds n_thr n_rec last_id @ report_tail show_quotient (base s) True, Return_zero)"
proof -
  note run = started_run [OF assms(1-8)]
  have "all_finished (base s)" using run(2) assms(2,9) by (simp add: all_finished_def sizes_of_def)
  then have "IsCorrect sort_logs (nat (sint n_rec)) (nat (sint n_thr)) last_id (files (base s)) = Some (Inr True)"
    using lf_service.service_check [OF assms(10) lf_reach_bounded [OF run(1) assms(8)]] run(2) by (simp add: sizes_of_def)
  moreover have "\<not> n_rec <s 0" using assms(3) by (simp add: word_sless_alt)
  ultimately show ?thesis by (simp add: main_report_def)
qed

section \<open>Witnesses\<close>

lemma printed_numbers: "print_int 1 = ''1''" "print_int 3 = ''3''"
  by (simp_all add: print_int_def print_nat.simps digit_def char_of_eq_iff)

text \<open>One thread, three records, one commit.\<close>

lemma one_commit_from_start:
  obtains s where "lf_step\<^sup>*\<^sup>* (lf_sys_new 1 3 1 Map.empty) s" and "ids_left s" and "all_finished (base s)"
    and "length (committed (base s)) = 1"
proof -
  obtain s where s: "lf_reach s" "ids_left s" "all_finished (base s)" "length (committed (base s)) = 1" "n_threads (base s) = 1"
    "record_count (memo s) = 3" "last_global_execution_order (memo s) = 1" by (rule lf_one_commit_state)
  obtain s0 where s0: "lf_start s0" "lf_step\<^sup>*\<^sup>* s0 s"
    using s(1) by (induction rule: reach.induct) (blast intro: rtranclp.rtrancl_into_rtrancl)+
  obtain n_thr n_rec last_id where new: "s0 = lf_sys_new n_thr n_rec last_id Map.empty"
    using s0(1) by (auto simp: lf_start_def)
  have "(n_thr, n_rec, last_id) = (1, 3, 1)"
    using run_sizes [OF s0(2,1) s(2)] s(5-7) by (simp add: new lf_sys_new_def) (simp add: sizes_of_def)
  then show thesis using that s0(2) s(2-4) by (simp add: new)
qed

theorem program_reports_correctness_witness:
  "main_start [''./run'', ''1'', ''3'', ''1''] Map.empty = Running 1 3 1 (lf_sys_new 1 3 1 Map.empty)
    \<and> (\<exists>s. lf_step\<^sup>*\<^sup>* (lf_sys_new 1 3 1 Map.empty) s \<and> all_finished (base s) \<and> length (committed (base s)) = 1
      \<and> main_report (sort_key commit_id) (\<lambda>x y. print_int (x div y)) 20 1 3 1 (base s) =
        (report_head (\<lambda>x y. print_int (x div y)) 20 1 3 1 @ report_tail (\<lambda>x y. print_int (x div y)) (base s) True, Return_zero))"
proof -
  have start: "main_start [''./run'', ''1'', ''3'', ''1''] Map.empty = Running 1 3 1 (lf_sys_new 1 3 1 Map.empty)"
    using main_start_printed [of "''./run''" 1 3 1 "[]"] by (simp add: printed_numbers)
  obtain s where s: "lf_step\<^sup>*\<^sup>* (lf_sys_new 1 3 1 Map.empty) s" "ids_left s" "all_finished (base s)"
    "length (committed (base s)) = 1" by (rule one_commit_from_start)
  have "main_report (sort_key commit_id) (\<lambda>x y. print_int (x div y)) 20 1 3 1 (base s) =
      (report_head (\<lambda>x y. print_int (x div y)) 20 1 3 1 @ report_tail (\<lambda>x y. print_int (x div y)) (base s) True, Return_zero)"
    by (rule program_reports_correctness [OF start _ _ _ _ _ s(1,2) _ sorts_logs_sort_key])
      (use s(3) in \<open>simp_all add: all_finished_def\<close>)
  then show ?thesis using start s by blast
qed

end
