(* ===== verification/SecondRun.thy ===== *)
theory SecondRun
  imports Program
begin

text \<open>
  A run of the program in a directory that holds the log files of an earlier one. The files
  are opened for appending and nothing reads them before the check, so the run goes on as in
  an empty directory and its lines come after the ones that are there; the check then counts
  the lines of both runs.
\<close>

section \<open>The same run over other files\<close>

text \<open>The files of a run over those that were there at its start.\<close>

definition over :: "directory \<Rightarrow> directory \<Rightarrow> directory" where
  "over d e = (\<lambda>f. case e f of None \<Rightarrow> d f | Some c \<Rightarrow> Some ((case d f of None \<Rightarrow> [] | Some b \<Rightarrow> b) @ c))"

definition with_files :: "directory \<Rightarrow> trx_sys \<Rightarrow> trx_sys" where
  "with_files d b = b\<lparr>files := over d (files b)\<rparr>"

definition in_directory :: "directory \<Rightarrow> lf_sys \<Rightarrow> lf_sys" where
  "in_directory d s = s\<lparr>base := with_files d (base s)\<rparr>"

lemma over_empty [simp]: "over d Map.empty = d"
  by (simp add: over_def)

lemma over_open: "open_append f (over d e) = over d (open_append f e)"
  by (rule ext) (auto simp: over_def open_append_def split: option.splits)

lemma over_append: "e f \<noteq> None \<Longrightarrow> append_to f line (over d e) = over d (append_to f line e)"
  by (rule ext) (auto simp: over_def append_to_def)

lemma with_files_fields [simp]:
  "mem (with_files d b) = mem b" "tpcs (with_files d b) = tpcs b" "locs (with_files d b) = locs b"
  "n_threads (with_files d b) = n_threads b" "files (with_files d b) = over d (files b)"
  "committed (with_files d b) = committed b" "writers (with_files d b) = writers b"
  by (simp_all add: with_files_def)

lemma with_files_moves [simp]:
  "go t p m (with_files d b) = with_files d (go t p m b)"
  "(with_files d b)\<lparr>mem := m\<rparr> = with_files d (b\<lparr>mem := m\<rparr>)"
  "(with_files d b)\<lparr>locs := l\<rparr> = with_files d (b\<lparr>locs := l\<rparr>)"
  "finish_thread t p (with_files d b) = with_files d (finish_thread t p b)"
  "pick_step t i j k (with_files d b) = with_files d (pick_step t i j k b)"
  by (simp_all add: with_files_def go_def finish_thread_def pick_step_def)

lemma in_directory_fields [simp]:
  "base (in_directory d s) = with_files d (base s)" "fines (in_directory d s) = fines s"
  "head_mutex (in_directory d s) = head_mutex s" "order (in_directory d s) = order s"
  "passed (in_directory d s) = passed s" "fresh (in_directory d s) = fresh s"
  by (simp_all add: in_directory_def)

lemma in_directory_moves [simp]:
  "resume_at t f (with_files d b) (in_directory d s) = in_directory d (resume_at t f b s)"
  "note_insertion r p n (in_directory d s) = in_directory d (note_insertion r p n s)"
  "note_release t r q (in_directory d s) = in_directory d (note_release t r q s)"
  "(in_directory d s)\<lparr>head_mutex := h\<rparr> = in_directory d (s\<lparr>head_mutex := h\<rparr>)"
  "(in_directory d s)\<lparr>base := with_files d b\<rparr> = in_directory d (s\<lparr>base := b\<rparr>)"
  by (simp_all add: in_directory_def resume_at_def note_insertion_def note_release_def split: acq.splits acq_next.splits rel.splits)

lemma with_files_lock [simp]: "released_lock t (with_files d b) = released_lock t b"
  by (cases "tpcs b ! t") (simp_all add: released_lock_def)

text \<open>A step of data, with the thread's file open when it writes a line.\<close>

lemma trx_access_over:
  assumes "data_pc (tpcs b ! t) \<or> tpcs b ! t \<in> {Picking, Finished}"
    and "\<And>cid rs vs. tpcs b ! t = Publishing cid rs vs \<Longrightarrow> files b (thread_file t (mem b)) \<noteq> None"
  shows "trx_access t (with_files d b) = map_sum id (with_files d) (trx_access t b)"
proof (cases "tpcs b ! t")
  case (Using st a)
  then show ?thesis
    by (cases st) (auto simp: trx_access_def use_lock_def Let_def and_then_def split: sum.splits)
next
  case Commit_call
  then show ?thesis
    by (simp add: trx_access_def take_commit_id_def over_open Let_def)
       (simp add: with_files_def go_def)
next
  case (Publishing cid rs vs)
  have "append_to (thread_file t (mem b)) (print_commit cid rs vs) (over d (files b))
      = over d (append_to (thread_file t (mem b)) (print_commit cid rs vs) (files b))"
    by (rule over_append) (rule assms(2) [OF Publishing])
  note open_file = this
  show ?thesis using open_file Publishing by (simp add: trx_access_def publish_def) (simp add: with_files_def go_def)
next
  case (Undoing u n)
  then show ?thesis by (auto simp: trx_access_def undo_next_def Let_def and_then_def split: sum.splits)
next
  case (Reading_back cid n rs vs)
  then show ?thesis by (auto simp: trx_access_def read_back_def Let_def and_then_def split: sum.splits)
qed (use assms(1) in \<open>simp_all add: trx_access_def\<close>)

lemma outer_step_over:
  assumes wait: "\<And>st a. tpcs (base s) ! t \<noteq> Waiting st a"
    and opened: "\<And>cid rs vs. tpcs (base s) ! t = Publishing cid rs vs \<Longrightarrow> files (base s) (thread_file t (memo s)) \<noteq> None"
  shows "outer_step t (in_directory d s) = map_sum id (in_directory d) (outer_step t s)"
proof -
  have data: "trx_access t (with_files d (base s)) = map_sum id (with_files d) (trx_access t (base s))"
    if "data_pc (tpcs (base s) ! t) \<or> tpcs (base s) ! t \<in> {Picking, Finished}"
    by (rule trx_access_over [OF that opened])
  show ?thesis
    using data wait
    by (cases "tpcs (base s) ! t"; cases "trx_access t (base s)")
       (auto simp: outer_step_def Let_def assert_that_def and_then_def split: if_splits)
qed

lemma lf_unchecked_over:
  assumes wait: "\<And>st a. fines s ! t = Idle \<Longrightarrow> tpcs (base s) ! t \<noteq> Waiting st a"
    and opened: "\<And>cid rs vs. tpcs (base s) ! t = Publishing cid rs vs \<Longrightarrow> files (base s) (thread_file t (memo s)) \<noteq> None"
  shows "lf_unchecked t (in_directory d s) = map_sum id (in_directory d) (lf_unchecked t s)"
proof (cases "fines s ! t")
  case Idle
  then show ?thesis using outer_step_over [OF wait opened] by (simp add: lf_unchecked_def)
next
  case (In_acquire p)
  have "lf_acquire_step t st p (in_directory d s) = map_sum id (in_directory d) (lf_acquire_step t st p s)" for st
    by (auto simp: lf_acquire_step_def Let_def and_then_def split: sum.splits acq_next.splits)
  then show ?thesis using In_acquire by (simp add: lf_unchecked_def split: tpc.splits)
next
  case (In_release p)
  have "release_return t (in_directory d s') = in_directory d (release_return t s')" for s'
    by (simp add: release_return_def Let_def split: tpc.splits)
  then have "lf_release_step t a p (in_directory d s) = map_sum id (in_directory d) (lf_release_step t a p s)" for a
    by (auto simp: lf_release_step_def Let_def and_then_def split: sum.splits)
  then show ?thesis using In_release by (simp add: lf_unchecked_def)
qed

lemma act_over:
  assumes wait: "\<And>t st a. t < n_threads (base s) \<Longrightarrow> fines s ! t = Idle \<Longrightarrow> tpcs (base s) ! t \<noteq> Waiting st a"
    and opened: "\<And>t cid rs vs. t < n_threads (base s) \<Longrightarrow> tpcs (base s) ! t = Publishing cid rs vs \<Longrightarrow>
      files (base s) (thread_file t (memo s)) \<noteq> None"
  shows "lf_act e (in_directory d s) r \<longleftrightarrow> (\<exists>s'. lf_act e s s' \<and> r = in_directory d s')"
proof -
  have range: "lf_in_range t (in_directory d s) = lf_in_range t s" for t
    by (cases "fines s ! t"; cases "tpcs (base s) ! t"; simp add: lf_in_range_def Let_def)
  have access: "lf_access t (in_directory d s) = map_sum id (in_directory d) (lf_access t s)" if "t < n_threads (base s)" for t
    using lf_unchecked_over [OF wait opened, of t] that by (simp add: lf_access_def range)
  have go: "lf_can_go t (in_directory d s) = lf_can_go t s" for t
    by (cases "fines s ! t") (simp_all add: lf_can_go_def split: acq.splits rel.splits)
  have "can_pick t i j k (with_files d (base s)) = can_pick t i j k (base s)" for t i j k by (simp add: can_pick_def)
  note can = go this
  have pick: "lf_pick t i j k (in_directory d s) = in_directory d (lf_pick t i j k s)" for t i j k
    by (simp add: lf_pick_def)
  have inr: "map_sum id f x = Inr r \<longleftrightarrow> (\<exists>y. x = Inr y \<and> r = f y)" for f :: "lf_sys \<Rightarrow> lf_sys" and x :: "lf_sys res" and r
    by (cases x) auto
  show ?thesis
  proof
    assume "lf_act e (in_directory d s) r"
    then show "\<exists>s'. lf_act e s s' \<and> r = in_directory d s'"
    proof (cases rule: lf_act.cases)
      case (lf_act_pick t i j k)
      then have "lf_act e s (lf_pick t i j k s)" using can lf_act.lf_act_pick by simp
      then show ?thesis using lf_act_pick pick by blast
    next
      case (lf_act_go t)
      then obtain s' where s': "lf_access t s = Inr s'" "r = in_directory d s'" using access [of t] inr by auto
      then have "lf_act e s s'" using lf_act_go can lf_act.lf_act_go by simp
      then show ?thesis using s'(2) by blast
    next
      case (lf_act_spurious t a)
      then obtain s' where s': "lf_access t s = Inr s'" "r = in_directory d s'" using access [of t] inr by auto
      then have "lf_act e s s'" using lf_act_spurious lf_act.lf_act_spurious by simp
      then show ?thesis using s'(2) by blast
    qed
  next
    assume "\<exists>s'. lf_act e s s' \<and> r = in_directory d s'"
    then obtain s' where s': "lf_act e s s'" "r = in_directory d s'" by blast
    show "lf_act e (in_directory d s) r"
      using s'(1)
    proof (cases rule: lf_act.cases)
      case (lf_act_pick t i j k)
      then have "lf_act e (in_directory d s) (lf_pick t i j k (in_directory d s))" using can lf_act.lf_act_pick by simp
      then show ?thesis using lf_act_pick pick s'(2) by simp
    next
      case (lf_act_go t)
      then show ?thesis using access [of t] can lf_act.lf_act_go [of t "in_directory d s" r] s'(2) by simp
    next
      case (lf_act_spurious t a)
      then show ?thesis using access [of t] lf_act.lf_act_spurious [of t "in_directory d s" a r] s'(2) by simp
    qed
  qed
qed

section \<open>The runs of the program\<close>

lemma publishing_opened:
  assumes inv: "two_phase b" and L: "logged b ts" and t: "t < n_threads b" "tpcs b ! t = Publishing cid rs vs"
  shows "files b (thread_file t (mem b)) \<noteq> None"
proof -
  have "tpcs b ! t \<noteq> Picking" using t(2) by simp
  then obtain n where num: "number_of (mem b) t = Some n" "thread_file t (mem b) = file_name n"
    using busy_number [OF inv t(1)] by metis
  have "file_ok b t n" using L num by (simp add: logged_def files_ok_def)
  then show ?thesis using t(2) num(2) by (auto simp: file_ok_def split: option.splits)
qed

lemma step_over:
  assumes good: "lf_good s" "two_phase (base s)" "logged (base s) ts"
  shows "lf_step (in_directory d s) r \<longleftrightarrow> (\<exists>s'. lf_step s s' \<and> r = in_directory d s')"
proof -
  have "tpcs (base s) ! t \<noteq> Waiting st a" if "t < n_threads (base s)" "fines s ! t = Idle" for t st a
    using lf_good_parts(2) [OF good(1) that(1)] that(2) by (auto simp: thread_good_def outer_good_def Let_def split: option.splits)
  then have "lf_act e (in_directory d s) r \<longleftrightarrow> (\<exists>s'. lf_act e s s' \<and> r = in_directory d s')" for e
    using act_over publishing_opened [OF good(2,3)] by blast
  then show ?thesis unfolding lf_step_def by blast
qed

lemma in_directory_new: "in_directory d (lf_sys_new n_thr n_rec last_id Map.empty) = lf_sys_new n_thr n_rec last_id d"
  by (simp add: in_directory_def with_files_def lf_sys_new_def trx_sys_new_def)

lemma run_over:
  assumes "lf_step\<^sup>*\<^sup>* (lf_sys_new n_thr n_rec last_id d) r" and "sizes_ok n_thr n_rec last_id"
  shows "ids_left r \<Longrightarrow> \<exists>s. lf_step\<^sup>*\<^sup>* (lf_sys_new n_thr n_rec last_id Map.empty) s \<and> ids_left s \<and> r = in_directory d s"
  using assms(1)
proof (induction rule: rtranclp_induct)
  case base
  have "ids_left (lf_sys_new n_thr n_rec last_id Map.empty)" by (simp add: ids_left_def lf_sys_new_def)
  then show ?case using in_directory_new [of d n_thr n_rec last_id] by (metis rtranclp.rtrancl_refl)
next
  case (step r r')
  obtain e where "lf_act e r r'" using step.hyps(2) unfolding lf_step_def by blast
  then have "ids_left r" using step.prems by (rule act_ids_left)
  then obtain s where s: "lf_step\<^sup>*\<^sup>* (lf_sys_new n_thr n_rec last_id Map.empty) s" "ids_left s" "r = in_directory d s"
    using step.IH by blast
  have "lf_start (lf_sys_new n_thr n_rec last_id Map.empty)" using assms(2) by (auto simp: lf_start_def)
  then have reach: "reach lf_start lf_step_bounded s" using run_sizes [OF s(1) _ s(2)] lf_reach_bounded [OF _ s(2)] by blast
  obtain ts where L: "two_phase (base s)" "logged (base s) ts" using lf_service.service_runs [OF reach] by blast
  have "lf_good s" using lf_service.always [OF reach] by simp
  then obtain s' where s': "lf_step s s'" "r' = in_directory d s'" using step_over [OF _ L] step.hyps(2) s(3) by blast
  have "ids_left s'" using step.prems s'(2) by (simp add: ids_left_def)
  moreover have "lf_step\<^sup>*\<^sup>* (lf_sys_new n_thr n_rec last_id Map.empty) s'" using s(1) s'(1) by (rule rtranclp.rtrancl_into_rtrancl)
  ultimately show ?case using s'(2) by blast
qed

lemma run_into:
  assumes "lf_step\<^sup>*\<^sup>* (lf_sys_new n_thr n_rec last_id Map.empty) s" and "sizes_ok n_thr n_rec last_id"
  shows "ids_left s \<Longrightarrow> lf_step\<^sup>*\<^sup>* (lf_sys_new n_thr n_rec last_id d) (in_directory d s)"
  using assms(1)
proof (induction rule: rtranclp_induct)
  case base
  then show ?case by (simp add: in_directory_new)
next
  case (step s s')
  obtain e where "lf_act e s s'" using step.hyps(2) unfolding lf_step_def by blast
  then have ids: "ids_left s" using step.prems by (rule act_ids_left)
  have "lf_start (lf_sys_new n_thr n_rec last_id Map.empty)" using assms(2) by (auto simp: lf_start_def)
  then have reach: "reach lf_start lf_step_bounded s" using run_sizes [OF step.hyps(1) _ ids] lf_reach_bounded [OF _ ids] by blast
  obtain ts where L: "two_phase (base s)" "logged (base s) ts" using lf_service.service_runs [OF reach] by blast
  have "lf_good s" using lf_service.always [OF reach] by simp
  then have "lf_step (in_directory d s) (in_directory d s')" using step_over [OF _ L] step.hyps(2) by blast
  then show ?case using step.IH [OF ids] by (rule rtranclp.rtrancl_into_rtrancl [rotated])
qed

lemma length_concat_append:
  "length (concat (map (\<lambda>n. f n @ g n) ns)) = length (concat (map f ns)) + length (concat (map g ns))"
  by (induction ns) simp_all

text \<open>The check after two finished runs with the same numbers, the second over the first's files.\<close>

lemma check_of_two_runs:
  assumes srt: "sorts_logs sort_logs" and one: "reach lf_start lf_step_bounded s" "all_finished (base s)" "sizes_of (base s) = (n, m, last_id)"
    and two: "reach lf_start lf_step_bounded r" "all_finished (base r)" "sizes_of (base r) = (n, m, last_id)"
    and pos: "0 < sint last_id"
  shows "IsCorrect sort_logs m n last_id (over (files (base s)) (files (base r))) = Some (Inl Assert_failed)"
proof -
  obtain ts where S: "two_phase (base s)" "logged (base s) ts" using lf_service.service_runs [OF one(1)] by blast
  obtain us where R: "two_phase (base r)" "logged (base r) us" using lf_service.service_runs [OF two(1)] by blast
  note sizes = one(3) [unfolded sizes_of_def] two(3) [unfolded sizes_of_def]
  obtain f where f: "\<And>k. k \<in> {1..n} \<Longrightarrow> files (base s) (file_name (word_of_nat k)) = Some (concat (map log_line (f k)))"
    "\<And>k. \<forall>e \<in> set (f k). log_fits e \<and> log_in_range m e" "mset (concat (map f [1..<n + 1])) = mset (committed (base s))"
    using finished_entries [OF S one(2)] sizes(1) by auto
  obtain g where g: "\<And>k. k \<in> {1..n} \<Longrightarrow> files (base r) (file_name (word_of_nat k)) = Some (concat (map log_line (g k)))"
    "\<And>k. \<forall>e \<in> set (g k). log_fits e \<and> log_in_range m e" "mset (concat (map g [1..<n + 1])) = mset (committed (base r))"
    using finished_entries [OF R two(2)] sizes(2) by auto
  have "int (length (committed (base s))) = sint last_id" "int (length (committed (base r))) = sint last_id"
    using finished_files(4) [OF S one(2)] finished_files(4) [OF R two(2)] sizes by simp_all
  moreover have "length (concat (map f [1..<n + 1])) = length (committed (base s))" "length (concat (map g [1..<n + 1])) = length (committed (base r))"
    using f(3) g(3) by (metis size_mset)+
  ultimately have len: "int (length (concat (map (\<lambda>k. f k @ g k) [1..<n + 1]))) = 2 * sint last_id"
    unfolding length_concat_append by simp
  have "sint last_id < 2 ^ 31" using sint_lt [of last_id] by simp
  then have "int (length (concat (map (\<lambda>k. f k @ g k) [1..<n + 1]))) < 2 ^ 32" using len by simp
  then have "length (concat (map (\<lambda>k. f k @ g k) [1..<n + 1])) < 2 ^ 63" by (simp del: upt_Suc)
  then have "IsCorrect sort_logs m n last_id (over (files (base s)) (files (base r))) = Some
    (if int (length (concat (map (\<lambda>k. f k @ g k) [1..<n + 1]))) = sint last_id
     then Inr (serial_from (sort_logs (concat (map (\<lambda>k. f k @ g k) [1..<n + 1]))) (\<lambda>r. 100)) else Inl Assert_failed)"
    using f(1,2) g(1,2) by (intro IsCorrect_verdict [OF srt]) (auto simp: over_def)
  then show ?thesis using len pos by simp
qed

section \<open>Property\<close>

text \<open>
  C21: the log files are opened for appending and never emptied. When the program was run in
  a directory without log files and its threads were joined, with a positive number of
  threads, a positive last commit id and numbers below the largest \<open>int\<close> as for the first run's
  success, then a second run with the same arguments in the directory the first one left,
  whatever its threads did, prints the report up to the verdict and fails the assertion of
  the check: the entries of the first run are counted too.
\<close>

theorem second_run_fails_the_check:
  assumes "main_start argv Map.empty = Running n_thr n_rec last_id s0"
    and "0 < sint n_thr" and "0 \<le> sint n_rec" and "sint n_rec < 2 ^ 31 - 1"
    and "0 < sint last_id" and "sint last_id + sint n_thr < 2 ^ 31 - 1"
    and "lf_step\<^sup>*\<^sup>* s0 s" and "ids_left s" and "\<forall>t < n_threads (base s). tpcs (base s) ! t = Finished"
    and "main_start argv (files (base s)) = Running n_thr n_rec last_id r0"
    and "lf_step\<^sup>*\<^sup>* r0 r" and "ids_left r" and "\<forall>t < n_threads (base r). tpcs (base r) ! t = Finished"
    and "sorts_logs sort_logs"
  shows "main_report sort_logs show_quotient milliseconds n_thr n_rec last_id (base r) =
    (report_head show_quotient milliseconds n_thr n_rec last_id, Run_failed Assert_failed)"
proof -
  let ?n = "nat (sint n_thr)" and ?m = "nat (sint n_rec)" and ?d = "files (base s)"
  note low = order.strict_implies_order [OF assms(5)]
  note one = started_run [OF assms(1-4) low assms(6-8)] and two = started_run [OF assms(10) assms(2-4) low assms(6,11,12)]
  obtain r' where r': "lf_step\<^sup>*\<^sup>* (lf_sys_new ?n ?m last_id Map.empty) r'" "ids_left r'" "r = in_directory ?d r'"
    using run_over [OF _ two(4) assms(12)] assms(11) two(3) by metis
  have "lf_start (lf_sys_new ?n ?m last_id Map.empty)" using two(4) by (auto simp: lf_start_def)
  then have again: "lf_reach r'" "sizes_of (base r') = (?n, ?m, last_id)"
    using run_sizes [OF r'(1) _ r'(2)] by (simp_all add: lf_sys_new_def)
  have "all_finished (base s)" "all_finished (base r')"
    using one(2) again(2) assms(2,9,13) r'(3) by (simp_all add: all_finished_def sizes_of_def)
  then have "IsCorrect sort_logs ?m ?n last_id (over ?d (files (base r'))) = Some (Inl Assert_failed)"
    using check_of_two_runs [OF assms(14) lf_reach_bounded [OF _ assms(8)] _ _ lf_reach_bounded [OF again(1) r'(2)] _ again(2) assms(5)]
      one(1,2) by blast
  moreover have "\<not> n_rec <s 0" using assms(3) by (simp add: word_sless_alt)
  ultimately show ?thesis by (simp add: main_report_def r'(3))
qed

text \<open>One thread, three records, one commit, twice.\<close>

theorem second_run_fails_the_check_witness:
  "\<exists>s r. lf_step\<^sup>*\<^sup>* (lf_sys_new 1 3 1 Map.empty) s \<and> all_finished (base s)
    \<and> lf_step\<^sup>*\<^sup>* (lf_sys_new 1 3 1 (files (base s))) r \<and> all_finished (base r)
    \<and> main_report (sort_key commit_id) (\<lambda>x y. print_int (x div y)) 20 1 3 1 (base r) =
      (report_head (\<lambda>x y. print_int (x div y)) 20 1 3 1, Run_failed Assert_failed)"
proof -
  have start: "main_start [''./run'', ''1'', ''3'', ''1''] d = Running 1 3 1 (lf_sys_new 1 3 1 d)" for d
    using main_start_printed [of "''./run''" 1 3 1 "[]" d] by (simp add: printed_numbers)
  obtain s where s: "lf_step\<^sup>*\<^sup>* (lf_sys_new 1 3 1 Map.empty) s" "ids_left s" "all_finished (base s)" by (rule one_commit_from_start)
  define r where "r = in_directory (files (base s)) s"
  have r: "lf_step\<^sup>*\<^sup>* (lf_sys_new 1 3 1 (files (base s))) r" "ids_left r" "all_finished (base r)"
    using run_into [OF s(1) _ s(2)] s(2,3) by (simp_all add: r_def sizes_ok_def word_sle_eq ids_left_def all_finished_def)
  have "main_report (sort_key commit_id) (\<lambda>x y. print_int (x div y)) 20 1 3 1 (base r) =
      (report_head (\<lambda>x y. print_int (x div y)) 20 1 3 1, Run_failed Assert_failed)"
    by (rule second_run_fails_the_check [OF start _ _ _ _ _ s(1,2) _ start r(1,2) _ sorts_logs_sort_key])
      (use s(3) r(3) in \<open>simp_all add: all_finished_def\<close>)
  then show ?thesis using s r by blast
qed

end
