(* ===== verification/Spec2Isabelle.thy ===== *)
theory Spec2Isabelle
  imports SnapshotDriver SecondRun
begin

text \<open>
  A verification development for the course projects of this repository. \<^verbatim>\<open>project2\<close> is a
  wait-free atomic snapshot of single-writer registers; \<^verbatim>\<open>project3\<close> is a lock manager with
  two-phase locking, deadlock detection and lock reuse, in one version under a global mutex
  and one without it, with transactions over it and a check of their commit logs. This
  header says which theory models which code, what is shown, under which bounds, and what is
  left out.

  \<^bold>\<open>The snapshot (\<^verbatim>\<open>project2\<close>).\<close> A writer's \<open>update()\<close> first takes a \<open>scan()\<close> of all registers,
  publishes it as a version of its own \<open>shared_snapshot\<close>, then writes its register. A scan
  collects the registers until two collects agree, or borrows the version of a writer that
  changed twice.

  \<^item> \<open>Register\<close>: \<^verbatim>\<open>AtomicRegister.hpp\<close>, a 64 bit word of a timestamp and a value. Reading back
    what was written, the timestamp's growth and its assertion, no ABA.
  \<^item> \<open>SharedSnapshot\<close>: \<open>Snapshot\<close> and \<open>shared_snapshot\<close>, the versions of one writer with the
    reference count split between the outer word and the version's own count, both at their
    widths. Contracts of \<open>exchange\<close>, \<open>acquire\<close> and \<open>release\<close>.
  \<^item> \<open>ScanMachine\<close>: \<open>WaitfreeAtomicSnapshot\<close> as an interleaved machine, one access to shared
    memory per step; an index outside a vector is the error \<open>Out_of_range\<close>. \<open>ScanInv\<close> and
    \<open>ScanSteps\<close>: its invariant and that every step keeps it. \<open>ScanProps\<close>: linearizability of scans, their total order, that
    no access fails, that versions in use are not overwritten, wait-freedom.
  \<^item> \<open>Registration\<close>: \<open>RegisterTid()\<close> and the entry of \<open>update()\<close>, from the table of thread ids to
    what the finished call has written.
  \<^item> \<open>SnapshotDriver\<close>: \<open>main()\<close> and \<open>CountUpdate()\<close>. The program uses the object as the machine
    assumes, one thread to a register, and its total counts the writes.

  \<^bold>\<open>The lock manager under the global mutex (\<^verbatim>\<open>project3\<close>).\<close> A transaction of \<open>RepeatTrx2\<close> reads a
  record, changes two others by what it read, and commits or, if \<open>AcquireLock\<close> finds a
  deadlock, is rolled back. The locks of a record are a linked list from \<open>head\<close> to \<open>tail\<close>.

  \<^item> \<open>LockTable\<close>: \<^verbatim>\<open>Lock.hpp\<close>, \<^verbatim>\<open>LockManager.hpp\<close>, \<^verbatim>\<open>TrxNode.hpp\<close>, \<^verbatim>\<open>TrxManager.hpp\<close>, the small
    operations of \<^verbatim>\<open>LockManager.cpp\<close> and \<^verbatim>\<open>TrxManager.cpp\<close>; one memory with a heap of locks.
  \<^item> \<open>Deadlock\<close>: \<open>IsDeadlock2\<close> and that it decides reachability in the waits-for relation.
  \<^item> \<open>MutexAcquire\<close>, \<open>MutexRelease\<close>: \<open>AcquireLock\<close> and \<open>ReleaseLock\<close> with the mutex, one function
    each because they run inside it, with their contracts over the abstract queues
    (\<open>acquired_as\<close>, \<open>released_as\<close>).
  \<^item> \<open>TrxMachine\<close>: \<open>RepeatTrx2\<close>, \<open>Find\<close>, \<open>Update\<close>, \<open>Commit\<close>, \<open>Abort\<close> as an interleaved machine, one
    critical section or one access outside the mutex per step. \<open>TrxInv\<close>, \<open>TrxSteps\<close>,
    \<open>TrxLocks\<close>, \<open>TrxRun\<close>: the locking invariant and that every step keeps it and none fails.
    \<open>TrxProps\<close>: exclusion, no deadlock, no lost wake-up, the locks kept until the commit, and
    what a spurious wake-up breaks.

  \<^bold>\<open>The interface between locks and transactions.\<close> The values of the records and the logs do not
  depend on how locks are managed, only on the two-phase contract.

  \<^item> \<open>TwoPhase\<close>: the contract \<open>two_phase\<close> and the locale \<open>lock_service\<close>, a machine whose
    invariant gives the contract and whose steps are moves inside the lock manager, accesses
    of the transactions, or starts of transactions.
  \<^item> \<open>CommitLog\<close>, \<open>LogText\<close>: printing and reading of the commit logs, \<open>IsCorrect()\<close>, and that
    what was printed is read back. \<open>Replay\<close>, \<open>LogCheck\<close>: the replay against a serial
    execution, the verdict of the check, what it does on missing or left-over files.
  \<^item> \<open>TrxValues\<close>, \<open>TrxCommits\<close>, \<open>TrxSerial\<close>: over any lock service the values are serial in the
    order of the commit ids, the files hold the commits, and the check of a finished run
    succeeds.
  \<^item> \<open>TrxService\<close> with \<open>TrxCorrect\<close>, and \<open>LfService\<close> with \<open>LfCorrect\<close>: the two versions of the
    lock manager as interpretations of the locale, and what follows for each.

  \<^bold>\<open>The lock manager without the global mutex.\<close> Locks are inserted by an exchange of \<open>tail\<close>; each
  lock gets an id one larger than the one before it; a thread walks from \<open>head\<close> to its own
  lock and compares; \<open>ReleaseLock\<close> moves \<open>head\<close> under the record's head mutex; released locks
  that nobody can reach are used again.

  \<^item> \<open>LockFree\<close>: \<open>AcquireLock\<close>, \<open>IsDeadlock\<close> and \<open>ReleaseLock\<close> of \<^verbatim>\<open>Acquire.cpp\<close>, \<^verbatim>\<open>Deadlock.cpp\<close> and
    \<^verbatim>\<open>Release.cpp\<close>, one access to shared memory per step. \<open>LockFreeMachine\<close>: the threads of
    \<open>RepeatTrx\<close> over them. Before each access \<open>lf_in_range\<close> tests that every lock it follows is
    in the heap and every index in its vector; if not, the access is \<open>Out_of_range\<close>.
  \<^item> \<open>LfInv\<close>: the invariant, over the order of the exchanges of each record's tail. \<open>LfFrame\<close>,
    \<open>LfLocal\<close>, \<open>LfOwn\<close>: what a step leaves to the other threads. \<open>LfPrepare\<close>, \<open>LfLink\<close>, \<open>LfWalk\<close>,
    \<open>LfStore\<close>, \<open>LfDecide\<close>: the steps of \<open>AcquireLock\<close>; \<open>LfRelease\<close>, \<open>LfWake\<close>: those of
    \<open>ReleaseLock\<close>; \<open>LfOuter\<close>: the rest, and the invariant for all runs.
  \<^item> \<open>LfProps\<close>: no access fails, exclusion, unreachable locks when they are used again,
    consecutive ids, sound signals, a well-typed memory, the locks kept until the commit.
  \<^item> \<open>Arguments\<close>, \<open>Program\<close>: \<open>main()\<close> of \<^verbatim>\<open>project3\<close>, from the command line to the report.
    \<open>SecondRun\<close>: a second run over the log files of a first.

  \<^bold>\<open>Bounds.\<close> Register timestamps have 32 bits: the write that would exceed them fails its
  assertion, and this is the only access that can fail. Threads are fewer than \<open>2^31 - 1\<close>,
  because a writer has one version more. \<open>sizes_ok\<close>: the \<open>int\<close> counters of the loops over
  threads and records do not overflow, nor does the count of executions, which every thread
  exceeds once. \<open>ids_left\<close>: no record sees \<open>2^64\<close> locks, so the 64 bit ids do not wrap. Four
  loops along a queue under the mutex have fuel (\<open>scan_ahead\<close>, \<open>collect_locks\<close>, \<open>move_head\<close>,
  \<open>wake_readers\<close>), one unit more than there are locks; that it suffices is part of their
  contracts. \<open>deadlock_search\<close> ends because the threads it has passed grow. The search and
  the walk without the mutex are steps of the machine and need no fuel. The loop over a log file is a
  \<open>partial_function\<close>, whose \<open>None\<close> is a loop that does not end. The two statistics of the
  report are natural numbers.

  \<^bold>\<open>Assumptions.\<close> Memory is sequentially consistent, although the code asks for weaker orders at
  some accesses. A section under a transaction's own mutex is one step, and so are the reads
  of a thread's own flags. Condition variables wake only when notified, but for
  \<open>spurious_wake_up_breaks_exclusion\<close>, which lets one wake without. The random choices, the
  clock and the scheduler are free. \<open>std::sort\<close> is a
  parameter: any function that returns a permutation without inversions (\<open>sorts_logs\<close>). Log files are whole strings, and opening, writing and
  reading them does not fail for other reasons than a missing file.

  \<^bold>\<open>Not modelled.\<close> \<^verbatim>\<open>project1\<close> holds an archive, \<^verbatim>\<open>project4\<close> a patch against the sources of
  a database server that are not in the repository. The random generators
  and the clock appear as free choices; the printing of a quotient of two \<open>double\<close> values is
  a parameter of the report. The copy constructor of \<open>shared_snapshot\<close> shares versions between
  two objects, which are values here; nothing calls it. Wake-ups of the version without the
  mutex are shown sound, not complete: that a sleeping thread is always woken there is not
  among the properties.
\<close>

end
